(* ===== verification/Prelude.thy ===== *)
theory Prelude
  imports Main "HOL-Library.Word" "HOL-Library.Monad_Syntax"
begin

text \<open>
  The vocabulary the component theories share.

  \<^item> Machine types as words (\<open>u8\<close>, \<open>u32\<close>, \<open>u64\<close>).
  \<^item> C memory accesses: an array is a list, and reading or writing it (\<open>rd\<close>, \<open>wr\<close>) is a value of
    the option type, \<open>None\<close> outside its bounds. A function that returns \<open>Some\<close> made no access
    outside an array and failed no assertion (\<open>guard\<close>).
  \<^item> C loops: \<open>for_up\<close>, \<open>for_down\<close>, \<open>foldM\<close>, and \<open>whileM\<close>, a \<open>while\<close> whose condition and body may
    fail; a loop that never ends is \<open>None\<close> too.
  \<^item> \<open>wp m Q\<close>: the computation \<open>m\<close> ends without a fault and its result satisfies \<open>Q\<close>. The
    collection \<open>wp_simps\<close> computes it for straight-line code; \<open>wp_for_up\<close>, \<open>wp_for_down\<close> and
    \<open>wp_whileM\<close> are the rules for loops (an invariant and, for \<open>while\<close>, a measure).
\<close>

section \<open>Machine types\<close>

type_synonym u8 = "8 word"
type_synonym u32 = "32 word"
type_synonym u64 = "64 word"

named_theorems wp_simps

section \<open>Computations that may fault\<close>

definition wp :: "'a option \<Rightarrow> ('a \<Rightarrow> bool) \<Rightarrow> bool" where
  "wp m Q \<longleftrightarrow> (\<exists>x. m = Some x \<and> Q x)"

text \<open>Array accesses and assertions.\<close>

definition rd :: "'a list \<Rightarrow> nat \<Rightarrow> 'a option" where
  "rd xs i = (if i < length xs then Some (xs ! i) else None)"

definition wr :: "'a list \<Rightarrow> nat \<Rightarrow> 'a \<Rightarrow> 'a list option" where
  "wr xs i v = (if i < length xs then Some (xs[i := v]) else None)"

definition guard :: "bool \<Rightarrow> unit option" where
  "guard b = (if b then Some () else None)"

text \<open>Loops.\<close>

primrec foldM :: "('a \<Rightarrow> 's \<Rightarrow> 's option) \<Rightarrow> 'a list \<Rightarrow> 's \<Rightarrow> 's option" where
  "foldM f [] s = Some s"
| "foldM f (x # xs) s = Option.bind (f x s) (foldM f xs)"

definition for_up :: "nat \<Rightarrow> nat \<Rightarrow> (nat \<Rightarrow> 's \<Rightarrow> 's option) \<Rightarrow> 's \<Rightarrow> 's option" where
  "for_up lo hi f s = foldM f [lo..<hi] s"

definition for_down :: "nat \<Rightarrow> nat \<Rightarrow> (nat \<Rightarrow> 's \<Rightarrow> 's option) \<Rightarrow> 's \<Rightarrow> 's option" where
  "for_down lo hi f s = foldM f (rev [lo..<hi]) s"

partial_function (option) whileM ::
    "('s \<Rightarrow> bool option) \<Rightarrow> ('s \<Rightarrow> 's option) \<Rightarrow> 's \<Rightarrow> 's option" where
  "whileM b c s =
     Option.bind (b s) (\<lambda>t. if t then Option.bind (c s) (\<lambda>s'. whileM b c s') else Some s)"

section \<open>Rules\<close>

lemma wp_None [wp_simps]: "wp None Q = False"
  by (simp add: wp_def)

lemma wp_Some [wp_simps]: "wp (Some x) Q = Q x"
  by (simp add: wp_def)

lemma wp_bind [wp_simps]: "wp (Option.bind m f) Q = wp m (\<lambda>x. wp (f x) Q)"
  by (cases m) (auto simp: wp_def)

lemma wp_rd [wp_simps]: "wp (rd xs i) Q \<longleftrightarrow> i < length xs \<and> Q (xs ! i)"
  by (simp add: wp_def rd_def)

lemma wp_wr [wp_simps]: "wp (wr xs i v) Q \<longleftrightarrow> i < length xs \<and> Q (xs[i := v])"
  by (simp add: wp_def wr_def)

lemma wp_guard [wp_simps]: "wp (guard b) Q \<longleftrightarrow> b \<and> Q ()"
  by (simp add: wp_def guard_def)

lemma wp_if [wp_simps]: "wp (if b then m else m') Q \<longleftrightarrow> (if b then wp m Q else wp m' Q)"
  by simp

lemma wp_case_prod [wp_simps]: "wp (case p of (a, b) \<Rightarrow> f a b) Q \<longleftrightarrow> (case p of (a, b) \<Rightarrow> wp (f a b) Q)"
  by (cases p) simp

lemma wp_mono: "wp m P \<Longrightarrow> (\<And>x. P x \<Longrightarrow> Q x) \<Longrightarrow> wp m Q"
  by (auto simp: wp_def)

lemma wp_conj: "wp m P \<Longrightarrow> wp m Q \<Longrightarrow> wp m (\<lambda>x. P x \<and> Q x)"
  by (auto simp: wp_def)

lemma wp_foldM_upt:
  assumes "lo \<le> hi" and "I lo s"
    and "\<And>i s. lo \<le> i \<Longrightarrow> i < hi \<Longrightarrow> I i s \<Longrightarrow> wp (f i s) (I (Suc i))"
  shows "wp (foldM f [lo..<hi] s) (I hi)"
  using assms
proof (induction "hi - lo" arbitrary: lo s)
  case 0
  then show ?case by (simp add: wp_simps)
next
  case (Suc n)
  from Suc.hyps(2) have lt: "lo < hi" by simp
  with Suc.prems have "wp (f lo s) (I (Suc lo))" by blast
  then obtain s' where s': "f lo s = Some s'" "I (Suc lo) s'" by (auto simp: wp_def)
  have "wp (foldM f [Suc lo..<hi] s') (I hi)"
    using Suc.hyps(2) lt s' Suc.prems(3) by (intro Suc.hyps(1)) auto
  with lt s' show ?case by (simp add: upt_conv_Cons)
qed

lemma wp_for_up:
  assumes "lo \<le> hi" and "I lo s"
    and "\<And>i s. lo \<le> i \<Longrightarrow> i < hi \<Longrightarrow> I i s \<Longrightarrow> wp (f i s) (I (Suc i))"
    and "\<And>s. I hi s \<Longrightarrow> Q s"
  shows "wp (for_up lo hi f s) Q"
  unfolding for_up_def by (rule wp_mono [OF wp_foldM_upt [where I = I, OF assms(1-3)]]) (auto intro: assms(4))

lemma wp_foldM:
  assumes "I xs s"
    and "\<And>y ys s. I (y # ys) s \<Longrightarrow> wp (f y s) (I ys)"
  shows "wp (foldM f xs s) (I [])"
  using assms(1)
proof (induction xs arbitrary: s)
  case Nil
  then show ?case by (simp add: wp_simps)
next
  case (Cons y ys)
  from assms(2) [OF Cons.prems] obtain s' where "f y s = Some s'" "I ys s'" by (auto simp: wp_def)
  with Cons.IH show ?case by simp
qed

lemma wp_for_down:
  assumes "lo \<le> hi" and "I hi s"
    and "\<And>i s. lo \<le> i \<Longrightarrow> i < hi \<Longrightarrow> I (Suc i) s \<Longrightarrow> wp (f i s) (I i)"
    and "\<And>s. I lo s \<Longrightarrow> Q s"
  shows "wp (for_down lo hi f s) Q"
proof -
  have "wp (foldM f (rev [lo..<hi]) s) (I lo)"
    using assms(1-3)
  proof (induction hi arbitrary: s)
    case 0
    then show ?case by (simp add: wp_simps)
  next
    case (Suc hi)
    show ?case
    proof (cases "lo = Suc hi")
      case True
      with Suc.prems show ?thesis by (simp add: wp_simps)
    next
      case False
      with Suc.prems have "lo \<le> hi" by simp
      with Suc.prems have "wp (f hi s) (I hi)" by simp
      then obtain s' where s': "f hi s = Some s'" "I hi s'" by (auto simp: wp_def)
      have "wp (foldM f (rev [lo..<hi]) s') (I lo)"
        using \<open>lo \<le> hi\<close> s' Suc.prems(3) by (intro Suc.IH) auto
      with \<open>lo \<le> hi\<close> s' show ?thesis by simp
    qed
  qed
  then show ?thesis
    unfolding for_down_def by (rule wp_mono) (rule assms(4))
qed

lemma wp_whileM:
  fixes m :: "'s \<Rightarrow> nat"
  assumes "I s"
    and "\<And>s. I s \<Longrightarrow> wp (b s) (\<lambda>t. if t then wp (c s) (\<lambda>s'. I s' \<and> m s' < m s) else Q s)"
  shows "wp (whileM b c s) Q"
  using assms(1)
proof (induction "m s" arbitrary: s rule: less_induct)
  case less
  from assms(2) [OF less.prems] obtain t where t: "b s = Some t"
    and body: "if t then wp (c s) (\<lambda>s'. I s' \<and> m s' < m s) else Q s" by (auto simp: wp_def)
  show ?case
  proof (cases t)
    case True
    with body obtain s' where s': "c s = Some s'" "I s'" "m s' < m s" by (auto simp: wp_def)
    with less.hyps have "wp (whileM b c s') Q" by blast
    with t True s' show ?thesis by (subst whileM.simps) simp
  next
    case False
    with t body show ?thesis by (subst whileM.simps) (simp add: wp_simps)
  qed
qed

text \<open>
  Walking an array from an index up to the first element that satisfies \<open>stop\<close>: the pattern
  \<^verbatim>\<open>for (x = *p; !stop(x); x = *++p)\<close> over terminated lists.
\<close>

definition scan_until :: "('a \<Rightarrow> bool) \<Rightarrow> 'a list \<Rightarrow> nat \<Rightarrow> ('a \<Rightarrow> 's \<Rightarrow> 's option) \<Rightarrow> 's \<Rightarrow> 's option" where
  "scan_until stop arr p0 f s0 = do {
     (p, s) \<leftarrow> whileM (\<lambda>(p, s). do { x \<leftarrow> rd arr p; Some (\<not> stop x) })
       (\<lambda>(p, s). do { x \<leftarrow> rd arr p; s' \<leftarrow> f x s; Some (Suc p, s') }) (p0, s0);
     Some s }"

text \<open>\<open>segment arr p xs\<close>: the array holds the elements \<open>xs\<close> from index \<open>p\<close> on.\<close>

definition segment :: "'a list \<Rightarrow> nat \<Rightarrow> 'a list \<Rightarrow> bool" where
  "segment arr p xs \<longleftrightarrow> p + length xs \<le> length arr \<and> (\<forall>i < length xs. arr ! (p + i) = xs ! i)"

text \<open>Writing behind a filled prefix of an array of \<open>cap\<close> elements (\<^verbatim>\<open>*end++ = x\<close>).\<close>

definition push :: "nat \<Rightarrow> 'a \<Rightarrow> 'a list \<Rightarrow> 'a list option" where
  "push cap x xs = (if length xs < cap then Some (xs @ [x]) else None)"

lemma wp_push [wp_simps]: "wp (push cap x xs) Q \<longleftrightarrow> length xs < cap \<and> Q (xs @ [x])"
  by (simp add: wp_def push_def)

lemma segment_Cons: "segment arr p (x # xs) \<longleftrightarrow> p < length arr \<and> arr ! p = x \<and> segment arr (Suc p) xs"
  by (auto simp: segment_def nth_Cons split: nat.splits)

lemma segment_Nil: "segment arr p [] \<longleftrightarrow> p \<le> length arr"
  by (simp add: segment_def)

text \<open>Unfolding a loop one step at a time, for concrete evaluations.\<close>

lemma whileM_True: "b s = Some True \<Longrightarrow> whileM b c s = Option.bind (c s) (whileM b c)"
  by (subst whileM.simps) simp

lemma whileM_False: "b s = Some False \<Longrightarrow> whileM b c s = Some s"
  by (subst whileM.simps) simp

lemmas whileM_eval = whileM_True whileM_False

lemma rd_Some: "i < length xs \<Longrightarrow> rd xs i = Some (xs ! i)"
  by (simp add: rd_def)

lemma scan_until_eq:
  assumes "segment arr p (xs @ [y])" "stop y" "\<forall>x \<in> set xs. \<not> stop x"
  shows "scan_until stop arr p f s = foldM f xs s"
  using assms
proof (induction xs arbitrary: p s)
  case Nil
  then show ?case by (simp add: scan_until_def segment_Cons whileM_False rd_Some)
next
  case (Cons x xs)
  then have IH: "scan_until stop arr (Suc p) f s' = foldM f xs s'" for s' by (simp add: segment_Cons)
  from Cons.prems have "rd arr p = Some x" "\<not> stop x" by (simp_all add: segment_Cons rd_Some)
  then show ?case
    by (cases "f x s") (simp_all add: IH [unfolded scan_until_def] scan_until_def whileM_True)
qed

lemma segment_update:
  "segment arr p xs \<Longrightarrow> q < p \<or> p + length xs \<le> q \<Longrightarrow> segment (arr[q := v]) p xs"
  by (auto simp: segment_def nth_list_update)

lemma segment_snoc:
  "segment arr p (xs @ [x]) \<longleftrightarrow> segment arr p xs \<and> p + length xs < length arr \<and> arr ! (p + length xs) = x"
  by (auto simp: segment_def nth_append less_Suc_eq)

lemma segment_snoc_update:
  "segment arr p xs \<Longrightarrow> k = p + length xs \<Longrightarrow> k < length arr \<Longrightarrow> segment (arr[k := x]) p (xs @ [x])"
  by (simp add: segment_snoc segment_update)

lemma sum_length_filter_le:
  "(\<Sum>a \<leftarrow> as. length (filter (\<lambda>x. f x = a) xs)) \<le> length xs" if "distinct as"
proof -
  have "(\<Sum>a \<leftarrow> as. length (filter (\<lambda>x. f x = a) xs)) = length (filter (\<lambda>x. f x \<in> set as) xs)"
    using that
  proof (induction as)
    case (Cons a as)
    have "length (filter (\<lambda>x. f x \<in> set (a # as)) xs) =
        length (filter (\<lambda>x. f x = a) xs) + length (filter (\<lambda>x. f x \<in> set as) xs)"
      using Cons.prems by (induction xs) auto
    with Cons show ?case by simp
  qed simp
  then show ?thesis by simp
qed

text \<open>How many entries of a table of flags are set.\<close>

definition flags :: "bool list \<Rightarrow> nat" where
  "flags bs = card {i. i < length bs \<and> bs ! i}"

lemma flags_le: "flags bs \<le> length bs"
  unfolding flags_def by (rule order_trans [OF card_mono [of "{..<length bs}"]]) auto

lemma flags_set: "l < length bs \<Longrightarrow> \<not> bs ! l \<Longrightarrow> flags (bs[l := True]) = Suc (flags bs)"
proof -
  assume l: "l < length bs" "\<not> bs ! l"
  then have "{i. i < length (bs[l := True]) \<and> bs[l := True] ! i} = insert l {i. i < length bs \<and> bs ! i}"
    by (auto simp: nth_list_update)
  with l show ?thesis by (simp add: flags_def)
qed

section \<open>Computations that may also stop with an error\<close>

text \<open>
  A computation of type \<open>('e + 'a) option\<close> faults (\<open>None\<close>), stops with a reported error (\<open>Some (Inl e)\<close>:
  an exit with a message, a raised exception) or returns (\<open>Some (Inr x)\<close>).
\<close>

definition bindE :: "('e + 'a) option \<Rightarrow> ('a \<Rightarrow> ('e + 'b) option) \<Rightarrow> ('e + 'b) option" where
  "bindE m f = Option.bind m (\<lambda>r. case r of Inl e \<Rightarrow> Some (Inl e) | Inr x \<Rightarrow> f x)"

definition liftE :: "'a option \<Rightarrow> ('e + 'a) option" where
  "liftE m = Option.bind m (\<lambda>x. Some (Inr x))"

definition throwE :: "'e \<Rightarrow> ('e + 'a) option" where
  "throwE e = Some (Inl e)"

definition returnE :: "'a \<Rightarrow> ('e + 'a) option" where
  "returnE x = Some (Inr x)"

primrec foldE :: "('a \<Rightarrow> 's \<Rightarrow> ('e + 's) option) \<Rightarrow> 'a list \<Rightarrow> 's \<Rightarrow> ('e + 's) option" where
  "foldE f [] s = returnE s"
| "foldE f (x # xs) s = bindE (f x s) (foldE f xs)"

partial_function (option) whileE :: "('s \<Rightarrow> bool) \<Rightarrow> ('s \<Rightarrow> ('e + 's) option) \<Rightarrow> 's \<Rightarrow> ('e + 's) option" where
  "whileE b c s = (if b s then Option.bind (c s) (\<lambda>r. case r of Inl e \<Rightarrow> Some (Inl e) | Inr s' \<Rightarrow> whileE b c s')
     else Some (Inr s))"

lemma bindE_liftE: "bindE (liftE (Some x)) f = f x"
  by (simp add: bindE_def liftE_def)

lemma bindE_throwE: "bindE (throwE e) f = throwE e"
  by (simp add: bindE_def throwE_def)

lemma bindE_returnE: "bindE (returnE x) f = f x"
  by (simp add: bindE_def returnE_def)

lemma bindE_Inl: "bindE (Some (Inl e)) f = Some (Inl e)"
  by (simp add: bindE_def)

lemma bindE_Inr: "bindE (Some (Inr x)) f = f x"
  by (simp add: bindE_def)

lemmas bindE_eval = bindE_liftE bindE_throwE bindE_returnE bindE_Inl bindE_Inr

lemma foldM_append: "foldM f (xs @ ys) s = Option.bind (foldM f xs s) (foldM f ys)"
  by (induction xs arbitrary: s) (auto simp: Option.bind_assoc cong: Option.bind_cong)

text \<open>Total correctness with a postcondition for a return and one for an error.\<close>

definition wpE :: "('e + 'a) option \<Rightarrow> ('a \<Rightarrow> bool) \<Rightarrow> ('e \<Rightarrow> bool) \<Rightarrow> bool" where
  "wpE m Q E \<longleftrightarrow> wp m (\<lambda>r. case r of Inl e \<Rightarrow> E e | Inr x \<Rightarrow> Q x)"

named_theorems wpE_simps

lemma wpE_bindE [wpE_simps]: "wpE (bindE m f) Q E \<longleftrightarrow> wpE m (\<lambda>x. wpE (f x) Q E) E"
  by (cases m) (auto simp: wpE_def bindE_def wp_simps split: sum.splits)

lemma wpE_liftE [wpE_simps]: "wpE (liftE m) Q E \<longleftrightarrow> wp m Q"
  by (cases m) (auto simp: wpE_def liftE_def wp_simps)

lemma wpE_throwE [wpE_simps]: "wpE (throwE e) Q E \<longleftrightarrow> E e"
  by (simp add: wpE_def throwE_def wp_simps)

lemma wpE_returnE [wpE_simps]: "wpE (returnE x) Q E \<longleftrightarrow> Q x"
  by (simp add: wpE_def returnE_def wp_simps)

lemma wpE_if [wpE_simps]: "wpE (if b then m else m') Q E \<longleftrightarrow> (if b then wpE m Q E else wpE m' Q E)"
  by simp

lemma wpE_case_prod [wpE_simps]: "wpE (case p of (a, b) \<Rightarrow> f a b) Q E \<longleftrightarrow> (case p of (a, b) \<Rightarrow> wpE (f a b) Q E)"
  by (cases p) simp

lemma wpE_mono: "wpE m P F \<Longrightarrow> (\<And>x. P x \<Longrightarrow> Q x) \<Longrightarrow> (\<And>e. F e \<Longrightarrow> E e) \<Longrightarrow> wpE m Q E"
  by (auto simp: wpE_def wp_def split: sum.splits)

lemma wpE_foldE:
  assumes "I xs s" and "\<And>y ys s. I (y # ys) s \<Longrightarrow> wpE (f y s) (I ys) E"
  shows "wpE (foldE f xs s) (I []) E"
  using assms(1)
proof (induction xs arbitrary: s)
  case Nil
  then show ?case by (simp add: wpE_simps)
next
  case (Cons y ys)
  show ?case
    unfolding foldE.simps wpE_bindE by (rule wpE_mono [OF assms(2) [OF Cons.prems]]) (auto intro: Cons.IH)
qed

lemma whileE_True: "b s \<Longrightarrow> whileE b c s = bindE (c s) (whileE b c)"
  by (subst whileE.simps) (simp add: bindE_def cong: sum.case_cong)

lemma whileE_False: "\<not> b s \<Longrightarrow> whileE b c s = returnE s"
  by (subst whileE.simps) (simp add: returnE_def)

lemma wpE_whileE:
  fixes m :: "'s \<Rightarrow> nat"
  assumes "I s"
    and "\<And>s. I s \<Longrightarrow> b s \<Longrightarrow> wpE (c s) (\<lambda>s'. I s' \<and> m s' < m s) E"
    and "\<And>s. I s \<Longrightarrow> \<not> b s \<Longrightarrow> Q s"
  shows "wpE (whileE b c s) Q E"
  using assms(1)
proof (induction "m s" arbitrary: s rule: less_induct)
  case less
  show ?case
  proof (cases "b s")
    case True
    show ?thesis
      unfolding whileE_True [where b = b, OF True] wpE_bindE by (rule wpE_mono [OF assms(2) [OF less.prems True]]) (auto intro: less.hyps)
  next
    case False
    then show ?thesis using assms(3) [OF less.prems] by (simp add: whileE_False wpE_simps)
  qed
qed

end
