(* ===== verification/Warshall.thy ===== *)
theory Warshall
  imports Prelude
begin

text \<open>
  Bit rows and Warshall's algorithm (\<^verbatim>\<open>src/yacc/defs.h\<close>, \<^verbatim>\<open>src/yacc/warshall.c\<close>).
  A relation on \<open>n\<close> elements is an array of 32-bit words, \<open>WORDSIZE n\<close> of them for each row;
  pointers into it are indices. \<open>mtx_rel\<close> reads the array back as a relation.
\<close>

unbundle bit_operations_syntax

section \<open>Bit rows (defs.h)\<close>

definition BITS_PER_INT :: nat where
  "BITS_PER_INT = 32"

definition WORDSIZE :: "nat \<Rightarrow> nat" where
  "WORDSIZE n = (n + (BITS_PER_INT - 1)) div BITS_PER_INT"

definition BIT :: "u32 list \<Rightarrow> nat \<Rightarrow> nat \<Rightarrow> u32 option" where
  "BIT R r n = do {
     w \<leftarrow> rd R (r + n div BITS_PER_INT);
     Some (drop_bit (n mod BITS_PER_INT) w AND 1) }"

definition SETBIT :: "u32 list \<Rightarrow> nat \<Rightarrow> nat \<Rightarrow> u32 list option" where
  "SETBIT R r n = do {
     w \<leftarrow> rd R (r + n div BITS_PER_INT);
     wr R (r + n div BITS_PER_INT) (w OR push_bit (n mod BITS_PER_INT) 1) }"

section \<open>The closure loops (warshall.c)\<close>

definition or_row :: "nat \<Rightarrow> u32 list \<times> nat \<times> nat \<Rightarrow> (u32 list \<times> nat \<times> nat) option" where
  "or_row rend = whileM (\<lambda>(R, rowj, rp). Some (rowj < rend))
     (\<lambda>(R, rowj, rp). do {
        x \<leftarrow> rd R rowj;
        y \<leftarrow> rd R rp;
        R' \<leftarrow> wr R rowj (x OR y);
        Some (R', rowj + 1, rp + 1) })"

definition next_mask :: "u32 \<times> nat \<Rightarrow> u32 \<times> nat" where
  "next_mask = (\<lambda>(msk, p). let m = push_bit 1 msk in if m = 0 then (1, p + 1) else (m, p))"

definition closure_column :: "nat \<Rightarrow> nat \<Rightarrow> u32 \<Rightarrow> nat \<Rightarrow> nat \<Rightarrow> u32 list \<Rightarrow> u32 list option" where
  "closure_column rowsize relend msk cword rowi R0 = do {
     (R, rowj, ccol) \<leftarrow> whileM (\<lambda>(R, rowj, ccol). Some (rowj < relend))
       (\<lambda>(R, rowj, ccol). do {
          c \<leftarrow> rd R ccol;
          (R', rowj') \<leftarrow>
            (if c AND msk \<noteq> 0 then do {
               (R', rowj', rp) \<leftarrow> or_row (rowj + rowsize) (R, rowj, rowi);
               Some (R', rowj') }
             else Some (R, rowj + rowsize));
          Some (R', rowj', ccol + rowsize) })
       (R0, 0, cword);
     Some R }"

definition transitive_closure :: "u32 list \<Rightarrow> nat \<Rightarrow> u32 list option" where
  "transitive_closure R0 n = do {
     let rowsize = WORDSIZE n;
     let relend = n * rowsize;
     (R, cword, msk, rowi) \<leftarrow> whileM (\<lambda>(R, cword, msk, rowi). Some (rowi < relend))
       (\<lambda>(R, cword, msk, rowi). do {
          R' \<leftarrow> closure_column rowsize relend msk cword rowi R;
          let (msk', cword') = next_mask (msk, cword);
          Some (R', cword', msk', rowi + rowsize) })
       (R0, 0, 1, 0);
     Some R }"

definition set_diagonal :: "nat \<Rightarrow> nat \<Rightarrow> u32 list \<Rightarrow> u32 list option" where
  "set_diagonal rowsize relend R0 = do {
     (R, msk, rp) \<leftarrow> whileM (\<lambda>(R, msk, rp). Some (rp < relend))
       (\<lambda>(R, msk, rp). do {
          w \<leftarrow> rd R rp;
          R' \<leftarrow> wr R rp (w OR msk);
          let (msk', rp') = next_mask (msk, rp);
          Some (R', msk', rp' + rowsize) })
       (R0, 1, 0);
     Some R }"

definition reflexive_transitive_closure :: "u32 list \<Rightarrow> nat \<Rightarrow> u32 list option" where
  "reflexive_transitive_closure R0 n = do {
     R1 \<leftarrow> transitive_closure R0 n;
     let rowsize = WORDSIZE n;
     set_diagonal rowsize (n * rowsize) R1 }"

section \<open>Reading the array as a relation\<close>

definition rowbit :: "u32 list \<Rightarrow> nat \<Rightarrow> nat \<Rightarrow> bool" where
  "rowbit R r j = bit (R ! (r + j div 32)) (j mod 32)"

definition mtx_rel :: "u32 list \<Rightarrow> nat \<Rightarrow> (nat \<times> nat) set" where
  "mtx_rel R n = {(i, j). i < n \<and> j < n \<and> rowbit R (i * WORDSIZE n) j}"

lemma WORDSIZE_bounds: "n \<le> 32 * WORDSIZE n" "0 < n \<Longrightarrow> 0 < WORDSIZE n"
  by (simp_all add: WORDSIZE_def BITS_PER_INT_def)

lemma div32_WORDSIZE: "j < n \<Longrightarrow> j div 32 < WORDSIZE n"
  by (simp add: WORDSIZE_def BITS_PER_INT_def)

lemma row_index_bound: "i < n \<Longrightarrow> c < w \<Longrightarrow> i * w + c < n * (w::nat)"
  by (metis add.commute add_less_cancel_left less_le_trans mult_Suc mult_le_mono1 Suc_leI)

lemma bit_single: "bit ((2::u32) ^ k) m \<longleftrightarrow> k = m \<and> m < 32"
  by (auto simp: bit_simps)

lemma and_single: "k < 32 \<Longrightarrow> (w AND (2::u32) ^ k \<noteq> 0) = bit w k"
  by (auto simp: bit_eq_iff [where ?'a = u32] bit_simps)

lemma next_mask_step:
  "next_mask (2 ^ (k mod 32), p) = (2 ^ (Suc k mod 32), if Suc k mod 32 = 0 then p + 1 else p)"
proof (cases "k mod 32 = 31")
  case True
  then have "Suc k mod 32 = 0" by (simp add: mod_Suc)
  with True show ?thesis by (simp add: next_mask_def Let_def)
next
  case False
  then have s: "Suc k mod 32 = Suc (k mod 32)" by (simp add: mod_Suc)
  have "Suc (k mod 32) < 32" using False mod_less_divisor [of 32 k] by linarith
  then have "bit ((2::u32) ^ Suc (k mod 32)) (Suc (k mod 32))"
    unfolding bit_single by simp
  then have "(2::u32) ^ Suc (k mod 32) \<noteq> 0" by (metis bit_0_eq bot_apply bot_bool_def)
  with s show ?thesis by (simp add: next_mask_def Let_def push_bit_eq_mult mult.commute)
qed

lemma mask_shift:
  "push_bit 1 ((2::u32) ^ (k mod 32)) = 0 \<longleftrightarrow> Suc k mod 32 = 0"
  "Suc k mod 32 \<noteq> 0 \<Longrightarrow> push_bit 1 ((2::u32) ^ (k mod 32)) = 2 ^ (Suc k mod 32)"
  using next_mask_step [of k 0] by (auto simp: next_mask_def Let_def split: if_splits)

section \<open>Correctness of the loops\<close>

lemma or_row_ok:
  assumes "rowj + k \<le> length R" "rp + k \<le> length R"
    and "rowj = rp \<or> rowj + k \<le> rp \<or> rp + k \<le> rowj"
  shows "wp (or_row (rowj + k) (R, rowj, rp)) (\<lambda>(R', rowj', rp').
     rowj' = rowj + k \<and> length R' = length R \<and>
     (\<forall>c. R' ! c = (if rowj \<le> c \<and> c < rowj + k then R ! c OR R ! (rp + (c - rowj)) else R ! c)))"
proof -
  let ?I = "\<lambda>(R', j, p). \<exists>d \<le> k. j = rowj + d \<and> p = rp + d \<and> length R' = length R \<and>
     (\<forall>c. R' ! c = (if rowj \<le> c \<and> c < rowj + d then R ! c OR R ! (rp + (c - rowj)) else R ! c))"
  show ?thesis
    unfolding or_row_def
  proof (rule wp_whileM [where I = ?I and m = "\<lambda>(R', j, p). rowj + k - j"], goal_cases)
    case 1
    show ?case by (auto intro!: exI [of _ 0])
  next
    case (2 s)
    obtain R' j p where s: "s = (R', j, p)" by (cases s)
    with 2 obtain d where d: "d \<le> k" "j = rowj + d" "p = rp + d" "length R' = length R"
      and R': "\<And>c. R' ! c = (if rowj \<le> c \<and> c < rowj + d then R ! c OR R ! (rp + (c - rowj)) else R ! c)"
      by auto
    have src: "R' ! p = R ! p \<or> R' ! p = R ! p OR R ! (rp + (p - rowj))" using R' by auto
    have p: "d < k \<Longrightarrow> R' ! p = R ! p" using R' [of p] d assms(3) by auto
    show ?case
    proof (cases "d < k")
      case True
      have "R'[rowj + d := R' ! (rowj + d) OR R' ! (rp + d)] ! c =
          (if rowj \<le> c \<and> c < rowj + Suc d then R ! c OR R ! (rp + (c - rowj)) else R ! c)" for c
        using True d assms(1) p R' [of "rowj + d"] R' [of c] by (auto simp: nth_list_update)
      with True d assms(1,2) show ?thesis
        by (simp add: s wp_simps)
    next
      case False
      with d R' show ?thesis by (simp add: s wp_simps)
    qed
  qed
qed


text \<open>Rows of a matrix of \<open>n\<close> rows of \<open>w\<close> words; \<open>or_row\<close> on two of them.\<close>

lemma row_end_bound: "i < n \<Longrightarrow> i * w + w \<le> n * (w::nat)"
  by (metis Suc_leI add.commute mult_Suc mult_le_mono1)

lemma row_index_neq:
  assumes "i \<noteq> j" "c < w" shows "\<not> (j * w \<le> i * w + c \<and> i * w + c < j * w + (w::nat))"
proof (cases "i < j")
  case True
  then show ?thesis using row_index_bound [OF True assms(2)] by simp
next
  case False
  with assms have "j < i" by simp
  then show ?thesis using row_end_bound [of j i w] by linarith
qed

lemma or_row_matrix:
  assumes "j < n" "k < n" "length R = n * w"
  shows "wp (or_row (j * w + w) (R, j * w, k * w)) (\<lambda>(R', rowj', rp'). rowj' = j * w + w \<and>
     length R' = n * w \<and>
     (\<forall>i < n. \<forall>c < w. R' ! (i * w + c) =
        (if i = j then R ! (i * w + c) OR R ! (k * w + c) else R ! (i * w + c))))"
proof -
  have "j * w = k * w \<or> j * w + w \<le> k * w \<or> k * w + w \<le> j * w"
    by (metis linorder_neqE_nat row_end_bound)
  then have "wp (or_row (j * w + w) (R, j * w, k * w)) (\<lambda>(R', rowj', rp').
     rowj' = j * w + w \<and> length R' = length R \<and>
     (\<forall>c. R' ! c = (if j * w \<le> c \<and> c < j * w + w then R ! c OR R ! (k * w + (c - j * w)) else R ! c)))"
    using assms by (intro or_row_ok) (simp_all add: row_end_bound)
  then show ?thesis
    by (rule wp_mono) (use assms in \<open>auto dest: row_index_neq\<close>)
qed

text \<open>One round of the outer loop: every row that has column \<open>k\<close> absorbs row \<open>k\<close>.\<close>

definition absorb :: "u32 list \<Rightarrow> nat \<Rightarrow> nat \<Rightarrow> nat \<Rightarrow> nat \<Rightarrow> u32" where
  "absorb R w k i c =
     (if rowbit R (i * w) k then R ! (i * w + c) OR R ! (k * w + c) else R ! (i * w + c))"

lemma closure_column_ok:
  assumes k: "k < n" and w: "0 < w" and len: "length R = n * w" and col: "k div 32 < w"
  shows "wp (closure_column w (n * w) (2 ^ (k mod 32)) (k div 32) (k * w) R) (\<lambda>R'.
     length R' = n * w \<and> (\<forall>i < n. \<forall>c < w. R' ! (i * w + c) = absorb R w k i c))"
  unfolding closure_column_def
proof (simp only: wp_simps, rule wp_whileM [where m = "\<lambda>(R', j, p). n * w - j" and
    I = "\<lambda>(R', rowj, ccol). \<exists>j \<le> n. rowj = j * w \<and> ccol = j * w + k div 32 \<and> length R' = n * w \<and>
     (\<forall>i < n. \<forall>c < w. R' ! (i * w + c) = (if i < j then absorb R w k i c else R ! (i * w + c)))"],
    goal_cases)
  case 1
  show ?case using len by (auto intro!: exI [of _ 0])
next
  case (2 s)
  obtain R' rowj ccol where s: "s = (R', rowj, ccol)" by (cases s)
  with 2 obtain j where j: "j \<le> n" "rowj = j * w" "ccol = j * w + k div 32" "length R' = n * w"
    and R': "\<And>i c. i < n \<Longrightarrow> c < w \<Longrightarrow> R' ! (i * w + c) = (if i < j then absorb R w k i c else R ! (i * w + c))"
    by auto
  show ?case
  proof (cases "j < n")
    case False
    with j R' show ?thesis by (auto simp: s wp_simps)
  next
    case True
    have colbit: "(R' ! (j * w + k div 32) AND 2 ^ (k mod 32) \<noteq> 0) = rowbit R (j * w) k"
      using R' [OF True col] by (simp add: and_single rowbit_def)
    have krow: "c < w \<Longrightarrow> R' ! (k * w + c) = R ! (k * w + c)" for c
      using R' [OF k] by (auto simp: absorb_def)
    note or = or_row_matrix [OF True k j(4)]
    have m: "n * w - (j * w + w) < n * w - j * w" "j * w < n * w" "j * w + k div 32 < n * w"
      using row_end_bound [OF True, of w] row_index_bound [OF True col] w by linarith+
    have skip: "R' ! (i * w + c) = (if i < Suc j then absorb R w k i c else R ! (i * w + c))"
      if "i < n" "c < w" "\<not> rowbit R (j * w) k" for i c
      using R' [OF that(1,2)] that(3) by (auto simp: less_Suc_eq absorb_def)
    have take: "(if i = j then R' ! (i * w + c) OR R' ! (k * w + c) else R' ! (i * w + c)) =
        (if i < Suc j then absorb R w k i c else R ! (i * w + c))"
      if "i < n" "c < w" "rowbit R (j * w) k" for i c
      using R' [OF that(1,2)] that(3) krow [OF that(2)] by (auto simp: less_Suc_eq absorb_def)
    show ?thesis
    proof (cases "rowbit R (j * w) k")
      case True
      with m j take show ?thesis
        by (auto simp: s wp_simps colbit Suc_leI intro!: exI [of _ "Suc j"] wp_mono [OF or])
    next
      case False
      with m j skip True show ?thesis
        by (auto simp: s wp_simps colbit intro!: exI [of _ "Suc j"])
    qed
  qed
qed

lemma absorb_rel:
  assumes "k < n" and R': "\<forall>i < n. \<forall>c < WORDSIZE n. R' ! (i * WORDSIZE n + c) = absorb R (WORDSIZE n) k i c"
  shows "mtx_rel R' n = mtx_rel R n \<union> {(i, j). (i, k) \<in> mtx_rel R n \<and> (k, j) \<in> mtx_rel R n}"
proof -
  have "rowbit R' (i * WORDSIZE n) j \<longleftrightarrow> rowbit R (i * WORDSIZE n) j \<or>
      rowbit R (i * WORDSIZE n) k \<and> rowbit R (k * WORDSIZE n) j" if "i < n" "j < n" for i j
    using R' that div32_WORDSIZE [of j n] by (simp add: rowbit_def absorb_def bit_or_iff)
  then show ?thesis using assms(1) by (auto simp: mtx_rel_def)
qed

text \<open>
  The invariant of Warshall's algorithm: the relation lies between the given one and its
  transitive closure, and it is closed under paths through the elements already treated.
\<close>

definition warshall_inv :: "(nat \<times> nat) set \<Rightarrow> nat \<Rightarrow> (nat \<times> nat) set \<Rightarrow> bool" where
  "warshall_inv r k T \<longleftrightarrow> r \<subseteq> T \<and> T \<subseteq> r\<^sup>+ \<and>
     (\<forall>m < k. \<forall>i j. (i, m) \<in> T \<longrightarrow> (m, j) \<in> T \<longrightarrow> (i, j) \<in> T)"

lemma warshall_inv_init: "warshall_inv r 0 r"
  by (simp add: warshall_inv_def subset_iff r_into_trancl')

lemma warshall_inv_step:
  assumes "warshall_inv r k T"
  shows "warshall_inv r (Suc k) (T \<union> {(i, j). (i, k) \<in> T \<and> (k, j) \<in> T})"
proof -
  have sub: "T \<subseteq> r\<^sup>+" and cl: "\<And>m i j. m < k \<Longrightarrow> (i, m) \<in> T \<Longrightarrow> (m, j) \<in> T \<Longrightarrow> (i, j) \<in> T"
    using assms by (auto simp: warshall_inv_def)
  have "T \<union> {(i, j). (i, k) \<in> T \<and> (k, j) \<in> T} \<subseteq> r\<^sup>+"
    using sub by (simp add: subset_iff) (metis trancl_trans)
  moreover have "(i, j) \<in> T \<union> {(i, j). (i, k) \<in> T \<and> (k, j) \<in> T}"
    if "m < Suc k" "(i, m) \<in> T \<union> {(i, j). (i, k) \<in> T \<and> (k, j) \<in> T}"
      "(m, j) \<in> T \<union> {(i, j). (i, k) \<in> T \<and> (k, j) \<in> T}" for m i j
    using that cl [of m] by (cases "m = k") (auto simp: less_Suc_eq)
  moreover have "r \<subseteq> T" using assms by (simp add: warshall_inv_def)
  ultimately show ?thesis
    unfolding warshall_inv_def by (meson le_supI1)
qed

lemma warshall_inv_final:
  assumes "warshall_inv r n T" "r \<subseteq> {..<n} \<times> {..<n}"
  shows "T = r\<^sup>+"
proof
  show "T \<subseteq> r\<^sup>+" using assms(1) by (simp add: warshall_inv_def)
  show "r\<^sup>+ \<subseteq> T"
  proof (rule subrelI)
    fix x y
    assume "(x, y) \<in> r\<^sup>+"
    then show "(x, y) \<in> T"
    proof (induction rule: trancl_induct)
      case (base y)
      then show ?case using assms(1) unfolding warshall_inv_def by blast
    next
      case (step y z)
      then have "y < n" "(y, z) \<in> T" using assms unfolding warshall_inv_def by blast+
      with step.IH show ?case using assms(1) unfolding warshall_inv_def by blast
    qed
  qed
qed

lemma transitive_closure_ok:
  assumes len: "length R = n * WORDSIZE n"
  shows "wp (transitive_closure R n) (\<lambda>R'. length R' = n * WORDSIZE n \<and> mtx_rel R' n = (mtx_rel R n)\<^sup>+)"
proof (cases "n = 0")
  case True
  then show ?thesis
    using len by (subst transitive_closure_def) (simp add: wp_simps whileM_False mtx_rel_def)
next
  case False
  let ?w = "WORDSIZE n"
  from False have w: "0 < ?w" by (simp add: WORDSIZE_bounds)
  show ?thesis
    unfolding transitive_closure_def Let_def
  proof (simp only: wp_simps, rule wp_whileM [where m = "\<lambda>(R', c, m, i). n * ?w - i" and
      I = "\<lambda>(R', cword, msk, rowi). \<exists>k \<le> n. rowi = k * ?w \<and> cword = k div 32 \<and> msk = 2 ^ (k mod 32) \<and>
        length R' = n * ?w \<and> warshall_inv (mtx_rel R n) k (mtx_rel R' n)"], goal_cases)
    case 1
    show ?case using len by (simp add: exI [of _ 0] warshall_inv_init)
  next
    case (2 s)
    then obtain R' k where s: "s = (R', k div 32, 2 ^ (k mod 32), k * ?w)" "k \<le> n" "length R' = n * ?w"
      and inv: "warshall_inv (mtx_rel R n) k (mtx_rel R' n)" by auto
    show ?case
    proof (cases "k < n")
      case False
      then have "k = n" using s by simp
      with inv have "mtx_rel R' n = (mtx_rel R n)\<^sup>+"
        by (auto intro!: warshall_inv_final simp: mtx_rel_def)
      with \<open>k = n\<close> s show ?thesis by (simp add: wp_simps)
    next
      case True
      have m: "n * ?w - (k * ?w + ?w) < n * ?w - k * ?w" "k * ?w < n * ?w"
        using row_end_bound [OF True, of ?w] w by linarith+
      have cw: "(if Suc k mod 32 = 0 then k div 32 + 1 else k div 32) = Suc k div 32"
        by (simp add: div_Suc mod_Suc)
      note col = closure_column_ok [OF True w s(3) div32_WORDSIZE [OF True]]
      have step: "warshall_inv (mtx_rel R n) (Suc k) (mtx_rel R2 n)"
        if "\<forall>i < n. \<forall>c < ?w. R2 ! (i * ?w + c) = absorb R' ?w k i c" for R2
        using warshall_inv_step [OF inv] absorb_rel [OF True that] by simp
      have nxt: "\<exists>k' \<le> n. k * ?w + ?w = k' * ?w \<and> Suc k div 32 = k' div 32 \<and> (2::u32) ^ (Suc k mod 32) = 2 ^ (k' mod 32) \<and>
          length R2 = n * ?w \<and> warshall_inv (mtx_rel R n) k' (mtx_rel R2 n)"
        if "length R2 = n * ?w" "\<forall>i < n. \<forall>c < ?w. R2 ! (i * ?w + c) = absorb R' ?w k i c" for R2
        using True that step [OF that(2)] by (intro exI [of _ "Suc k"]) simp
      show ?thesis
        unfolding s(1) using m True
        by (simp add: wp_simps next_mask_step cw) (rule wp_mono [OF col], use nxt in blast)
    qed
  qed
qed

lemma set_diagonal_rel:
  assumes "\<forall>i < n. \<forall>c < WORDSIZE n. R' ! (i * WORDSIZE n + c) =
    R ! (i * WORDSIZE n + c) OR (if c = i div 32 then 2 ^ (i mod 32) else 0)"
  shows "mtx_rel R' n = mtx_rel R n \<union> Id_on {..<n}"
proof -
  have "rowbit R' (i * WORDSIZE n) j \<longleftrightarrow> rowbit R (i * WORDSIZE n) j \<or> i = j" if ij: "i < n" "j < n" for i j
  proof -
    have "(j div 32 = i div 32 \<and> i mod 32 = j mod 32) = (i = j)"
      by (metis mult_div_mod_eq)
    then show ?thesis
      using assms ij div32_WORDSIZE [of j n] by (auto simp: rowbit_def bit_or_iff bit_single)
  qed
  then show ?thesis by (auto simp: mtx_rel_def)
qed

lemma set_diagonal_ok:
  assumes len: "length R = n * WORDSIZE n"
  shows "wp (set_diagonal (WORDSIZE n) (n * WORDSIZE n) R) (\<lambda>R'. length R' = n * WORDSIZE n \<and>
     (\<forall>i < n. \<forall>c < WORDSIZE n. R' ! (i * WORDSIZE n + c) =
        R ! (i * WORDSIZE n + c) OR (if c = i div 32 then 2 ^ (i mod 32) else 0)))"
  (is "wp _ (\<lambda>R'. _ \<and> (\<forall>i < n. \<forall>c < ?w. _))")
  unfolding set_diagonal_def
proof (simp only: wp_simps, rule wp_whileM [where m = "\<lambda>(R', m, p). n * ?w - p" and
    I = "\<lambda>(R', msk, rp). \<exists>k \<le> n. rp = k * ?w + k div 32 \<and> msk = 2 ^ (k mod 32) \<and> length R' = n * ?w \<and>
      (\<forall>i < n. \<forall>c < ?w. R' ! (i * ?w + c) =
         R ! (i * ?w + c) OR (if i < k \<and> c = i div 32 then 2 ^ (i mod 32) else 0))"], goal_cases)
  case 1
  show ?case using len by (auto intro!: exI [of _ 0])
next
  case (2 s)
  then obtain R' k where s: "s = (R', 2 ^ (k mod 32), k * ?w + k div 32)" "k \<le> n" "length R' = n * ?w"
    and R': "\<And>i c. i < n \<Longrightarrow> c < ?w \<Longrightarrow> R' ! (i * ?w + c) =
         R ! (i * ?w + c) OR (if i < k \<and> c = i div 32 then 2 ^ (i mod 32) else 0)" by auto
  show ?case
  proof (cases "k < n")
    case False
    then have "k = n" using s by simp
    then show ?thesis using s R' by (simp add: wp_simps)
  next
    case True
    have w: "k div 32 < ?w" by (rule div32_WORDSIZE [OF True])
    have kin: "k * ?w + k div 32 < n * ?w" using True w by (rule row_index_bound)
    have rp: "(if Suc k mod 32 = 0 then k * ?w + k div 32 + 1 else k * ?w + k div 32) + ?w =
        Suc k * ?w + Suc k div 32" by (simp add: div_Suc mod_Suc)
    have m: "n * ?w - (Suc k * ?w + Suc k div 32) < n * ?w - (k * ?w + k div 32)"
      using kin w div_le_mono [of k "Suc k" 32] by simp
    have same: "i * ?w + c = k * ?w + k div 32 \<longleftrightarrow> i = k \<and> c = k div 32" if "c < ?w" for i c
      using row_index_neq [of i k c ?w] that w by (cases "i = k") auto
    have "R'[k * ?w + k div 32 := R' ! (k * ?w + k div 32) OR 2 ^ (k mod 32)] ! (i * ?w + c) =
        R ! (i * ?w + c) OR (if i < Suc k \<and> c = i div 32 then 2 ^ (i mod 32) else 0)"
      if "i < n" "c < ?w" for i c
      using that s(3) kin same [of c i] R' [OF that] by (auto simp: nth_list_update less_Suc_eq)
    with kin s True m show ?thesis
      by (auto simp: wp_simps next_mask_step rp intro!: exI [of _ "Suc k"])
  qed
qed

lemma set_diagonal_rel_ok:
  assumes "length R = n * WORDSIZE n"
  shows "wp (set_diagonal (WORDSIZE n) (n * WORDSIZE n) R)
    (\<lambda>R'. length R' = n * WORDSIZE n \<and> mtx_rel R' n = mtx_rel R n \<union> Id_on {..<n})"
  by (rule wp_mono [OF set_diagonal_ok [OF assms]]) (simp add: set_diagonal_rel)

lemma mtx_rel_closure:
  "(mtx_rel R n)\<^sup>+ \<union> Id_on {..<n} = {(i, j). i < n \<and> j < n \<and> (i, j) \<in> (mtx_rel R n)\<^sup>*}"
proof -
  have "(mtx_rel R n)\<^sup>+ \<subseteq> {..<n} \<times> {..<n}"
    by (rule trancl_subset_Sigma) (auto simp: mtx_rel_def)
  then show ?thesis by (auto simp: rtrancl_eq_or_trancl subset_iff)
qed

lemma reflexive_transitive_closure_ok:
  assumes "length R = n * WORDSIZE n"
  shows "wp (reflexive_transitive_closure R n) (\<lambda>R'. length R' = n * WORDSIZE n \<and>
    mtx_rel R' n = {(i, j). i < n \<and> j < n \<and> (i, j) \<in> (mtx_rel R n)\<^sup>*})"
  unfolding reflexive_transitive_closure_def Let_def mtx_rel_closure [symmetric]
  by (simp only: wp_simps, rule wp_mono [OF transitive_closure_ok [OF assms]])
    (auto dest: set_diagonal_rel_ok)

section \<open>Setting and reading single bits\<close>

lemma row_bit_index:
  assumes "j < 32 * w" "j' < 32 * (w::nat)"
  shows "i' * w + j' div 32 = i * w + j div 32 \<and> j' mod 32 = j mod 32 \<longleftrightarrow> i' = i \<and> j' = j"
proof
  assume eq: "i' * w + j' div 32 = i * w + j div 32 \<and> j' mod 32 = j mod 32"
  have "j div 32 < w" "j' div 32 < w" using assms by auto
  with eq have "i' = i" using row_index_neq [of i' i "j' div 32" w] by force
  with eq show "i' = i \<and> j' = j" by (metis add_left_cancel mult_div_mod_eq)
qed simp

lemma SETBIT_ok:
  assumes "i < rows" "n < 32 * w" "length R = rows * w"
  shows "wp (SETBIT R (i * w) n) (\<lambda>R'. length R' = length R \<and>
     (\<forall>i' j'. j' < 32 * w \<longrightarrow> rowbit R' (i' * w) j' = (rowbit R (i' * w) j' \<or> i' = i \<and> j' = n)))"
proof -
  have "n div 32 < w" using assms(2) by auto
  then have in_range: "i * w + n div 32 < rows * w" by (rule row_index_bound [OF assms(1)])
  have "rowbit (R[i * w + n div 32 := R ! (i * w + n div 32) OR 2 ^ (n mod 32)]) (i' * w) j' =
      (rowbit R (i' * w) j' \<or> i' = i \<and> j' = n)" if "j' < 32 * w" for i' j'
    using row_bit_index [OF assms(2) that, of i' i] in_range assms(3)
    by (auto simp: rowbit_def nth_list_update bit_or_iff bit_single)
  with in_range assms(3) show ?thesis
    by (simp add: SETBIT_def BITS_PER_INT_def wp_simps push_bit_eq_mult)
qed

lemma BIT_ok:
  assumes "i < rows" "n < 32 * w" "length R = rows * w"
  shows "BIT R (i * w) n = Some (if rowbit R (i * w) n then 1 else 0)"
proof -
  have "n div 32 < w" using assms(2) by auto
  then have "i * w + n div 32 < rows * w" by (rule row_index_bound [OF assms(1)])
  moreover have "drop_bit k x AND 1 = (if bit x k then 1 else 0)" for k and x :: u32
    by (simp add: bit_iff_odd_drop_bit and_one_eq odd_iff_mod_2_eq_one)
  ultimately show ?thesis using assms(3)
    by (simp add: BIT_def BITS_PER_INT_def rd_def rowbit_def)
qed

lemma foldM_SETBIT:
  assumes f: "\<And>x E. x \<in> set xs \<Longrightarrow> f x E = (if P x then SETBIT E (i * w) (g x) else Some E)"
    and g: "\<And>x. x \<in> set xs \<Longrightarrow> P x \<Longrightarrow> g x < 32 * w"
    and i: "i < rows" "length E = rows * w"
  shows "wp (foldM f xs E) (\<lambda>E'. length E' = length E \<and>
     (\<forall>i' j'. j' < 32 * w \<longrightarrow> rowbit E' (i' * w) j' =
        (rowbit E (i' * w) j' \<or> i' = i \<and> (\<exists>x \<in> set xs. P x \<and> g x = j'))))"
  using f g i(2)
proof (induction xs arbitrary: E)
  case Nil
  then show ?case by (simp add: wp_simps)
next
  case (Cons x xs)
  show ?case
  proof (cases "P x")
    case True
    then have fx: "f x E = SETBIT E (i * w) (g x)" and gx: "g x < 32 * w" using Cons.prems by simp_all
    have "wp (f x E) (\<lambda>R'. length R' = length E \<and>
     (\<forall>i' j'. j' < 32 * w \<longrightarrow> rowbit R' (i' * w) j' = (rowbit E (i' * w) j' \<or> i' = i \<and> j' = g x)))"
      unfolding fx by (rule SETBIT_ok [OF i(1) gx Cons.prems(3)])
    then show ?thesis
      unfolding foldM.simps wp_bind
      by (rule wp_mono) (rule wp_mono [OF Cons.IH], use Cons.prems True in auto)
  next
    case False
    then have "f x E = Some E" using Cons.prems by simp
    then show ?thesis using False
      by (simp add: wp_simps) (rule wp_mono [OF Cons.IH], use Cons.prems in auto)
  qed
qed

lemma rowbit_zero: "r + j div 32 < n \<Longrightarrow> \<not> rowbit (replicate n 0) r j"
  by (simp add: rowbit_def)

section \<open>Properties\<close>

text \<open>
  C8. \<open>reflexive_transitive_closure\<close> on a bit matrix of \<open>n\<close> rows of \<open>WORDSIZE n\<close> words ends, reads and
  writes inside the matrix only, and leaves in it exactly the reflexive and transitive closure of
  the relation it was given.
\<close>

theorem reflexive_transitive_closure_correct:
  assumes "length R = n * WORDSIZE n"
  shows "\<exists>R'. reflexive_transitive_closure R n = Some R' \<and> length R' = length R \<and>
    mtx_rel R' n = {(i, j). i < n \<and> j < n \<and> (i, j) \<in> (mtx_rel R n)\<^sup>*}"
  using reflexive_transitive_closure_ok [OF assms] assms by (auto simp: wp_def)

theorem reflexive_transitive_closure_correct_witness:
  "length [2, 4, 0 :: u32] = 3 * WORDSIZE 3 \<and>
   (\<exists>R'. reflexive_transitive_closure [2, 4, 0] 3 = Some R' \<and> length R' = 3 \<and> (0, 2) \<in> mtx_rel R' 3 \<and>
      (2, 0) \<notin> mtx_rel R' 3)"
proof -
  have len: "length [2, 4, 0 :: u32] = 3 * WORDSIZE 3" by (simp add: WORDSIZE_def BITS_PER_INT_def)
  have rel: "mtx_rel [2, 4, 0] 3 = {(0, 1), (1, 2)}"
    by (auto simp: mtx_rel_def rowbit_def WORDSIZE_def BITS_PER_INT_def less_Suc_eq numeral_3_eq_3 bit_simps)
  have "(0::nat, 2) \<in> {(0, 1), (1, 2)}\<^sup>*" by (meson insertI1 insertI2 r_into_rtrancl rtrancl_trans)
  moreover have "(2::nat, 0) \<notin> {(0, 1), (1, 2)}\<^sup>*" by (auto elim: converse_rtranclE)
  ultimately show ?thesis
    using reflexive_transitive_closure_correct [OF len] len unfolding rel by auto
qed

end
