(* ===== verification/Grammar.thy ===== *)
theory Grammar
  imports Warshall
begin

text \<open>
  The packed grammar that \<^verbatim>\<open>src/yacc/reader.c\<close> leaves to the later passes, and the two tables
  \<^verbatim>\<open>src/yacc/lr0.c\<close> computes from it first: the rules of each nonterminal (\<open>set_derives\<close>) and the
  nullable symbols (\<open>set_nullable\<close>).

  Symbols are numbers: tokens below \<open>start_symbol\<close>, nonterminals from it on. \<open>ritem\<close> holds the right
  sides of all rules one after the other, rule \<open>r\<close> from \<open>rrhs ! r\<close> on, closed by \<open>- r\<close>. Rules 0 and 1
  are empty places, rule 2 is \<^verbatim>\<open>$accept : goal $end\<close>.
\<close>

section \<open>The grammar\<close>

record grammar =
  nitems :: nat
  nrules :: nat
  nsyms :: nat
  ntokens :: nat
  nvars :: nat
  start_symbol :: nat
  ritem :: "int list"
  rlhs :: "nat list"
  rrhs :: "nat list"

definition ISVAR :: "grammar \<Rightarrow> int \<Rightarrow> bool" where
  "ISVAR G s \<longleftrightarrow> int (start_symbol G) \<le> s"

definition ISTOKEN :: "grammar \<Rightarrow> int \<Rightarrow> bool" where
  "ISTOKEN G s \<longleftrightarrow> s < int (start_symbol G)"

definition rhs_len :: "grammar \<Rightarrow> nat \<Rightarrow> nat" where
  "rhs_len G r = rrhs G ! Suc r - rrhs G ! r - 1"

definition rhs :: "grammar \<Rightarrow> nat \<Rightarrow> nat list" where
  "rhs G r = map nat (take (rhs_len G r) (drop (rrhs G ! r) (ritem G)))"

text \<open>What the reader guarantees of its tables; the bounds are those of a C \<^verbatim>\<open>short\<close>.\<close>

definition wf_rule :: "grammar \<Rightarrow> nat \<Rightarrow> bool" where
  "wf_rule G r \<longleftrightarrow> rrhs G ! r < rrhs G ! Suc r \<and> rrhs G ! Suc r \<le> nitems G \<and>
     ritem G ! (rrhs G ! Suc r - 1) = - int r \<and>
     (\<forall>k. rrhs G ! r \<le> k \<and> Suc k < rrhs G ! Suc r \<longrightarrow> 0 \<le> ritem G ! k \<and> ritem G ! k < int (nsyms G)) \<and>
     start_symbol G \<le> rlhs G ! r \<and> rlhs G ! r < nsyms G"

definition wf_grammar :: "grammar \<Rightarrow> bool" where
  "wf_grammar G \<longleftrightarrow> nsyms G = ntokens G + nvars G \<and> start_symbol G = ntokens G \<and> 0 < ntokens G \<and>
     0 < nvars G \<and> 2 < nrules G \<and> nrules G \<le> 32767 \<and> nitems G \<le> 32767 \<and> nsyms G \<le> 32767 \<and>
     length (ritem G) = nitems G \<and> length (rlhs G) = nrules G \<and> length (rrhs G) = Suc (nrules G) \<and>
     rlhs G ! 0 = 0 \<and> rlhs G ! 1 = 0 \<and> rrhs G ! 2 = 1 \<and> rrhs G ! nrules G = nitems G \<and>
     ritem G ! 0 = - 1 \<and> (\<forall>r. 2 \<le> r \<and> r < nrules G \<longrightarrow> wf_rule G r)"

definition rules_of :: "grammar \<Rightarrow> nat \<Rightarrow> nat list" where
  "rules_of G A = filter (\<lambda>r. rlhs G ! r = A) [0..<nrules G]"

section \<open>set\_derives (lr0.c)\<close>

definition set_derives :: "grammar \<Rightarrow> (nat option list \<times> int list) option" where
  "set_derives G = do {
     (derives, rules, k) \<leftarrow> for_up (start_symbol G) (nsyms G)
       (\<lambda>lhs (derives, rules, k). do {
          derives \<leftarrow> wr derives lhs (Some k);
          (rules, k) \<leftarrow> for_up 0 (nrules G)
            (\<lambda>i (rules, k). do {
               l \<leftarrow> rd (rlhs G) i;
               if l = lhs then do { rules \<leftarrow> wr rules k (int i); Some (rules, k + 1) }
               else Some (rules, k) })
            (rules, k);
          rules \<leftarrow> wr rules k (- 1);
          Some (derives, rules, k + 1) })
       (replicate (nsyms G) None, replicate (nvars G + nrules G) 0, 0);
     Some (derives, rules) }"

section \<open>set\_nullable (lr0.c)\<close>

definition nullable_rhs :: "grammar \<Rightarrow> bool list \<Rightarrow> nat \<Rightarrow> (nat \<times> bool) option" where
  "nullable_rhs G nullable i0 =
     whileM (\<lambda>(i, empty). do { j \<leftarrow> rd (ritem G) i; Some (0 \<le> j) })
       (\<lambda>(i, empty). do {
          j \<leftarrow> rd (ritem G) i;
          n \<leftarrow> rd nullable (nat j);
          Some (i + 1, if \<not> n then False else empty) })
       (i0, True)"

definition nullable_pass :: "grammar \<Rightarrow> bool list \<Rightarrow> (bool list \<times> bool) option" where
  "nullable_pass G nullable0 = do {
     (nullable, finished, i) \<leftarrow> whileM (\<lambda>(nullable, finished, i). Some (i < nitems G))
       (\<lambda>(nullable, finished, i). do {
          (i, empty) \<leftarrow> nullable_rhs G nullable i;
          (nullable, finished) \<leftarrow>
            (if empty then do {
               j \<leftarrow> rd (ritem G) i;
               l \<leftarrow> rd (rlhs G) (nat (- j));
               n \<leftarrow> rd nullable l;
               if \<not> n then do { nullable \<leftarrow> wr nullable l True; Some (nullable, False) }
               else Some (nullable, finished) }
             else Some (nullable, finished));
          Some (nullable, finished, i + 1) })
       (nullable0, True, 1);
     Some (nullable, finished) }"

definition set_nullable :: "grammar \<Rightarrow> bool list option" where
  "set_nullable G = do {
     (nullable, finished) \<leftarrow> whileM (\<lambda>(nullable, finished). Some (\<not> finished))
       (\<lambda>(nullable, finished). nullable_pass G nullable)
       (replicate (nsyms G) False, False);
     Some nullable }"

section \<open>The layout of the tables\<close>

lemma wf_grammarD:
  assumes "wf_grammar G"
  shows "nsyms G = ntokens G + nvars G" "start_symbol G = ntokens G" "0 < ntokens G" "0 < nvars G"
    "2 < nrules G" "length (ritem G) = nitems G" "length (rlhs G) = nrules G"
    "length (rrhs G) = Suc (nrules G)" "rrhs G ! 2 = 1" "rrhs G ! nrules G = nitems G"
    "rlhs G ! 0 = 0" "rlhs G ! 1 = 0" "nrules G \<le> 32767" "nitems G \<le> 32767" "nsyms G \<le> 32767"
    "2 \<le> r \<Longrightarrow> r < nrules G \<Longrightarrow> wf_rule G r" "ritem G ! 0 = - 1"
  using assms by (auto simp: wf_grammar_def)

lemma rrhs_mono:
  assumes "wf_grammar G" "2 \<le> r" "r < s" "s \<le> nrules G"
  shows "rrhs G ! r < rrhs G ! s"
  using assms(3,4)
proof (induction s)
  case (Suc s)
  then have "rrhs G ! s < rrhs G ! Suc s"
    using assms wf_grammarD(16) [OF assms(1), of s] by (simp add: wf_rule_def)
  with Suc show ?case by (cases "r = s") auto
qed simp

lemma rhs_nth:
  assumes "wf_grammar G" "2 \<le> r" "r < nrules G"
  shows "length (rhs G r) = rhs_len G r"
    "i < rhs_len G r \<Longrightarrow> ritem G ! (rrhs G ! r + i) = int (rhs G r ! i)"
    "i < rhs_len G r \<Longrightarrow> rhs G r ! i < nsyms G"
    "ritem G ! (rrhs G ! r + rhs_len G r) = - int r"
    "rrhs G ! r + rhs_len G r < nitems G"
    "rrhs G ! Suc r = Suc (rrhs G ! r + rhs_len G r)"
proof -
  from wf_grammarD(16) [OF assms] have wf: "wf_rule G r" .
  show len: "length (rhs G r) = rhs_len G r" "rrhs G ! r + rhs_len G r < nitems G"
    "rrhs G ! Suc r = Suc (rrhs G ! r + rhs_len G r)"
    using wf wf_grammarD(6) [OF assms(1)] by (auto simp: rhs_def rhs_len_def wf_rule_def)
  have k: "0 \<le> ritem G ! (rrhs G ! r + i) \<and> ritem G ! (rrhs G ! r + i) < int (nsyms G)" if "i < rhs_len G r"
    using wf that len by (auto simp: wf_rule_def)
  then show "i < rhs_len G r \<Longrightarrow> ritem G ! (rrhs G ! r + i) = int (rhs G r ! i)"
    "i < rhs_len G r \<Longrightarrow> rhs G r ! i < nsyms G"
    using len wf_grammarD(6) [OF assms(1)] by (auto simp: rhs_def)
  show "ritem G ! (rrhs G ! r + rhs_len G r) = - int r"
    using wf len by (simp add: wf_rule_def)
qed

lemma rlhs_var: "wf_grammar G \<Longrightarrow> 2 \<le> r \<Longrightarrow> r < nrules G \<Longrightarrow> start_symbol G \<le> rlhs G ! r \<and> rlhs G ! r < nsyms G"
  using wf_grammarD(16) by (auto simp: wf_rule_def)

lemma rules_of_var:
  assumes "wf_grammar G" "start_symbol G \<le> A" "r \<in> set (rules_of G A)"
  shows "2 \<le> r" "r < nrules G" "rlhs G ! r = A"
proof -
  show "r < nrules G" "rlhs G ! r = A" using assms(3) by (auto simp: rules_of_def)
  show "2 \<le> r"
  proof (rule ccontr)
    assume "\<not> 2 \<le> r"
    then have "r = 0 \<or> r = 1" by arith
    then show False using assms wf_grammarD(2,3,11,12) [OF assms(1)] by (auto simp: rules_of_def)
  qed
qed

lemma rules_of_iff:
  assumes "wf_grammar G" "start_symbol G \<le> A"
  shows "r \<in> set (rules_of G A) \<longleftrightarrow> 2 \<le> r \<and> r < nrules G \<and> rlhs G ! r = A"
proof
  assume "r \<in> set (rules_of G A)"
  then show "2 \<le> r \<and> r < nrules G \<and> rlhs G ! r = A" using rules_of_var [OF assms] by blast
qed (simp add: rules_of_def)

section \<open>The rules of a nonterminal\<close>

definition derives_ok :: "grammar \<Rightarrow> nat option list \<times> int list \<Rightarrow> bool" where
  "derives_ok G = (\<lambda>(derives, rules). length derives = nsyms G \<and>
     (\<forall>A. start_symbol G \<le> A \<and> A < nsyms G \<longrightarrow>
        (\<exists>p. derives ! A = Some p \<and> segment rules p (map int (rules_of G A) @ [- 1]))))"

definition derives_pos :: "grammar \<Rightarrow> nat \<Rightarrow> nat" where
  "derives_pos G A = (\<Sum>B \<leftarrow> [start_symbol G..<A]. Suc (length (rules_of G B)))"

lemma derives_pos_Suc:
  "start_symbol G \<le> A \<Longrightarrow> derives_pos G (Suc A) = derives_pos G A + Suc (length (rules_of G A))"
  by (simp add: derives_pos_def)

lemma derives_pos_mono: "A \<le> B \<Longrightarrow> start_symbol G \<le> A \<Longrightarrow> derives_pos G A \<le> derives_pos G B"
  by (induction rule: dec_induct) (auto simp: derives_pos_Suc)

lemma derives_pos_bound: "wf_grammar G \<Longrightarrow> derives_pos G (nsyms G) \<le> nvars G + nrules G"
proof -
  assume wf: "wf_grammar G"
  have "(\<Sum>B \<leftarrow> [start_symbol G..<nsyms G]. Suc (length (rules_of G B))) =
      (\<Sum>B \<leftarrow> [start_symbol G..<nsyms G]. length (rules_of G B)) + length [start_symbol G..<nsyms G]"
    by (simp add: sum_list_Suc)
  moreover have "(\<Sum>B \<leftarrow> [start_symbol G..<nsyms G]. length (rules_of G B)) \<le> nrules G"
    unfolding rules_of_def using sum_length_filter_le [of "[start_symbol G..<nsyms G]" "\<lambda>r. rlhs G ! r" "[0..<nrules G]"]
    by simp
  ultimately show ?thesis using wf_grammarD(1,2) [OF wf] by (simp add: derives_pos_def)
qed

lemma derives_row_ok:
  assumes wf: "wf_grammar G" and k: "k + length (rules_of G A) < length rules"
  shows "wp (for_up 0 (nrules G) (\<lambda>i (rules, k). do {
               l \<leftarrow> rd (rlhs G) i;
               if l = A then do { rules \<leftarrow> wr rules k (int i); Some (rules, k + 1) }
               else Some (rules, k) }) (rules, k))
    (\<lambda>(rules', k'). k' = k + length (rules_of G A) \<and> length rules' = length rules \<and>
       (\<forall>i < k. rules' ! i = rules ! i) \<and> segment rules' k (map int (rules_of G A)))"
proof (rule wp_for_up [where I = "\<lambda>i (rules', k'). k' = k + length (filter (\<lambda>r. rlhs G ! r = A) [0..<i]) \<and>
    length rules' = length rules \<and> (\<forall>i < k. rules' ! i = rules ! i) \<and>
    segment rules' k (map int (filter (\<lambda>r. rlhs G ! r = A) [0..<i]))"], goal_cases)
  case 2
  then show ?case using k by (simp add: segment_Nil)
next
  case (3 i s)
  have "length (filter (\<lambda>r. rlhs G ! r = A) [0..<Suc i]) \<le> length (rules_of G A)" 
  proof -
    have "[0..<nrules G] = [0..<Suc i] @ [Suc i..<nrules G]" using 3 using upt_add_eq_append [of 0 "Suc i" "nrules G - Suc i"] by simp
    then show ?thesis by (simp add: rules_of_def del: upt_Suc)
  qed
  with 3 k show ?case
    using wf_grammarD(7) [OF wf] by (auto simp: wp_simps segment_snoc_update split: prod.splits)
qed (auto simp: rules_of_def)

lemma set_derives_ok:
  assumes wf: "wf_grammar G"
  shows "wp (set_derives G) (derives_ok G)"
  unfolding set_derives_def
proof (simp only: wp_simps, rule wp_for_up [where I = "\<lambda>A (derives, rules, k). k = derives_pos G A \<and>
    length derives = nsyms G \<and> length rules = nvars G + nrules G \<and>
    (\<forall>B. start_symbol G \<le> B \<and> B < A \<longrightarrow> derives ! B = Some (derives_pos G B) \<and>
       segment rules (derives_pos G B) (map int (rules_of G B) @ [- 1]))"], goal_cases)
  case 1
  then show ?case using wf_grammarD(1,2) [OF wf] by simp
next
  case 2
  then show ?case by (simp add: derives_pos_def)
next
  case (3 A s)
  then obtain derives rules where s: "s = (derives, rules, derives_pos G A)"
    "length derives = nsyms G" "length rules = nvars G + nrules G" by auto
  have pos: "derives_pos G A + Suc (length (rules_of G A)) \<le> nvars G + nrules G"
    using derives_pos_bound [OF wf] derives_pos_mono [of "Suc A" "nsyms G" G] 3 by (simp add: derives_pos_Suc)
  let ?k = "derives_pos G A + length (rules_of G A)"
  have new: "\<forall>B. start_symbol G \<le> B \<and> B < Suc A \<longrightarrow> derives[A := Some (derives_pos G A)] ! B = Some (derives_pos G B) \<and>
       segment (rules'[?k := - 1]) (derives_pos G B) (map int (rules_of G B) @ [- 1])"
    if r: "length rules' = length rules" "\<forall>i < derives_pos G A. rules' ! i = rules ! i"
      "segment rules' (derives_pos G A) (map int (rules_of G A))" for rules'
  proof (intro allI impI)
    fix B
    assume B: "start_symbol G \<le> B \<and> B < Suc A"
    show "derives[A := Some (derives_pos G A)] ! B = Some (derives_pos G B) \<and>
       segment (rules'[?k := - 1]) (derives_pos G B) (map int (rules_of G B) @ [- 1])"
    proof (cases "B = A")
      case True
      with r pos s 3 show ?thesis by (simp add: segment_snoc_update)
    next
      case False
      with B have "segment rules (derives_pos G B) (map int (rules_of G B) @ [- 1])"
        "derives_pos G B + Suc (length (rules_of G B)) \<le> derives_pos G A" "derives ! B = Some (derives_pos G B)"
        using 3 s derives_pos_mono [of "Suc B" A G] by (auto simp: derives_pos_Suc)
      with r False show ?thesis by (auto simp: segment_def nth_list_update)
    qed
  qed
  have "?k < length rules" using s pos by simp
  note row = derives_row_ok [OF wf this]
  show ?case
    using 3(2) pos s(2,3) unfolding s(1)
    by (simp add: wp_simps, intro wp_mono [OF row]) (use new 3(1) in \<open>auto simp: derives_pos_Suc\<close>)
next
  case (4 s)
  then show ?case by (auto simp: derives_ok_def wp_simps)
qed

section \<open>Nullable symbols\<close>

text \<open>The specification: a nonterminal is nullable when all symbols of one of its right sides are.\<close>

inductive nullable_sym :: "grammar \<Rightarrow> nat \<Rightarrow> bool" for G where
  nullable_rule: "2 \<le> r \<Longrightarrow> r < nrules G \<Longrightarrow> (\<And>X. X \<in> set (rhs G r) \<Longrightarrow> nullable_sym G X) \<Longrightarrow>
     nullable_sym G (rlhs G ! r)"

lemma nullable_rhs_ok:
  assumes wf: "wf_grammar G" "2 \<le> r" "r < nrules G" and len: "length nullable = nsyms G"
  shows "nullable_rhs G nullable (rrhs G ! r) =
    Some (rrhs G ! r + rhs_len G r, \<forall>X \<in> set (rhs G r). nullable ! X)"
proof -
  note rhs = rhs_nth [OF wf]
  have "wp (nullable_rhs G nullable (rrhs G ! r)) (\<lambda>s. s =
    (rrhs G ! r + rhs_len G r, \<forall>k < rhs_len G r. nullable ! (rhs G r ! k)))"
    unfolding nullable_rhs_def
  proof (rule wp_whileM [where m = "\<lambda>(i, e). nitems G - i" and
      I = "\<lambda>(i, e). \<exists>d \<le> rhs_len G r. i = rrhs G ! r + d \<and> e = (\<forall>k < d. nullable ! (rhs G r ! k))"], goal_cases)
    case 1
    then show ?case by (auto intro!: exI [of _ 0])
  next
    case (2 s)
    then obtain d where d: "d \<le> rhs_len G r" "s = (rrhs G ! r + d, \<forall>k < d. nullable ! (rhs G r ! k))" by auto
    show ?case
    proof (cases "d = rhs_len G r")
      case True
      with d rhs show ?thesis using wf wf_grammarD(6) [OF wf(1)] by (auto simp: wp_simps)
    next
      case False
      then have lt: "d < rhs_len G r" using d by simp
      with d rhs(2,3) [OF lt] rhs(5) len wf_grammarD(6) [OF wf(1)] show ?thesis
        by (auto simp: wp_simps less_Suc_eq)
    qed
  qed
  then show ?thesis by (simp add: wp_def all_set_conv_all_nth rhs)
qed

text \<open>
  The state of a pass that has treated the rules below \<open>r\<close>: only nullable symbols are marked, and
  the flag says whether the pass has marked a new one.
\<close>

definition pass_inv :: "grammar \<Rightarrow> bool list \<Rightarrow> nat \<Rightarrow> bool list \<Rightarrow> bool \<Rightarrow> bool" where
  "pass_inv G n0 r n finished \<longleftrightarrow> length n = nsyms G \<and> (\<forall>X < nsyms G. n ! X \<longrightarrow> nullable_sym G X) \<and>
     (finished \<longrightarrow> n = n0 \<and> (\<forall>r'. 2 \<le> r' \<and> r' < r \<longrightarrow> (\<forall>X \<in> set (rhs G r'). n ! X) \<longrightarrow> n ! (rlhs G ! r'))) \<and>
     (if finished then flags n = flags n0 else flags n0 < flags n)"

lemma pass_inv_keep:
  assumes "pass_inv G n0 r n f" "(\<forall>X \<in> set (rhs G r). n ! X) \<longrightarrow> n ! (rlhs G ! r)"
  shows "pass_inv G n0 (Suc r) n f"
  using assms by (auto simp: pass_inv_def less_Suc_eq)

lemma pass_inv_mark:
  assumes inv: "pass_inv G n0 r n f" and wf: "wf_grammar G" "2 \<le> r" "r < nrules G"
    and all: "\<forall>X \<in> set (rhs G r). n ! X" and new: "\<not> n ! (rlhs G ! r)"
  shows "pass_inv G n0 (Suc r) (n[rlhs G ! r := True]) False"
proof -
  have l: "rlhs G ! r < length n" using inv rlhs_var [OF wf] by (simp add: pass_inv_def)
  have "\<And>X. X \<in> set (rhs G r) \<Longrightarrow> X < nsyms G"
    using rhs_nth(1,3) [OF wf] by (auto simp: in_set_conv_nth)
  then have "nullable_sym G (rlhs G ! r)"
    using wf inv all by (intro nullable_rule) (auto simp: pass_inv_def)
  with inv l new show ?thesis
    by (auto simp: pass_inv_def flags_set nth_list_update split: if_splits)
qed

lemma nullable_pass_ok:
  assumes wf: "wf_grammar G" and len: "length n0 = nsyms G"
    and sound: "\<forall>X < nsyms G. n0 ! X \<longrightarrow> nullable_sym G X"
  shows "wp (nullable_pass G n0) (\<lambda>(n, finished). pass_inv G n0 (nrules G) n finished)"
  unfolding nullable_pass_def
proof (simp only: wp_simps, rule wp_whileM [where m = "\<lambda>(n, f, i). nitems G - i" and
    I = "\<lambda>(n, f, i). \<exists>r \<ge> 2. r \<le> nrules G \<and> i = rrhs G ! r \<and> pass_inv G n0 r n f"], goal_cases)
  case 1
  have "pass_inv G n0 2 n0 True" using len sound by (auto simp: pass_inv_def)
  then show ?case using wf_grammarD(5,9) [OF wf] by (auto intro!: exI [of _ 2])
next
  case (2 s)
  then obtain n f r where r: "2 \<le> r" "r \<le> nrules G" "s = (n, f, rrhs G ! r)" "pass_inv G n0 r n f" by auto
  show ?case
  proof (cases "r = nrules G")
    case True
    with r wf_grammarD(10) [OF wf] show ?thesis by (auto simp: wp_simps)
  next
    case False
    then have rw: "2 \<le> r" "r < nrules G" using r by auto
    have n: "length n = nsyms G" using r(4) by (simp add: pass_inv_def)
    note rhs = rhs_nth [OF wf rw]
    have i: "rrhs G ! r < nitems G" "rrhs G ! r + rhs_len G r < nitems G"
      "nitems G - Suc (rrhs G ! r + rhs_len G r) < nitems G - rrhs G ! r"
      using rhs(5) by auto
    have nxt: "\<exists>r'\<ge>2. r' \<le> nrules G \<and> Suc (rrhs G ! r + rhs_len G r) = rrhs G ! r' \<and> pass_inv G n0 r' n' f'"
      if "pass_inv G n0 (Suc r) n' f'" for n' f'
      using that rhs(6) rw by (intro exI [of _ "Suc r"]) simp
    show ?thesis
      using i rw rhs(4) n rlhs_var [OF wf rw] wf_grammarD(6,7) [OF wf]
        pass_inv_keep [OF r(4)] pass_inv_mark [OF r(4) wf rw]
      by (auto simp: r(3) wp_simps nullable_rhs_ok [OF wf rw n] intro!: nxt)
  qed
qed

lemma set_nullable_ok:
  assumes wf: "wf_grammar G"
  shows "wp (set_nullable G) (\<lambda>n. length n = nsyms G \<and> (\<forall>X < nsyms G. n ! X = nullable_sym G X))"
  unfolding set_nullable_def
proof (simp only: wp_simps, rule wp_whileM [where m = "\<lambda>(n, f). if f then 0 else Suc (nsyms G - flags n)" and
    I = "\<lambda>(n, f). length n = nsyms G \<and> (\<forall>X < nsyms G. n ! X \<longrightarrow> nullable_sym G X) \<and>
      (f \<longrightarrow> pass_inv G n (nrules G) n True)"], goal_cases)
  case 1
  then show ?case by simp
next
  case (2 s)
  then obtain n f where s: "s = (n, f)" and n: "length n = nsyms G" "\<forall>X < nsyms G. n ! X \<longrightarrow> nullable_sym G X"
    and f: "f \<Longrightarrow> pass_inv G n (nrules G) n True" by auto
  show ?case
  proof (cases f)
    case True
    have "n ! X" if "nullable_sym G X" for X
      using that by induction (use f [OF True] in \<open>auto simp: pass_inv_def\<close>)
    with True n show ?thesis by (auto simp: s wp_simps)
  next
    case False
    have bound: "flags n' \<le> nsyms G" if "pass_inv G n (nrules G) n' f'" for n' f'
      using that flags_le [of n'] by (simp add: pass_inv_def)
    show ?thesis
      using False bound unfolding s
      by (simp add: wp_simps) (rule wp_mono [OF nullable_pass_ok [OF wf n]],
        fastforce simp: pass_inv_def split: if_splits)
  qed
qed

section \<open>Properties\<close>

text \<open>A grammar with the rules \<open>S' \<rightarrow> S $end\<close>, \<open>S \<rightarrow> T c\<close>, \<open>T \<rightarrow> d\<close> and \<open>T \<rightarrow> \<epsilon>\<close>.\<close>

definition sample_grammar :: grammar where
  "sample_grammar = \<lparr>nitems = 10, nrules = 6, nsyms = 7, ntokens = 4, nvars = 3, start_symbol = 4,
     ritem = [-1, 5, 0, -2, 6, 2, -3, 3, -4, -5], rlhs = [0, 0, 4, 5, 6, 6], rrhs = [0, 0, 1, 4, 7, 9, 10]\<rparr>"

lemma wf_grammar_code:
  "(\<forall>k. a \<le> k \<and> Suc k < b \<longrightarrow> P k) \<longleftrightarrow> list_all P [a..<b - 1]"
  "(\<forall>r. 2 \<le> r \<and> r < n \<longrightarrow> P r) \<longleftrightarrow> list_all P [2..<n]"
  by (auto simp: list_all_iff)

lemma sample_grammar_wf: "wf_grammar sample_grammar"
  unfolding wf_grammar_def wf_rule_def wf_grammar_code by (simp add: sample_grammar_def upt_rec)

text \<open>
  C11. \<open>set_derives\<close> on a well-formed grammar ends without an access outside its arrays, and leaves for
  every nonterminal a pointer to the list of exactly its rules in increasing order, closed by -1.
\<close>

theorem set_derives_correct:
  assumes "wf_grammar G"
  shows "\<exists>derives rules. set_derives G = Some (derives, rules) \<and> length derives = nsyms G \<and>
    (\<forall>A \<in> {start_symbol G..<nsyms G}. \<exists>p. derives ! A = Some p \<and>
       segment rules p (map int (filter (\<lambda>r. rlhs G ! r = A) [0..<nrules G]) @ [- 1]))"
  using set_derives_ok [OF assms] by (auto simp: wp_def derives_ok_def rules_of_def)

theorem set_derives_correct_witness:
  "wf_grammar sample_grammar \<and>
   (\<exists>derives rules p. set_derives sample_grammar = Some (derives, rules) \<and> derives ! 6 = Some p \<and>
      segment rules p [4, 5, - 1])"
proof -
  have six: "6 \<in> {start_symbol sample_grammar..<nsyms sample_grammar}" by (simp add: sample_grammar_def)
  have rules: "map int (filter (\<lambda>r. rlhs sample_grammar ! r = 6) [0..<nrules sample_grammar]) @ [- 1] = [4, 5, - 1]"
    by (simp add: sample_grammar_def upt_rec)
  show ?thesis
    using set_derives_correct [OF sample_grammar_wf] sample_grammar_wf six rules by metis
qed

text \<open>
  C10. \<open>set_nullable\<close> on a well-formed grammar ends without an access outside its arrays and marks
  exactly the symbols that derive the empty string.
\<close>

theorem set_nullable_correct:
  assumes "wf_grammar G"
  shows "\<exists>nullable. set_nullable G = Some nullable \<and> length nullable = nsyms G \<and>
    (\<forall>X \<in> {..<nsyms G}. nullable ! X \<longleftrightarrow> nullable_sym G X)"
  using set_nullable_ok [OF assms] by (auto simp: wp_def)

theorem set_nullable_correct_witness:
  "wf_grammar sample_grammar \<and> (\<exists>nullable. set_nullable sample_grammar = Some nullable \<and> nullable ! 6)"
proof -
  have "rhs sample_grammar 5 = []" by (simp add: rhs_def rhs_len_def sample_grammar_def)
  then have "nullable_sym sample_grammar (rlhs sample_grammar ! 5)"
    by (intro nullable_rule) (simp_all add: sample_grammar_def)
  then have "nullable_sym sample_grammar 6" "6 \<in> {..<nsyms sample_grammar}" by (simp_all add: sample_grammar_def)
  then show ?thesis using set_nullable_correct [OF sample_grammar_wf] sample_grammar_wf by blast
qed

end
