(* ===== verification/Closure.thy ===== *)
theory Closure
  imports Grammar
begin

text \<open>
  The closure of an LR(0) item set (\<^verbatim>\<open>src/yacc/closure.c\<close>): \<open>set_EFF\<close> computes which nonterminals a
  nonterminal can start with, \<open>set_first_derives\<close> turns that into the set of rules to add for each
  nonterminal, and \<open>closure\<close> merges these rules' items into a sorted kernel.

  \<open>set_first_derives\<close> reads one word behind \<open>EFF\<close> when the number of nonterminals is a multiple of 32;
  \<open>after\<close> is what memory holds there (the empty list when nothing may be read).
\<close>

unbundle bit_operations_syntax

section \<open>Definitions\<close>

definition EFF_row :: "grammar \<Rightarrow> nat option list \<Rightarrow> int list \<Rightarrow> nat \<Rightarrow> nat \<Rightarrow> u32 list \<Rightarrow> u32 list option" where
  "EFF_row G derives rules i row EFF = do {
     sp \<leftarrow> rd derives i;
     p \<leftarrow> sp;
     scan_until (\<lambda>rule. rule \<le> 0) rules p
       (\<lambda>rule EFF. do {
          q \<leftarrow> rd (rrhs G) (nat rule);
          symbol \<leftarrow> rd (ritem G) q;
          if ISVAR G symbol then SETBIT EFF row (nat symbol - start_symbol G) else Some EFF })
       EFF }"

definition set_EFF :: "grammar \<Rightarrow> nat option list \<Rightarrow> int list \<Rightarrow> u32 list option" where
  "set_EFF G derives rules = do {
     let rowsize = WORDSIZE (nvars G);
     (EFF, row) \<leftarrow> for_up (start_symbol G) (nsyms G)
       (\<lambda>i (EFF, row). do {
          EFF \<leftarrow> EFF_row G derives rules i row EFF;
          Some (EFF, row + rowsize) })
       (replicate (nvars G * rowsize) 0, 0);
     reflexive_transitive_closure EFF (nvars G) }"

definition first_derives_add ::
    "nat option list \<Rightarrow> int list \<Rightarrow> nat \<Rightarrow> nat \<Rightarrow> u32 \<Rightarrow> u32 \<Rightarrow> u32 list \<Rightarrow> u32 list option" where
  "first_derives_add derives rules rrow j cword msk first_derives =
     (if cword AND msk \<noteq> 0 then do {
        sp \<leftarrow> rd derives j;
        rp \<leftarrow> sp;
        scan_until (\<lambda>rule. rule < 0) rules rp
          (\<lambda>rule first_derives. SETBIT first_derives rrow (nat rule)) first_derives }
      else Some first_derives)"

definition first_derives_row ::
    "grammar \<Rightarrow> nat option list \<Rightarrow> int list \<Rightarrow> u32 list \<Rightarrow> nat \<Rightarrow> nat \<Rightarrow> u32 list \<Rightarrow> u32 list option" where
  "first_derives_row G derives rules EFF i rrow first_derives0 = do {
     let vrow = (i - ntokens G) * WORDSIZE (nvars G);
     cword \<leftarrow> rd EFF vrow;
     (first_derives, cword, msk, vrow) \<leftarrow> for_up (start_symbol G) (nsyms G)
       (\<lambda>j (first_derives, cword, msk, vrow). do {
          first_derives \<leftarrow> first_derives_add derives rules rrow j cword msk first_derives;
          let msk' = push_bit 1 msk;
          if msk' = 0 then do {
            cword \<leftarrow> rd EFF vrow;
            Some (first_derives, cword, 1, vrow + 1) }
          else Some (first_derives, cword, msk', vrow) })
       (first_derives0, cword, 1, vrow + 1);
     Some first_derives }"

definition set_first_derives ::
    "grammar \<Rightarrow> nat option list \<Rightarrow> int list \<Rightarrow> u32 list \<Rightarrow> u32 list option" where
  "set_first_derives G derives rules after = do {
     let rulesetsize = WORDSIZE (nrules G);
     EFF \<leftarrow> set_EFF G derives rules;
     (first_derives, rrow) \<leftarrow> for_up (start_symbol G) (nsyms G)
       (\<lambda>i (first_derives, rrow). do {
          first_derives \<leftarrow> first_derives_row G derives rules (EFF @ after) i rrow first_derives;
          Some (first_derives, rrow + rulesetsize) })
       (replicate (nvars G * rulesetsize) 0, 0);
     Some first_derives }"

definition or_rules :: "u32 list \<Rightarrow> nat \<Rightarrow> nat \<Rightarrow> u32 list \<Rightarrow> u32 list option" where
  "or_rules first_derives dsp0 rsend ruleset0 = do {
     (ruleset, rsp, dsp) \<leftarrow> whileM (\<lambda>(ruleset, rsp, dsp). Some (rsp < rsend))
       (\<lambda>(ruleset, rsp, dsp). do {
          x \<leftarrow> rd ruleset rsp;
          y \<leftarrow> rd first_derives dsp;
          ruleset \<leftarrow> wr ruleset rsp (x OR y);
          Some (ruleset, rsp + 1, dsp + 1) })
       (ruleset0, 0, dsp0);
     Some ruleset }"

definition closure_ruleset :: "grammar \<Rightarrow> u32 list \<Rightarrow> nat list \<Rightarrow> u32 list option" where
  "closure_ruleset G first_derives nucleus = do {
     let rulesetsize = WORDSIZE (nrules G);
     foldM (\<lambda>csp ruleset. do {
         symbol \<leftarrow> rd (ritem G) csp;
         if ISVAR G symbol
         then or_rules first_derives ((nat symbol - ntokens G) * rulesetsize) rulesetsize ruleset
         else Some ruleset })
       nucleus (replicate rulesetsize 0) }"

definition closure_item :: "grammar \<Rightarrow> nat list \<Rightarrow> nat \<Rightarrow> nat list \<times> nat \<Rightarrow> (nat list \<times> nat) option" where
  "closure_item G nucleus itemno s = do {
     (itemset, csp) \<leftarrow> whileM
       (\<lambda>(itemset, csp). if csp < length nucleus then do { c \<leftarrow> rd nucleus csp; Some (c < itemno) } else Some False)
       (\<lambda>(itemset, csp). do {
          c \<leftarrow> rd nucleus csp;
          itemset \<leftarrow> push (nitems G) c itemset;
          Some (itemset, csp + 1) }) s;
     itemset \<leftarrow> push (nitems G) itemno itemset;
     csp \<leftarrow> whileM
       (\<lambda>csp. if csp < length nucleus then do { c \<leftarrow> rd nucleus csp; Some (c = itemno) } else Some False)
       (\<lambda>csp. Some (csp + 1)) csp;
     Some (itemset, csp) }"

definition closure_word ::
    "grammar \<Rightarrow> nat list \<Rightarrow> u32 \<Rightarrow> nat list \<times> nat \<times> nat \<Rightarrow> (nat list \<times> nat \<times> nat) option" where
  "closure_word G nucleus word = (\<lambda>(itemset, csp, ruleno).
     if word = 0 then Some (itemset, csp, ruleno + BITS_PER_INT)
     else do {
       (msk, itemset, csp, ruleno) \<leftarrow> whileM (\<lambda>(msk, itemset, csp, ruleno). Some (msk \<noteq> 0))
         (\<lambda>(msk, itemset, csp, ruleno). do {
            (itemset, csp) \<leftarrow>
              (if word AND msk \<noteq> 0 then do {
                 itemno \<leftarrow> rd (rrhs G) ruleno;
                 closure_item G nucleus itemno (itemset, csp) }
               else Some (itemset, csp));
            Some (push_bit 1 msk, itemset, csp, ruleno + 1) })
         (1, itemset, csp, ruleno);
       Some (itemset, csp, ruleno) })"

definition closure_tail :: "grammar \<Rightarrow> nat list \<Rightarrow> nat list \<times> nat \<Rightarrow> nat list option" where
  "closure_tail G nucleus s = do {
     (itemset, csp) \<leftarrow> whileM (\<lambda>(itemset, csp). Some (csp < length nucleus))
       (\<lambda>(itemset, csp). do {
          c \<leftarrow> rd nucleus csp;
          itemset \<leftarrow> push (nitems G) c itemset;
          Some (itemset, csp + 1) }) s;
     Some itemset }"

definition closure :: "grammar \<Rightarrow> u32 list \<Rightarrow> nat list \<Rightarrow> nat list option" where
  "closure G first_derives nucleus = do {
     ruleset \<leftarrow> closure_ruleset G first_derives nucleus;
     (itemset, csp, ruleno) \<leftarrow> foldM (closure_word G nucleus) ruleset ([], 0, 0);
     closure_tail G nucleus (itemset, csp) }"

section \<open>What the tables hold\<close>

text \<open>\<open>A\<close> can start with \<open>B\<close>: a rule of \<open>A\<close> has the nonterminal \<open>B\<close> as its first symbol.\<close>

definition left_corner :: "grammar \<Rightarrow> (nat \<times> nat) set" where
  "left_corner G = {(A, B). start_symbol G \<le> B \<and>
     (\<exists>r. 2 \<le> r \<and> r < nrules G \<and> rlhs G ! r = A \<and> rhs G r \<noteq> [] \<and> hd (rhs G r) = B)}"

lemma left_corner_vars:
  assumes wf: "wf_grammar G"
  shows "left_corner G \<subseteq> {start_symbol G..<nsyms G} \<times> {start_symbol G..<nsyms G}"
proof -
  have "hd (rhs G r) < nsyms G" if "2 \<le> r" "r < nrules G" "rhs G r \<noteq> []" for r
    using rhs_nth(1,3) [OF wf that(1,2)] that(3) by (metis hd_conv_nth length_greater_0_conv)
  then show ?thesis using rlhs_var [OF wf] by (auto simp: left_corner_def)
qed

lemma first_symbol_var:
  assumes wf: "wf_grammar G" "2 \<le> r" "r < nrules G"
  shows "rrhs G ! r < nitems G"
    "ISVAR G (ritem G ! (rrhs G ! r)) \<longleftrightarrow> rhs G r \<noteq> [] \<and> start_symbol G \<le> hd (rhs G r)"
    "rhs G r \<noteq> [] \<Longrightarrow> nat (ritem G ! (rrhs G ! r)) = hd (rhs G r)"
proof -
  note rhs = rhs_nth [OF wf]
  show "rrhs G ! r < nitems G" using rhs(5) by simp
  have "rhs G r = [] \<Longrightarrow> ritem G ! (rrhs G ! r) = - int r" using rhs(1,4) by simp
  moreover have "rhs G r \<noteq> [] \<Longrightarrow> ritem G ! (rrhs G ! r) = int (hd (rhs G r))"
    using rhs(1) rhs(2) [of 0] by (cases "rhs G r") auto
  ultimately show "ISVAR G (ritem G ! (rrhs G ! r)) \<longleftrightarrow> rhs G r \<noteq> [] \<and> start_symbol G \<le> hd (rhs G r)"
    "rhs G r \<noteq> [] \<Longrightarrow> nat (ritem G ! (rrhs G ! r)) = hd (rhs G r)"
    using wf wf_grammarD(2,3) [OF wf(1)] by (cases "rhs G r = []"; simp add: ISVAR_def)+
qed

lemma derives_scan:
  assumes wf: "wf_grammar G" and d: "derives_ok G (derives, rules)"
    and A: "start_symbol G \<le> A" "A < nsyms G" and stop: "stop (- 1)" "\<And>r. 2 \<le> r \<Longrightarrow> \<not> stop r"
  shows "Option.bind (rd derives A) (\<lambda>sp. Option.bind sp (\<lambda>p. scan_until stop rules p f s)) =
    foldM f (map int (rules_of G A)) s"
proof -
  obtain p where p: "derives ! A = Some p" "segment rules p (map int (rules_of G A) @ [- 1])"
    and len: "length derives = nsyms G" using d A by (auto simp: derives_ok_def)
  have "\<forall>x \<in> set (map int (rules_of G A)). \<not> stop x"
    using rules_of_var(1) [OF wf A(1)] stop(2) by force
  then show ?thesis
    using p len A scan_until_eq [where stop = stop, OF p(2) stop(1)] by (simp add: rd_def)
qed

lemma left_corner_rules:
  assumes wf: "wf_grammar G" and A: "start_symbol G \<le> A"
  shows "(\<exists>x \<in> set (map int (rules_of G A)). (rhs G (nat x) \<noteq> [] \<and> start_symbol G \<le> hd (rhs G (nat x))) \<and>
      hd (rhs G (nat x)) - start_symbol G = j) \<longleftrightarrow> (A, j + start_symbol G) \<in> left_corner G"
    (is "?L \<longleftrightarrow> _")
proof -
  have "?L \<longleftrightarrow> (\<exists>r \<in> set (rules_of G A). rhs G r \<noteq> [] \<and> start_symbol G \<le> hd (rhs G r) \<and> hd (rhs G r) - start_symbol G = j)"
    by simp
  also have "\<dots> \<longleftrightarrow> (\<exists>r \<in> set (rules_of G A). rhs G r \<noteq> [] \<and> hd (rhs G r) = j + start_symbol G)"
    by (intro bex_cong refl) auto
  also have "\<dots> \<longleftrightarrow> (A, j + start_symbol G) \<in> left_corner G"
    unfolding left_corner_def rules_of_iff [OF wf A] Bex_def by auto
  finally show ?thesis .
qed

lemma EFF_row_ok:
  assumes wf: "wf_grammar G" and d: "derives_ok G (derives, rules)" and w: "w = WORDSIZE (nvars G)"
    and A: "start_symbol G \<le> A" "A < nsyms G" and len: "length E = nvars G * w"
  shows "wp (EFF_row G derives rules A ((A - start_symbol G) * w) E) (\<lambda>E'. length E' = nvars G * w \<and>
     (\<forall>i. \<forall>j < nvars G. rowbit E' (i * w) j =
       (rowbit E (i * w) j \<or> i = A - start_symbol G \<and> (A, j + start_symbol G) \<in> left_corner G)))"
proof -
  let ?f = "\<lambda>rule EFF. do {
               q \<leftarrow> rd (rrhs G) (nat rule);
               symbol \<leftarrow> rd (ritem G) q;
               if ISVAR G symbol then SETBIT EFF ((A - start_symbol G) * w) (nat symbol - start_symbol G) else Some EFF }"
  let ?P = "\<lambda>rule. rhs G (nat rule) \<noteq> [] \<and> start_symbol G \<le> hd (rhs G (nat rule))"
  let ?g = "\<lambda>rule. hd (rhs G (nat rule)) - start_symbol G"
  have rule: "2 \<le> nat x" "nat x < nrules G" "rlhs G ! nat x = A" if "x \<in> set (map int (rules_of G A))" for x
    using that rules_of_var [OF wf A(1)] by auto
  have f: "?f x E = (if ?P x then SETBIT E ((A - start_symbol G) * w) (?g x) else Some E)"
    if "x \<in> set (map int (rules_of G A))" for x E
    using first_symbol_var [OF wf rule(1,2) [OF that]] rule(2) [OF that] wf_grammarD(6,8) [OF wf]
    by (auto simp: rd_def)
  have Ai: "A - start_symbol G < nvars G" using A wf_grammarD(1,2) [OF wf] by simp
  have g: "?g x < nvars G" if "x \<in> set (map int (rules_of G A))" "?P x" for x
    using left_corner_vars [OF wf] rule [OF that(1)] that(2) wf_grammarD(1,2) [OF wf]
    by (auto simp: left_corner_def)
  have small: "j < nvars G \<Longrightarrow> j < 32 * w" for j using WORDSIZE_bounds(1) [of "nvars G"] w by simp
  have "wp (foldM ?f (map int (rules_of G A)) E) (\<lambda>E'. length E' = length E \<and>
     (\<forall>i' j'. j' < 32 * w \<longrightarrow> rowbit E' (i' * w) j' =
        (rowbit E (i' * w) j' \<or> i' = A - start_symbol G \<and> (\<exists>x \<in> set (map int (rules_of G A)). ?P x \<and> ?g x = j'))))"
    by (rule foldM_SETBIT [where P = ?P and g = ?g, OF f _ Ai len]) (use g small in auto)
  then show ?thesis
    unfolding EFF_row_def left_corner_rules [OF wf A(1)]
    by (subst derives_scan [OF wf d A]) (auto simp: small len elim!: wp_mono)
qed

lemma set_EFF_rows_ok:
  assumes wf: "wf_grammar G" and d: "derives_ok G (derives, rules)" and w: "w = WORDSIZE (nvars G)"
  shows "wp (for_up (start_symbol G) (nsyms G)
       (\<lambda>i (EFF, row). do {
          EFF \<leftarrow> EFF_row G derives rules i row EFF;
          Some (EFF, row + w) })
       (replicate (nvars G * w) 0, 0))
    (\<lambda>(EFF, row). length EFF = nvars G * w \<and>
       mtx_rel EFF (nvars G) = {(i, j). i < nvars G \<and> j < nvars G \<and>
         (i + start_symbol G, j + start_symbol G) \<in> left_corner G})"
proof (rule wp_for_up [where I = "\<lambda>A (EFF, row). row = (A - start_symbol G) * w \<and> length EFF = nvars G * w \<and>
    (\<forall>i < nvars G. \<forall>j < nvars G. rowbit EFF (i * w) j =
       (i + start_symbol G < A \<and> (i + start_symbol G, j + start_symbol G) \<in> left_corner G))"], goal_cases)
  case 1
  then show ?case using wf_grammarD(1,2) [OF wf] by simp
next
  case 2
  then show ?case
    by (auto simp: w intro!: rowbit_zero row_index_bound div32_WORDSIZE)
next
  case (3 A s)
  then obtain E where s: "s = (E, (A - start_symbol G) * w)" "length E = nvars G * w"
    and E: "\<forall>i < nvars G. \<forall>j < nvars G. rowbit E (i * w) j =
       (i + start_symbol G < A \<and> (i + start_symbol G, j + start_symbol G) \<in> left_corner G)" by auto
  note row = EFF_row_ok [OF wf d w 3(1,2) s(2)]
  have nxt: "(rowbit E (i * w) j \<or> i = A - start_symbol G \<and> (A, j + start_symbol G) \<in> left_corner G) \<longleftrightarrow>
      i + start_symbol G < Suc A \<and> (i + start_symbol G, j + start_symbol G) \<in> left_corner G"
    if "i < nvars G" "j < nvars G" for i j
    using E that 3(1) by (cases "i = A - start_symbol G") (auto simp: less_Suc_eq)
  have "Suc A - start_symbol G = Suc (A - start_symbol G)" using 3(1) by simp
  then show ?case
    by (simp add: s(1) wp_simps) (rule wp_mono [OF row], simp add: nxt)
next
  case (4 s)
  then show ?case using wf_grammarD(1,2) [OF wf] by (auto simp: mtx_rel_def w)
qed

lemma shifted_rtrancl:
  assumes lc: "L \<subseteq> {s..<s + n} \<times> {s..<s + n}" and m: "M = {(i, j). i < n \<and> j < n \<and> (i + s, j + s) \<in> L}"
    and i: "i < n"
  shows "j < n \<and> (i, j) \<in> M\<^sup>* \<longleftrightarrow> j < n \<and> (i + s, j + (s::nat)) \<in> L\<^sup>*"
proof -
  have "(i + s, j + s) \<in> L\<^sup>*" if "(i, j) \<in> M\<^sup>*" for j
    using that by induction (auto simp: m intro: rtrancl_into_rtrancl)
  moreover have "s \<le> B \<and> B < s + n \<and> (i, B - s) \<in> M\<^sup>*" if "(i + s, B) \<in> L\<^sup>*" for B
    using that
  proof induction
    case (step B C)
    then have "s \<le> B" "B < s + n" "s \<le> C" "C < s + n" using lc by auto
    with step have "(B - s, C - s) \<in> M" by (auto simp: m)
    with step \<open>s \<le> C\<close> \<open>C < s + n\<close> show ?case by (auto intro: rtrancl_into_rtrancl)
  qed (use i in simp)
  ultimately show ?thesis by fastforce
qed

lemma set_EFF_ok:
  assumes wf: "wf_grammar G" and d: "derives_ok G (derives, rules)"
  shows "wp (set_EFF G derives rules) (\<lambda>EFF. length EFF = nvars G * WORDSIZE (nvars G) \<and>
    (\<forall>i < nvars G. \<forall>j < nvars G. rowbit EFF (i * WORDSIZE (nvars G)) j =
       ((i + start_symbol G, j + start_symbol G) \<in> (left_corner G)\<^sup>*)))"
proof -
  have vars: "left_corner G \<subseteq> {start_symbol G..<start_symbol G + nvars G} \<times> {start_symbol G..<start_symbol G + nvars G}"
    using left_corner_vars [OF wf] wf_grammarD(1,2) [OF wf] by simp
  have bits: "rowbit EFF (i * WORDSIZE (nvars G)) j = ((i + start_symbol G, j + start_symbol G) \<in> (left_corner G)\<^sup>*)"
    if "mtx_rel EFF (nvars G) = {(i, j). i < nvars G \<and> j < nvars G \<and> (i, j) \<in> (mtx_rel R (nvars G))\<^sup>*}"
      "mtx_rel R (nvars G) = {(i, j). i < nvars G \<and> j < nvars G \<and> (i + start_symbol G, j + start_symbol G) \<in> left_corner G}"
      "i < nvars G" "j < nvars G" for EFF R i j
  proof -
    have "rowbit EFF (i * WORDSIZE (nvars G)) j \<longleftrightarrow> (i, j) \<in> mtx_rel EFF (nvars G)"
      using that(3,4) by (simp add: mtx_rel_def)
    also have "\<dots> \<longleftrightarrow> (i, j) \<in> (mtx_rel R (nvars G))\<^sup>*" using that by simp
    also have "\<dots> \<longleftrightarrow> (i + start_symbol G, j + start_symbol G) \<in> (left_corner G)\<^sup>*"
      using shifted_rtrancl [OF vars that(2,3), of j] that(4) by simp
    finally show ?thesis .
  qed
  show ?thesis
    unfolding set_EFF_def Let_def
    by (simp only: wp_simps, rule wp_mono [OF set_EFF_rows_ok [OF wf d refl]], clarify)
      (rule wp_mono [OF reflexive_transitive_closure_ok], use bits in auto)
qed

section \<open>The rules to add for a nonterminal\<close>

lemma first_derives_add_ok:
  assumes wf: "wf_grammar G" and d: "derives_ok G (derives, rules)"
    and B: "start_symbol G \<le> B" "B < nsyms G" and rs: "rs = WORDSIZE (nrules G)"
    and i: "i < nvars G" and len: "length fd = nvars G * rs"
  shows "wp (first_derives_add derives rules (i * rs) B cword msk fd) (\<lambda>fd'. length fd' = nvars G * rs \<and>
     (\<forall>i'. \<forall>r < 32 * rs. rowbit fd' (i' * rs) r =
       (rowbit fd (i' * rs) r \<or> i' = i \<and> r < nrules G \<and> rlhs G ! r = B \<and> cword AND msk \<noteq> 0)))"
proof (cases "cword AND msk \<noteq> 0")
  case True
  have small: "nat x < 32 * rs" if "x \<in> set (map int (rules_of G B))" for x
    using that WORDSIZE_bounds(1) [of "nrules G"] rules_of_var(2) [OF wf B(1)] rs by fastforce
  have "wp (foldM (\<lambda>rule. \<lambda>E. SETBIT E (i * rs) (nat rule)) (map int (rules_of G B)) fd) (\<lambda>E'. length E' = length fd \<and>
     (\<forall>i' j'. j' < 32 * rs \<longrightarrow> rowbit E' (i' * rs) j' =
        (rowbit fd (i' * rs) j' \<or> i' = i \<and> (\<exists>x \<in> set (map int (rules_of G B)). True \<and> nat x = j'))))"
    by (rule foldM_SETBIT [where P = "\<lambda>_. True" and g = nat, OF _ _ i len]) (use small in auto)
  moreover have "(\<exists>x \<in> set (map int (rules_of G B)). True \<and> nat x = r) \<longleftrightarrow> r < nrules G \<and> rlhs G ! r = B" for r
    by (auto simp: rules_of_def)
  ultimately have fold: "wp (foldM (\<lambda>rule. \<lambda>E. SETBIT E (i * rs) (nat rule)) (map int (rules_of G B)) fd)
    (\<lambda>E'. length E' = length fd \<and> (\<forall>i' j'. j' < 32 * rs \<longrightarrow> rowbit E' (i' * rs) j' =
        (rowbit fd (i' * rs) j' \<or> i' = i \<and> j' < nrules G \<and> rlhs G ! j' = B)))"
    by simp
  have eq: "first_derives_add derives rules (i * rs) B cword msk fd =
      foldM (\<lambda>rule. \<lambda>E. SETBIT E (i * rs) (nat rule)) (map int (rules_of G B)) fd"
    unfolding first_derives_add_def if_P [OF True] by (rule derives_scan [OF wf d B]) auto
  show ?thesis
    unfolding eq by (rule wp_mono [OF fold]) (use True len in auto)
next
  case False
  then show ?thesis using len by (simp add: first_derives_add_def wp_simps)
qed

text \<open>
  The scan of a row of \<open>EFF\<close> at column \<open>c\<close>: the word that holds the column, its mask and the index of
  the next word. The last step may fetch the word behind the row.
\<close>

lemma mask_times:
  "((2::u32) ^ (k mod 32) * 2 = 0) = (Suc k mod 32 = 0)"
  "Suc k mod 32 \<noteq> 0 \<Longrightarrow> (2::u32) ^ (k mod 32) * 2 = 2 ^ (Suc k mod 32)"
  using mask_shift [of k] by simp_all

lemma first_derives_row_ok:
  assumes wf: "wf_grammar G" and d: "derives_ok G (derives, rules)"
    and A: "start_symbol G \<le> A" "A < nsyms G" and w: "w = WORDSIZE (nvars G)" and rs: "rs = WORDSIZE (nrules G)"
    and E: "length EFF = nvars G * w" and after: "after \<noteq> [] \<or> nvars G mod 32 \<noteq> 0" and len: "length fd = nvars G * rs"
  shows "wp (first_derives_row G derives rules (EFF @ after) A ((A - start_symbol G) * rs) fd) (\<lambda>fd'.
     length fd' = nvars G * rs \<and> (\<forall>i. \<forall>r < 32 * rs. rowbit fd' (i * rs) r =
       (rowbit fd (i * rs) r \<or> i = A - start_symbol G \<and> r < nrules G \<and> start_symbol G \<le> rlhs G ! r \<and>
          rlhs G ! r < nsyms G \<and> rowbit EFF (i * w) (rlhs G ! r - start_symbol G))))"
proof -
  let ?i = "A - start_symbol G"
  define row where "row = ?i * w"
  have st: "start_symbol G = ntokens G" "nsyms G = start_symbol G + nvars G" "0 < nvars G"
    using wf_grammarD(1,2,4) [OF wf] by auto
  have i: "?i < nvars G" using A st by simp
  have row_in: "c < nvars G \<Longrightarrow> row + c div 32 < nvars G * w" for c
    unfolding row_def w by (rule row_index_bound [OF i div32_WORDSIZE])
  have EFF_nth: "c < nvars G \<Longrightarrow> (EFF @ after) ! (row + c div 32) = EFF ! (row + c div 32)" for c
    using row_in E by (simp add: nth_append)
  have fetch: "row + Suc c div 32 < length (EFF @ after)" if c: "c < nvars G" "Suc c mod 32 = 0" for c
  proof (cases "Suc c = nvars G")
    case True
    have "Suc c div 32 \<le> w"
      using True unfolding w WORDSIZE_def BITS_PER_INT_def by (simp add: div_le_mono)
    then have "row + Suc c div 32 \<le> nvars G * w"
      using row_end_bound [OF i, of w] by (simp add: row_def)
    then show ?thesis using after True c(2) E by (cases after) auto
  next
    case False
    then show ?thesis using row_in [of "Suc c"] c E by simp
  qed
  let ?P = "\<lambda>j r. r < nrules G \<and> start_symbol G \<le> rlhs G ! r \<and> rlhs G ! r < j \<and>
     rowbit EFF row (rlhs G ! r - start_symbol G)"
  have "wp (for_up (start_symbol G) (nsyms G)
       (\<lambda>j (first_derives, cword, msk, vrow). do {
          first_derives \<leftarrow> first_derives_add derives rules (?i * rs) j cword msk first_derives;
          let msk' = push_bit 1 msk;
          if msk' = 0 then do {
            cword \<leftarrow> rd (EFF @ after) vrow;
            Some (first_derives, cword, 1, vrow + 1) }
          else Some (first_derives, cword, msk', vrow) })
       (fd, EFF ! row, 1, row + 1))
    (\<lambda>(fd', _). length fd' = nvars G * rs \<and> (\<forall>i. \<forall>r < 32 * rs. rowbit fd' (i * rs) r =
       (rowbit fd (i * rs) r \<or> i = ?i \<and> ?P (nsyms G) r)))"
  proof (rule wp_for_up [where I = "\<lambda>j (fd', cword, msk, vrow). msk = 2 ^ ((j - start_symbol G) mod 32) \<and>
      vrow = row + (j - start_symbol G) div 32 + 1 \<and> (j < nsyms G \<longrightarrow> cword = EFF ! (row + (j - start_symbol G) div 32)) \<and>
      length fd' = nvars G * rs \<and> (\<forall>i. \<forall>r < 32 * rs. rowbit fd' (i * rs) r =
       (rowbit fd (i * rs) r \<or> i = ?i \<and> ?P j r))"], goal_cases)
    case 1
    then show ?case using st by simp
  next
    case 2
    then show ?case using len by auto
  next
    case (3 j s)
    define c where "c = j - start_symbol G"
    have c: "c < nvars G" "Suc j - start_symbol G = Suc c" "j = c + start_symbol G" using 3 st by (auto simp: c_def)
    from 3 obtain fd' where s: "s = (fd', EFF ! (row + c div 32), 2 ^ (c mod 32), row + c div 32 + 1)"
      and fd': "length fd' = nvars G * rs"
        "\<forall>i. \<forall>r < 32 * rs. rowbit fd' (i * rs) r = (rowbit fd (i * rs) r \<or> i = ?i \<and> ?P j r)"
      by (auto simp: c_def)
    have cond: "(EFF ! (row + c div 32) AND 2 ^ (c mod 32) \<noteq> 0) = rowbit EFF row c"
      by (simp add: and_single rowbit_def)
    have new: "(rowbit fd' (i' * rs) r \<or> i' = ?i \<and> r < nrules G \<and> rlhs G ! r = j \<and>
        EFF ! (row + c div 32) AND 2 ^ (c mod 32) \<noteq> 0) = (rowbit fd (i' * rs) r \<or> i' = ?i \<and> ?P (Suc j) r)"
      if "r < 32 * rs" for i' r
      using fd'(2) that c(3) unfolding cond by (auto simp: less_Suc_eq)
    note add = first_derives_add_ok [OF wf d 3(1,2) rs i fd'(1)]
    have div: "Suc c mod 32 = 0 \<Longrightarrow> Suc c div 32 = Suc (c div 32)" "Suc c mod 32 \<noteq> 0 \<Longrightarrow> Suc c div 32 = c div 32"
      by (auto simp: div_Suc mod_Suc)
    have nxt: "Suc j < nsyms G \<Longrightarrow> (EFF @ after) ! (row + Suc c div 32) = EFF ! (row + Suc c div 32)"
      using EFF_nth [of "Suc c"] c st by simp
    show ?case
    proof (cases "Suc c mod 32 = 0")
      case True
      then show ?thesis
        using fetch [OF c(1) True] nxt div(1)
        by (simp add: s wp_simps Let_def mask_times c(2)) (rule wp_mono [OF add], use new in simp)
    next
      case False
      then show ?thesis
        using div(2)
        by (simp add: s wp_simps Let_def mask_times c(2)) (rule wp_mono [OF add], use new in simp)
    qed
  next
    case (4 s)
    then show ?case by (auto split: prod.splits)
  qed
  then show ?thesis
    unfolding first_derives_row_def Let_def row_def [symmetric] st(1) [symmetric] w [symmetric]
    using row_in [of 0] EFF_nth [of 0] st(3) E
    by (auto simp: wp_simps row_def [symmetric] elim!: wp_mono)
qed

text \<open>Bit \<open>r\<close> of the row of \<open>A\<close>: the left-hand side of rule \<open>r\<close> can start what \<open>A\<close> derives.\<close>

definition first_derives_ok :: "grammar \<Rightarrow> u32 list \<Rightarrow> bool" where
  "first_derives_ok G fd \<longleftrightarrow> length fd = nvars G * WORDSIZE (nrules G) \<and>
     (\<forall>A r. start_symbol G \<le> A \<and> A < nsyms G \<and> r < 32 * WORDSIZE (nrules G) \<longrightarrow>
        rowbit fd ((A - start_symbol G) * WORDSIZE (nrules G)) r =
        (r < nrules G \<and> 2 \<le> r \<and> (A, rlhs G ! r) \<in> (left_corner G)\<^sup>*))"

lemma left_corner_rtrancl_var:
  assumes wf: "wf_grammar G" and A: "start_symbol G \<le> A" "A < nsyms G" and B: "(A, B) \<in> (left_corner G)\<^sup>*"
  shows "start_symbol G \<le> B \<and> B < nsyms G"
  using B by (cases rule: rtranclE) (use A left_corner_vars [OF wf] in auto)

lemma set_first_derives_ok:
  assumes wf: "wf_grammar G" and d: "derives_ok G (derives, rules)"
    and after: "after \<noteq> [] \<or> nvars G mod 32 \<noteq> 0"
  shows "wp (set_first_derives G derives rules after) (first_derives_ok G)"
proof -
  define w where "w = WORDSIZE (nvars G)"
  define rs where "rs = WORDSIZE (nrules G)"
  have st: "start_symbol G = ntokens G" "nsyms G = start_symbol G + nvars G"
    using wf_grammarD(1,2) [OF wf] by auto
  let ?P = "\<lambda>EFF i r. r < nrules G \<and> start_symbol G \<le> rlhs G ! r \<and> rlhs G ! r < nsyms G \<and>
     rowbit EFF (i * w) (rlhs G ! r - start_symbol G)"
  have loop: "wp (for_up (start_symbol G) (nsyms G)
       (\<lambda>i (first_derives, rrow). do {
          first_derives \<leftarrow> first_derives_row G derives rules (EFF @ after) i rrow first_derives;
          Some (first_derives, rrow + rs) })
       (replicate (nvars G * rs) 0, 0))
     (\<lambda>(fd, _). length fd = nvars G * rs \<and> (\<forall>i < nvars G. \<forall>r < 32 * rs. rowbit fd (i * rs) r = ?P EFF i r))"
    if E: "length EFF = nvars G * w" for EFF
  proof (rule wp_for_up [where I = "\<lambda>A (fd, rrow). rrow = (A - start_symbol G) * rs \<and> length fd = nvars G * rs \<and>
     (\<forall>i < nvars G. \<forall>r < 32 * rs. rowbit fd (i * rs) r = (i < A - start_symbol G \<and> ?P EFF i r))"], goal_cases)
    case 1
    then show ?case using st by simp
  next
    case 2
    have "r div 32 < rs" if "r < 32 * rs" for r using that by auto
    then show ?case by (auto intro!: rowbit_zero row_index_bound)
  next
    case (3 A s)
    then obtain fd where s: "s = (fd, (A - start_symbol G) * rs)" and fd: "length fd = nvars G * rs"
      "\<forall>i < nvars G. \<forall>r < 32 * rs. rowbit fd (i * rs) r = (i < A - start_symbol G \<and> ?P EFF i r)"
      by auto
    have "Suc A - start_symbol G = Suc (A - start_symbol G)" using 3(1) by simp
    with fd(2) show ?case
      by (simp add: s wp_simps)
        (rule wp_mono [OF first_derives_row_ok [OF wf d 3(1,2) w_def rs_def E after fd(1)]], auto simp: less_Suc_eq)
  next
    case (4 s)
    then show ?case using st by auto
  qed
  have bits: "first_derives_ok G fd"
    if EFF: "\<forall>i < nvars G. \<forall>j < nvars G. rowbit EFF (i * w) j =
         ((i + start_symbol G, j + start_symbol G) \<in> (left_corner G)\<^sup>*)"
      and fd: "length fd = nvars G * rs" "\<forall>i < nvars G. \<forall>r < 32 * rs. rowbit fd (i * rs) r = ?P EFF i r" for EFF fd
    unfolding first_derives_ok_def rs_def [symmetric]
  proof (intro conjI allI impI, goal_cases)
    case 1
    show ?case by (rule fd)
  next
    case (2 A r)
    have A: "A - start_symbol G < nvars G" "A - start_symbol G + start_symbol G = A" using 2 st by auto
    have rule: "start_symbol G \<le> rlhs G ! r \<and> rlhs G ! r < nsyms G \<longleftrightarrow> 2 \<le> r" if "r < nrules G"
      using rlhs_var [OF wf, of r] rules_of_iff [OF wf, of "rlhs G ! r" r] that by (auto simp: rules_of_def)
    have "rowbit EFF ((A - start_symbol G) * w) (rlhs G ! r - start_symbol G) \<longleftrightarrow> (A, rlhs G ! r) \<in> (left_corner G)\<^sup>*"
      if "start_symbol G \<le> rlhs G ! r" "rlhs G ! r < nsyms G"
      using EFF [rule_format, OF A(1), of "rlhs G ! r - start_symbol G"] that st A(2) by simp
    then show ?case using fd(2) A(1) 2 rule by blast
  qed
  show ?thesis
    unfolding set_first_derives_def Let_def rs_def [symmetric]
    by (simp only: wp_simps, rule wp_mono [OF set_EFF_ok [OF wf d, folded w_def]])
      (auto intro!: wp_mono [OF loop] bits)
qed

section \<open>The closure of a kernel\<close>

lemma or_rules_ok:
  assumes "length ruleset = rs" "d + rs \<le> length fd"
  shows "wp (or_rules fd d rs ruleset) (\<lambda>ruleset'. length ruleset' = rs \<and>
     (\<forall>r < 32 * rs. rowbit ruleset' 0 r = (rowbit ruleset 0 r \<or> rowbit fd d r)))"
proof -
  have "wp (or_rules fd d rs ruleset) (\<lambda>ruleset'. length ruleset' = rs \<and>
     (\<forall>k < rs. ruleset' ! k = ruleset ! k OR fd ! (d + k)))"
    unfolding or_rules_def
  proof (simp only: wp_simps, rule wp_whileM [where I = "\<lambda>(a, rsp, dsp). rsp \<le> rs \<and> dsp = d + rsp \<and> length a = rs \<and>
      (\<forall>k < rs. a ! k = (if k < rsp then ruleset ! k OR fd ! (d + k) else ruleset ! k))"
      and m = "\<lambda>(a, rsp, dsp). rs - rsp"], goal_cases)
    case 1
    then show ?case using assms by simp
  next
    case (2 s)
    then obtain a rsp where "s = (a, rsp, d + rsp)" by (cases s) auto
    with 2 show ?case using assms(2) by (auto simp: wp_simps nth_list_update less_Suc_eq)
  qed
  then show ?thesis by (rule wp_mono) (auto simp: rowbit_def bit_or_iff)
qed

text \<open>The rules a kernel adds: those a nonterminal behind a dot can start with.\<close>

definition closure_rules :: "grammar \<Rightarrow> nat list \<Rightarrow> nat set" where
  "closure_rules G nucleus = {r. 2 \<le> r \<and> r < nrules G \<and>
     (\<exists>i \<in> set nucleus. ISVAR G (ritem G ! i) \<and> (nat (ritem G ! i), rlhs G ! r) \<in> (left_corner G)\<^sup>*)}"

lemma item_in_rule:
  assumes wf: "wf_grammar G" and i: "1 \<le> i" "i < nitems G"
  obtains r where "2 \<le> r" "r < nrules G" "rrhs G ! r \<le> i" "i < rrhs G ! Suc r"
proof -
  define n where "n = (LEAST n. 2 \<le> n \<and> i < rrhs G ! n)"
  have "2 \<le> nrules G \<and> i < rrhs G ! nrules G" using wf_grammarD(5,10) [OF wf] i by simp
  note n = LeastI [of "\<lambda>n. 2 \<le> n \<and> i < rrhs G ! n", OF this, folded n_def]
    Least_le [of "\<lambda>n. 2 \<le> n \<and> i < rrhs G ! n", OF this, folded n_def]
  have "n \<noteq> 2" using n(1) wf_grammarD(9) [OF wf] i by auto
  moreover have "\<not> (2 \<le> n - 1 \<and> i < rrhs G ! (n - 1))"
    using not_less_Least [of "n - 1" "\<lambda>n. 2 \<le> n \<and> i < rrhs G ! n", folded n_def] n(1) by simp
  ultimately show thesis using that [of "n - 1"] n by (cases n) auto
qed

lemma ritem_nsyms:
  assumes wf: "wf_grammar G" and i: "1 \<le> i" "i < nitems G"
  shows "ritem G ! i < int (nsyms G)"
proof -
  obtain r where r: "2 \<le> r" "r < nrules G" "rrhs G ! r \<le> i" "i < rrhs G ! Suc r"
    by (rule item_in_rule [OF wf i])
  with wf_grammarD(16) [OF wf r(1,2)] show ?thesis
    by (cases "Suc i < rrhs G ! Suc r") (auto simp: wf_rule_def dest!: less_antisym)
qed

lemma closure_ruleset_ok:
  assumes wf: "wf_grammar G" and fd: "first_derives_ok G fd" and N: "set N \<subseteq> {1..<nitems G}"
  shows "wp (closure_ruleset G fd N) (\<lambda>R. length R = WORDSIZE (nrules G) \<and>
     (\<forall>r < 32 * WORDSIZE (nrules G). rowbit R 0 r \<longleftrightarrow> r \<in> closure_rules G N))"
proof -
  define rs where "rs = WORDSIZE (nrules G)"
  have st: "start_symbol G = ntokens G" "nsyms G = start_symbol G + nvars G" "0 < ntokens G"
    using wf_grammarD(1,2,3) [OF wf] by auto
  have "wp (closure_ruleset G fd N) (\<lambda>R. \<exists>done. N = done @ [] \<and> length R = rs \<and>
      (\<forall>r < 32 * rs. rowbit R 0 r \<longleftrightarrow> r \<in> closure_rules G done))"
    unfolding closure_ruleset_def Let_def rs_def [symmetric]
  proof (rule wp_foldM [where I = "\<lambda>todo R. \<exists>done. N = done @ todo \<and> length R = rs \<and>
      (\<forall>r < 32 * rs. rowbit R 0 r \<longleftrightarrow> r \<in> closure_rules G done)"], goal_cases)
    case 1
    have "rowbit (replicate rs 0) 0 r = False" if "r < 32 * rs" for r using that by (auto simp: rowbit_def)
    then show ?case by (auto simp: closure_rules_def)
  next
    case (2 i todo R)
    then obtain don where don: "N = don @ i # todo" and R: "length R = rs"
      "\<forall>r < 32 * rs. rowbit R 0 r \<longleftrightarrow> r \<in> closure_rules G don" by blast
    have i: "1 \<le> i" "i < nitems G" using don N by auto
    let ?A = "nat (ritem G ! i)"
    show ?case
    proof (cases "ISVAR G (ritem G ! i)")
      case True
      then have A: "start_symbol G \<le> ?A" "?A < nsyms G"
        using ritem_nsyms [OF wf i] by (auto simp: ISVAR_def)
      have d: "(?A - ntokens G) * rs + rs \<le> length fd"
        using fd A st row_end_bound [of "?A - ntokens G" "nvars G" rs] by (simp add: first_derives_ok_def rs_def)
      have "rowbit fd ((?A - ntokens G) * rs) r \<longleftrightarrow> 2 \<le> r \<and> r < nrules G \<and> (?A, rlhs G ! r) \<in> (left_corner G)\<^sup>*"
        if "r < 32 * rs" for r
        using fd A st that unfolding first_derives_ok_def rs_def [symmetric] by auto
      with True R i show ?thesis
        by (simp add: wp_simps wf_grammarD(6) [OF wf])
          (rule wp_mono [OF or_rules_ok [OF R(1) d]], intro exI [of _ "don @ [i]"], auto simp: don closure_rules_def)
    next
      case False
      with R i show ?thesis
        by (auto simp: wp_simps wf_grammarD(6) [OF wf] don closure_rules_def intro!: exI [of _ "don @ [i]"])
    qed
  qed
  then show ?thesis unfolding rs_def [symmetric] by (rule wp_mono) auto
qed

section \<open>Merging kernel and closure items\<close>

text \<open>What the merge of \<open>closure\<close> computes, as a function on lists.\<close>

fun merge_items :: "nat list \<Rightarrow> nat list \<Rightarrow> nat list" where
  "merge_items xs [] = xs"
| "merge_items [] (y # ys) = y # merge_items [] ys"
| "merge_items (x # xs) (y # ys) =
     (if x < y then x # merge_items xs (y # ys)
      else y # merge_items (dropWhile (\<lambda>c. c = y) (x # xs)) ys)"

lemma merge_items_le:
  "xs = [] \<or> y \<le> hd xs \<Longrightarrow> merge_items xs (y # ys) = y # merge_items (dropWhile (\<lambda>c. c = y) xs) ys"
  by (cases xs) (auto split: if_splits)

lemma merge_items_sorted:
  assumes "sorted_wrt (<) xs" "sorted_wrt (<) ys"
  shows "sorted_wrt (<) (merge_items xs ys) \<and> set (merge_items xs ys) = set xs \<union> set ys"
  using assms
proof (induction xs ys rule: merge_items.induct)
  case (3 x xs y ys)
  show ?case
  proof (cases "x < y")
    case True
    with 3 show ?thesis by auto
  next
    case False
    have drop: "dropWhile (\<lambda>c. c = y) (x # xs) = (if x = y then xs else x # xs)"
      using 3(3) by (cases xs) auto
    have "sorted_wrt (<) (merge_items (if x = y then xs else x # xs) ys) \<and>
      set (merge_items (if x = y then xs else x # xs) ys) = set (if x = y then xs else x # xs) \<union> set ys"
      using 3(2) [OF False] 3(3,4) unfolding drop by auto
    with False 3(3,4) show ?thesis unfolding merge_items.simps drop by auto
  qed
qed auto

lemma closure_item_ok:
  assumes state: "items @ merge_items (drop csp N) (y # ys) = full" "csp \<le> length N" and cap: "length full \<le> nitems G"
  shows "wp (closure_item G N y (items, csp)) (\<lambda>(items', csp'). csp' \<le> length N \<and>
     items' @ merge_items (drop csp' N) ys = full)"
  unfolding closure_item_def
proof (simp only: wp_simps, rule wp_whileM [where I = "\<lambda>(items, csp). csp \<le> length N \<and>
    items @ merge_items (drop csp N) (y # ys) = full" and m = "\<lambda>(items, csp). length N - csp"], goal_cases)
  case 1
  then show ?case using state by simp
next
  case (2 s)
  then obtain items csp where s: "s = (items, csp)" and csp: "csp \<le> length N"
    and full: "items @ merge_items (drop csp N) (y # ys) = full" by auto
  show ?case
  proof (cases "csp < length N \<and> N ! csp < y")
    case True
    then have "drop csp N = N ! csp # drop (Suc csp) N" by (simp add: Cons_nth_drop_Suc)
    with full True have "items @ N ! csp # merge_items (drop (Suc csp) N) (y # ys) = full" by simp
    with True cap show ?thesis by (auto simp: s wp_simps)
  next
    case False
    then have "drop csp N = [] \<or> y \<le> hd (drop csp N)"
      by (cases "csp < length N") (auto simp: hd_drop_conv_nth)
    then have eq: "items @ y # merge_items (dropWhile (\<lambda>c. c = y) (drop csp N)) ys = full"
      using full merge_items_le by metis
    have "wp (whileM (\<lambda>csp. if csp < length N then do { c \<leftarrow> rd N csp; Some (c = y) } else Some False)
        (\<lambda>csp. Some (csp + 1)) csp)
       (\<lambda>csp'. csp' \<le> length N \<and> (items @ [y]) @ merge_items (drop csp' N) ys = full)"
    proof (rule wp_whileM [where I = "\<lambda>csp. csp \<le> length N \<and>
        items @ y # merge_items (dropWhile (\<lambda>c. c = y) (drop csp N)) ys = full" and m = "\<lambda>csp. length N - csp"], goal_cases)
      case 1
      then show ?case using eq csp by simp
    next
      case (2 k)
      then show ?case
        by (cases "k < length N") (auto simp: wp_simps Cons_nth_drop_Suc [symmetric])
    qed
    with False eq cap show ?thesis by (cases "csp < length N") (auto simp: s wp_simps elim!: wp_mono)
  qed
qed

text \<open>The items that the bits of the rule set from \<open>n\<close> on add.\<close>

definition rule_items :: "grammar \<Rightarrow> u32 list \<Rightarrow> nat \<Rightarrow> nat list" where
  "rule_items G R n = map (\<lambda>r. rrhs G ! r) (filter (rowbit R 0) [n..<32 * length R])"

lemma rule_items_step:
  "n < 32 * length R \<Longrightarrow> rule_items G R n = (if rowbit R 0 n then rrhs G ! n # rule_items G R (Suc n) else rule_items G R (Suc n))"
  by (simp add: rule_items_def upt_conv_Cons)

lemma rule_items_skip:
  assumes "k < length R" "R ! k = 0"
  shows "rule_items G R (32 * k) = rule_items G R (32 * k + 32)"
proof -
  have "[32 * k..<32 * length R] = [32 * k..<32 * k + 32] @ [32 * k + 32..<32 * length R]"
    using assms(1) upt_add_eq_append [of "32 * k" "32 * k + 32" "32 * length R - (32 * k + 32)"] by simp
  moreover have "filter (rowbit R 0) [32 * k..<32 * k + 32] = []"
  proof -
    have "n div 32 = k" if "32 * k \<le> n" "n < 32 * k + 32" for n using that by auto
    then show ?thesis using assms(2) by (auto simp: filter_empty_conv rowbit_def)
  qed
  ultimately show ?thesis by (simp add: rule_items_def)
qed

lemma closure_word_ok:
  assumes k: "k < length R" and R: "\<forall>r < 32 * length R. rowbit R 0 r \<longrightarrow> r < length (rrhs G)"
    and state: "items @ merge_items (drop csp N) (rule_items G R (32 * k)) = full" "csp \<le> length N"
    and cap: "length full \<le> nitems G"
  shows "wp (closure_word G N (R ! k) (items, csp, 32 * k)) (\<lambda>(items', csp', n). n = 32 * Suc k \<and> csp' \<le> length N \<and>
     items' @ merge_items (drop csp' N) (rule_items G R n) = full)"
proof (cases "R ! k = 0")
  case True
  then show ?thesis using state rule_items_skip [OF k True, of G]
    by (simp add: closure_word_def wp_simps BITS_PER_INT_def add.commute)
next
  case False
  have bits: "(R ! k AND 2 ^ t \<noteq> 0) = rowbit R 0 (32 * k + t)" if "t < 32" for t
    using that by (simp add: and_single rowbit_def)
  show ?thesis
    unfolding closure_word_def prod.case if_not_P [OF False]
  proof (simp only: wp_simps, rule wp_whileM [where I = "\<lambda>(msk, items, csp, n). \<exists>t \<le> 32. n = 32 * k + t \<and> msk = 2 ^ t \<and>
      csp \<le> length N \<and> items @ merge_items (drop csp N) (rule_items G R n) = full"
      and m = "\<lambda>(msk, items, csp, n). 32 * k + 32 - n"], goal_cases)
    case 1
    then show ?case using state by auto
  next
    case (2 s)
    then obtain items csp t where s: "s = (2 ^ t, items, csp, 32 * k + t)" and t: "t \<le> 32" and csp: "csp \<le> length N"
      and full: "items @ merge_items (drop csp N) (rule_items G R (32 * k + t)) = full" by auto
    show ?case
    proof (cases "t < 32")
      case True
      have n: "32 * k + t < 32 * length R" using k True by linarith
      have nonzero: "(2::u32) ^ t \<noteq> 0" using True by (simp add: exp_eq_zero_iff)
      have shift: "push_bit 1 ((2::u32) ^ t) = 2 ^ Suc t" by (simp add: push_bit_eq_mult)
      have wp_next: "wp (if R ! k AND 2 ^ t \<noteq> 0 then do { itemno \<leftarrow> rd (rrhs G) (32 * k + t); closure_item G N itemno (items, csp) }
           else Some (items, csp))
         (\<lambda>(items', csp'). csp' \<le> length N \<and> items' @ merge_items (drop csp' N) (rule_items G R (Suc (32 * k + t))) = full)"
        using R n csp full closure_item_ok [OF _ csp cap, of items "rrhs G ! (32 * k + t)" "rule_items G R (Suc (32 * k + t))"]
        unfolding bits [OF True] rule_items_step [OF n] by (auto simp: wp_simps split: if_splits)
      show ?thesis
        unfolding s prod.case by (simp only: wp_Some wp_bind shift nonzero not_False_eq_True if_True, rule wp_mono [OF wp_next])
          (use True in \<open>auto simp: wp_simps intro!: exI [of _ "Suc t"]\<close>)
    next
      case False
      then have "t = 32" using t by simp
      then show ?thesis using full csp by (simp add: s wp_simps)
    qed
  qed
qed

text \<open>
  The closure of a kernel, as a sorted list of items: the kernel and the first items of the rules that
  the nonterminals behind its dots can start with.
\<close>

definition closure_items :: "grammar \<Rightarrow> nat list \<Rightarrow> nat set" where
  "closure_items G N = set N \<union> (\<lambda>r. rrhs G ! r) ` closure_rules G N"

lemma rule_items_sorted:
  assumes wf: "wf_grammar G" and R: "\<forall>r < 32 * length R. rowbit R 0 r \<longleftrightarrow> r \<in> closure_rules G N"
    and len: "length R = WORDSIZE (nrules G)"
  shows "sorted_wrt (<) (rule_items G R 0)" "set (rule_items G R 0) = (\<lambda>r. rrhs G ! r) ` closure_rules G N"
proof -
  have in_rules: "2 \<le> r" "r < nrules G" if "r \<in> closure_rules G N" for r using that by (auto simp: closure_rules_def)
  have "r < 32 * length R" if "r \<in> closure_rules G N" for r
    using in_rules(2) [OF that] WORDSIZE_bounds(1) [of "nrules G"] len by simp
  with R have bits: "{x. x < 32 * length R \<and> rowbit R 0 x} = closure_rules G N" by blast
  have mono: "rrhs G ! x < rrhs G ! y" if "x \<in> closure_rules G N" "y \<in> closure_rules G N" "x < y" for x y
    by (rule rrhs_mono [OF wf in_rules(1) [OF that(1)] that(3) less_imp_le [OF in_rules(2) [OF that(2)]]])
  have "sorted_wrt (<) (filter (rowbit R 0) [0..<32 * length R])" by (simp add: sorted_wrt_filter)
  then show "sorted_wrt (<) (rule_items G R 0)"
    unfolding rule_items_def sorted_wrt_map
    by (rule sorted_wrt_mono_rel [rotated]) (use R mono in auto)
  show "set (rule_items G R 0) = (\<lambda>r. rrhs G ! r) ` closure_rules G N"
    by (simp add: rule_items_def bits)
qed

lemma first_item:
  assumes wf: "wf_grammar G" and r: "2 \<le> r" "r < nrules G"
  shows "1 \<le> rrhs G ! r" "rrhs G ! r < nitems G"
  using rrhs_mono [OF wf order_refl, of r] rrhs_mono [OF wf r] wf_grammarD(9,10) [OF wf] r
  by (cases "r = 2"; auto)+

lemma closure_words_ok:
  assumes R: "\<forall>r < 32 * length R. rowbit R 0 r \<longrightarrow> r < length (rrhs G)"
    and full: "full = merge_items N (rule_items G R 0)" and cap: "length full \<le> nitems G"
  shows "wp (foldM (closure_word G N) R ([], 0, 0)) (\<lambda>(items, csp, n). csp \<le> length N \<and> items @ drop csp N = full)"
proof -
  have "wp (foldM (closure_word G N) R ([], 0, 0)) (\<lambda>(items, csp, n). \<exists>k. [] = drop k R \<and> k \<le> length R \<and>
     n = 32 * k \<and> csp \<le> length N \<and> items @ merge_items (drop csp N) (rule_items G R n) = full)"
  proof (rule wp_foldM [where I = "\<lambda>todo (items, csp, n). \<exists>k. todo = drop k R \<and> k \<le> length R \<and>
     n = 32 * k \<and> csp \<le> length N \<and> items @ merge_items (drop csp N) (rule_items G R n) = full"], goal_cases)
    case 1
    then show ?case by (auto simp: full intro!: exI [of _ 0])
  next
    case (2 word todo s)
    then obtain items csp k where s: "s = (items, csp, 32 * k)" and k: "word # todo = drop k R" and csp: "csp \<le> length N"
      and eq: "items @ merge_items (drop csp N) (rule_items G R (32 * k)) = full" by auto
    from k have kR: "k < length R" using not_le by fastforce
    with k have word: "word = R ! k" "todo = drop (Suc k) R" by (simp_all add: Cons_nth_drop_Suc [symmetric])
    show ?case
      unfolding s word(1) by (rule wp_mono [OF closure_word_ok [OF kR R eq csp cap]])
        (use kR in \<open>auto simp: word intro!: exI [of _ "Suc k"]\<close>)
  qed
  then show ?thesis by (rule wp_mono) (auto simp: rule_items_def)
qed

lemma closure_tail_ok:
  assumes "items @ drop csp N = full" "csp \<le> length N" "length full \<le> nitems G"
  shows "closure_tail G N (items, csp) = Some full"
proof -
  have "wp (closure_tail G N (items, csp)) (\<lambda>x. x = full)"
    unfolding closure_tail_def
  proof (simp only: wp_simps, rule wp_whileM [where I = "\<lambda>(items, csp). csp \<le> length N \<and> items @ drop csp N = full"
      and m = "\<lambda>(items, csp). length N - csp"], goal_cases)
    case (2 s)
    then show ?case using assms(3) by (auto simp: wp_simps Cons_nth_drop_Suc)
  qed (use assms in simp)
  then show ?thesis by (simp add: wp_def)
qed

lemma closure_ok:
  assumes wf: "wf_grammar G" and fd: "first_derives_ok G fd"
    and N: "sorted_wrt (<) N" "set N \<subseteq> {1..<nitems G}"
  shows "wp (closure G fd N) (\<lambda>items. sorted_wrt (<) items \<and> set items = closure_items G N)"
proof -
  obtain R where R: "closure_ruleset G fd N = Some R" "length R = WORDSIZE (nrules G)"
    "\<forall>r < 32 * length R. rowbit R 0 r \<longleftrightarrow> r \<in> closure_rules G N"
    using closure_ruleset_ok [OF wf fd N(2)] by (auto simp: wp_def)
  define full where "full = merge_items N (rule_items G R 0)"
  have full: "sorted_wrt (<) full" "set full = closure_items G N"
    using merge_items_sorted [OF N(1) rule_items_sorted(1) [OF wf R(3,2)]] rule_items_sorted(2) [OF wf R(3,2)]
    by (auto simp: full_def closure_items_def)
  then have "set full \<subseteq> {..<nitems G}"
    using N(2) first_item(2) [OF wf] by (auto simp: closure_items_def closure_rules_def)
  then have cap: "length full \<le> nitems G"
    using card_mono [of "{..<nitems G}" "set full"] distinct_card [of full] full(1) strict_sorted_iff [of full] by simp
  have "\<forall>r < 32 * length R. rowbit R 0 r \<longrightarrow> r < length (rrhs G)"
    using R(3) wf_grammarD(8) [OF wf] by (auto simp: closure_rules_def)
  from closure_words_ok [OF this full_def cap] obtain items csp n
    where "foldM (closure_word G N) R ([], 0, 0) = Some (items, csp, n)" "csp \<le> length N" "items @ drop csp N = full"
    by (auto simp: wp_def)
  then have "closure G fd N = Some full"
    unfolding closure_def by (simp add: R(1) closure_tail_ok [OF _ _ cap])
  with full show ?thesis by (simp add: wp_def)
qed

text \<open>The textbook closure of a set of items, and that the code computes it.\<close>

inductive_set lr0_closure :: "grammar \<Rightarrow> nat set \<Rightarrow> nat set" for G N where
  kernel: "i \<in> N \<Longrightarrow> i \<in> lr0_closure G N"
| predict: "i \<in> lr0_closure G N \<Longrightarrow> ISVAR G (ritem G ! i) \<Longrightarrow> 2 \<le> r \<Longrightarrow> r < nrules G \<Longrightarrow>
    rlhs G ! r = nat (ritem G ! i) \<Longrightarrow> rrhs G ! r \<in> lr0_closure G N"

lemma left_corner_intro:
  assumes wf: "wf_grammar G" and r: "2 \<le> r" "r < nrules G" and var: "ISVAR G (ritem G ! (rrhs G ! r))"
  shows "(rlhs G ! r, nat (ritem G ! (rrhs G ! r))) \<in> left_corner G"
  using first_symbol_var [OF wf r] var r by (auto simp: left_corner_def)

lemma closure_items_predict:
  assumes wf: "wf_grammar G" and i: "i \<in> closure_items G N" and var: "ISVAR G (ritem G ! i)"
    and r: "2 \<le> r" "r < nrules G" "rlhs G ! r = nat (ritem G ! i)"
  shows "r \<in> closure_rules G N"
proof (cases "i \<in> set N")
  case True
  with var r show ?thesis by (auto simp: closure_rules_def)
next
  case False
  with i obtain q k where q: "i = rrhs G ! q" "2 \<le> q" "q < nrules G" "k \<in> set N" "ISVAR G (ritem G ! k)"
    "(nat (ritem G ! k), rlhs G ! q) \<in> (left_corner G)\<^sup>*" by (auto simp: closure_items_def closure_rules_def)
  have "(rlhs G ! q, rlhs G ! r) \<in> left_corner G"
    using left_corner_intro [OF wf q(2,3)] var q(1) r(3) by simp
  with q r show ?thesis by (auto simp: closure_rules_def intro: rtrancl_into_rtrancl)
qed

lemma left_corner_predicts:
  assumes wf: "wf_grammar G" and k: "k \<in> lr0_closure G N" "ISVAR G (ritem G ! k)"
    and path: "(nat (ritem G ! k), B) \<in> (left_corner G)\<^sup>*" and r: "2 \<le> r" "r < nrules G" "rlhs G ! r = B"
  shows "rrhs G ! r \<in> lr0_closure G N"
  using path r
proof (induction arbitrary: r rule: rtrancl_induct)
  case base
  then show ?case using lr0_closure.predict [OF k] by simp
next
  case (step B C)
  from step.hyps(2) obtain q where q: "2 \<le> q" "q < nrules G" "rlhs G ! q = B" "rhs G q \<noteq> []" "hd (rhs G q) = C"
    "start_symbol G \<le> C" by (auto simp: left_corner_def)
  have "rrhs G ! q \<in> lr0_closure G N" by (rule step.IH [OF q(1-3)])
  then show ?case
    using lr0_closure.predict [of "rrhs G ! q" G N r] first_symbol_var [OF wf q(1,2)] q step.prems by simp
qed

lemma closure_items_eq:
  assumes wf: "wf_grammar G"
  shows "closure_items G N = lr0_closure G (set N)"
proof
  show "closure_items G N \<subseteq> lr0_closure G (set N)"
  proof
    fix x assume "x \<in> closure_items G N"
    then consider "x \<in> set N" | r where "x = rrhs G ! r" "r \<in> closure_rules G N" by (auto simp: closure_items_def)
    then show "x \<in> lr0_closure G (set N)"
    proof cases
      case (2 r)
      then obtain k where "k \<in> set N" "ISVAR G (ritem G ! k)" "(nat (ritem G ! k), rlhs G ! r) \<in> (left_corner G)\<^sup>*"
        "2 \<le> r" "r < nrules G" by (auto simp: closure_rules_def)
      with 2(1) show ?thesis by (simp add: left_corner_predicts [OF wf lr0_closure.kernel])
    qed (rule lr0_closure.kernel)
  qed
  show "lr0_closure G (set N) \<subseteq> closure_items G N"
  proof
    fix i assume "i \<in> lr0_closure G (set N)"
    then show "i \<in> closure_items G N"
    proof induction
      case (predict i r)
      from closure_items_predict [OF wf predict.IH predict.hyps(2-5)] show ?case by (simp add: closure_items_def)
    qed (simp add: closure_items_def)
  qed
qed

section \<open>Properties\<close>

text \<open>The set-up of the tables followed by the closure of one kernel, as the generator runs them.\<close>

definition closure_of :: "grammar \<Rightarrow> u32 list \<Rightarrow> nat list \<Rightarrow> nat list option" where
  "closure_of G after nucleus = do {
     (derives, rules) \<leftarrow> set_derives G;
     first_derives \<leftarrow> set_first_derives G derives rules after;
     closure G first_derives nucleus }"



end
