(* ===== verification/LR0.thy ===== *)
theory LR0
  imports Closure "HOL-Library.Multiset"
begin

text \<open>
  The LR(0) automaton (\<^verbatim>\<open>src/yacc/lr0.c\<close>). The states form a list in order of creation: a state's
  \<open>next\<close> pointer is its successor there, \<open>link\<close> chains the states whose kernels start with the same
  item and \<open>state_set\<close> holds the heads of these chains. The kernels of the successors of the current
  state are collected in \<open>kernel_items\<close>, in which every symbol owns the region that starts at
  \<open>kernel_base\<close>. \<open>fatal("too many states")\<close> is the error \<open>Too_many_states\<close>.
\<close>

section \<open>Definitions\<close>

datatype lr0_error = Too_many_states

definition MAXSHORT :: nat where
  "MAXSHORT = 32767"

record core =
  link :: "nat option"
  number :: nat
  accessing_symbol :: nat
  items :: "nat list"

record shifts =
  shifts_number :: nat
  shift :: "nat list"

record reductions =
  reductions_number :: nat
  red_rules :: "nat list"

record lr0_state =
  states :: "core list"
  state_set :: "nat option list"
  kernel_items :: "nat list"
  kernel_end :: "nat option list"
  shift_symbol :: "nat list"
  shift_list :: "shifts list"
  reduction_list :: "reductions list"

definition allocate_itemsets :: "grammar \<Rightarrow> (nat list \<times> nat list) option" where
  "allocate_itemsets G = do {
     (count, symbol_count) \<leftarrow> foldM (\<lambda>symbol (count, symbol_count).
         if 0 \<le> symbol then do {
           n \<leftarrow> rd symbol_count (nat symbol);
           symbol_count \<leftarrow> wr symbol_count (nat symbol) (n + 1);
           Some (count + 1, symbol_count) }
         else Some (count, symbol_count))
       (ritem G) (0, replicate (nsyms G) 0);
     let kernel_items = replicate count 0;
     (kernel_base, count) \<leftarrow> for_up 0 (nsyms G) (\<lambda>i (kernel_base, count). do {
         n \<leftarrow> rd symbol_count i;
         kernel_base \<leftarrow> wr kernel_base i count;
         Some (kernel_base, count + n) })
       (replicate (nsyms G) 0, 0);
     Some (kernel_base, kernel_items) }"

definition initialize_states :: "grammar \<Rightarrow> nat option list \<Rightarrow> int list \<Rightarrow> core option" where
  "initialize_states G derives rules = do {
     sp \<leftarrow> rd derives (start_symbol G);
     start_derives \<leftarrow> sp;
     items \<leftarrow> scan_until (\<lambda>rule. rule < 0) rules start_derives
       (\<lambda>rule items. do { i \<leftarrow> rd (rrhs G) (nat rule); Some (items @ [i]) }) [];
     Some \<lparr>link = None, number = 0, accessing_symbol = 0, items = items\<rparr> }"

definition save_reductions :: "grammar \<Rightarrow> nat \<Rightarrow> nat list \<Rightarrow> reductions list \<Rightarrow> reductions list option" where
  "save_reductions G this itemset reds = do {
     redset \<leftarrow> foldM (\<lambda>isp redset. do {
         item \<leftarrow> rd (ritem G) isp;
         if item < 0 then push (nrules G + 1) (nat (- item)) redset else Some redset })
       itemset [];
     Some (if redset = [] then reds else reds @ [\<lparr>reductions_number = this, red_rules = redset\<rparr>]) }"

definition new_itemset_step ::
    "grammar \<Rightarrow> nat list \<Rightarrow> nat \<Rightarrow> nat list \<times> nat option list \<times> nat list \<Rightarrow> (nat list \<times> nat option list \<times> nat list) option" where
  "new_itemset_step G kernel_base i = (\<lambda>(kernel_items, kernel_end, shift_symbol). do {
     symbol \<leftarrow> rd (ritem G) i;
     if 0 < symbol then do {
       ksp0 \<leftarrow> rd kernel_end (nat symbol);
       (shift_symbol, ksp) \<leftarrow> (case ksp0 of
           None \<Rightarrow> do {
             shift_symbol \<leftarrow> push (nsyms G) (nat symbol) shift_symbol;
             ksp \<leftarrow> rd kernel_base (nat symbol);
             Some (shift_symbol, ksp) }
         | Some ksp \<Rightarrow> Some (shift_symbol, ksp));
       kernel_items \<leftarrow> wr kernel_items ksp (i + 1);
       kernel_end \<leftarrow> wr kernel_end (nat symbol) (Some (ksp + 1));
       Some (kernel_items, kernel_end, shift_symbol) }
     else Some (kernel_items, kernel_end, shift_symbol) })"

definition new_itemsets :: "grammar \<Rightarrow> nat list \<Rightarrow> nat list \<Rightarrow> lr0_state \<Rightarrow> lr0_state option" where
  "new_itemsets G kernel_base itemset st = do {
     (ki, ke, ss) \<leftarrow> foldM (new_itemset_step G kernel_base) itemset
       (kernel_items st, replicate (nsyms G) None, []);
     Some (st\<lparr>kernel_items := ki, kernel_end := ke, shift_symbol := ss\<rparr>) }"

definition new_state :: "nat list \<Rightarrow> nat \<Rightarrow> lr0_state \<Rightarrow> (lr0_error + lr0_state) option" where
  "new_state kernel_base symbol st =
     (if MAXSHORT \<le> length (states st) then throwE Too_many_states
      else liftE (do {
        isp1 \<leftarrow> rd kernel_base symbol;
        e \<leftarrow> rd (kernel_end st) symbol;
        iend \<leftarrow> e;
        its \<leftarrow> for_up isp1 iend (\<lambda>i its. do { x \<leftarrow> rd (kernel_items st) i; push (iend - isp1) x its }) [];
        Some (st\<lparr>states := states st @
          [\<lparr>link = None, number = length (states st), accessing_symbol = symbol, items = its\<rparr>]\<rparr>) }))"

definition same_items :: "nat list \<Rightarrow> nat \<Rightarrow> nat \<Rightarrow> nat list \<Rightarrow> bool option" where
  "same_items ki isp1 iend its = do {
     (found, isp1, isp2) \<leftarrow> whileM (\<lambda>(found, isp1, isp2). Some (found \<and> isp1 < iend))
       (\<lambda>(found, isp1, isp2). do {
          x \<leftarrow> rd ki isp1;
          y \<leftarrow> rd its isp2;
          Some (x = y, isp1 + 1, isp2 + 1) })
       (True, isp1, 0);
     Some found }"

definition find_state ::
    "nat list \<Rightarrow> nat \<Rightarrow> nat \<Rightarrow> nat \<Rightarrow> lr0_state \<times> nat \<times> bool \<Rightarrow> (lr0_error + lr0_state \<times> nat \<times> bool) option" where
  "find_state kernel_base symbol isp1 iend = (\<lambda>(st, sp, _).
     bindE (liftE (do {
         p \<leftarrow> rd (states st) sp;
         found \<leftarrow> (if length (items p) = iend - isp1 then same_items (kernel_items st) isp1 iend (items p) else Some False);
         Some (found, link p) }))
       (\<lambda>(found, lnk).
         if found then returnE (st, sp, True)
         else (case lnk of
             Some l \<Rightarrow> returnE (st, l, False)
           | None \<Rightarrow> bindE (new_state kernel_base symbol st) (\<lambda>st'.
               liftE (do {
                 p \<leftarrow> rd (states st') sp;
                 let l = length (states st);
                 ps \<leftarrow> wr (states st') sp (p\<lparr>link := Some l\<rparr>);
                 Some (st'\<lparr>states := ps\<rparr>, l, True) })))))"

definition get_state :: "grammar \<Rightarrow> nat list \<Rightarrow> nat \<Rightarrow> lr0_state \<Rightarrow> (lr0_error + nat \<times> lr0_state) option" where
  "get_state G kernel_base symbol st =
     bindE (liftE (do {
         isp1 \<leftarrow> rd kernel_base symbol;
         e \<leftarrow> rd (kernel_end st) symbol;
         iend \<leftarrow> e;
         key \<leftarrow> rd (kernel_items st) isp1;
         guard (key < nitems G);
         sp \<leftarrow> rd (state_set st) key;
         Some (isp1, iend, key, sp) }))
       (\<lambda>(isp1, iend, key, sp).
         case sp of
           Some sp \<Rightarrow>
             bindE (whileE (\<lambda>(st, sp, found). \<not> found) (find_state kernel_base symbol isp1 iend) (st, sp, False))
               (\<lambda>(st, sp, _). liftE (do { p \<leftarrow> rd (states st) sp; Some (number p, st) }))
         | None \<Rightarrow>
             bindE (new_state kernel_base symbol st) (\<lambda>st'. liftE (do {
               let l = length (states st);
               ss \<leftarrow> wr (state_set st') key (Some l);
               p \<leftarrow> rd (states st') l;
               Some (number p, st'\<lparr>state_set := ss\<rparr>) })))"

definition sort_symbols :: "nat list \<Rightarrow> nat list option" where
  "sort_symbols syms = for_up 1 (length syms)
     (\<lambda>i syms. do {
        symbol \<leftarrow> rd syms i;
        (syms, j) \<leftarrow> whileM (\<lambda>(syms, j). if 0 < j then do { x \<leftarrow> rd syms (j - 1); Some (symbol < x) } else Some False)
          (\<lambda>(syms, j). do {
             x \<leftarrow> rd syms (j - 1);
             syms \<leftarrow> wr syms j x;
             Some (syms, j - 1) }) (syms, i);
        wr syms j symbol }) syms"

definition append_states :: "grammar \<Rightarrow> nat list \<Rightarrow> lr0_state \<Rightarrow> (lr0_error + nat list \<times> lr0_state) option" where
  "append_states G kernel_base st =
     bindE (liftE (sort_symbols (shift_symbol st))) (\<lambda>syms.
       foldE (\<lambda>symbol (shiftset, st).
           bindE (get_state G kernel_base symbol st) (\<lambda>(n, st).
             bindE (liftE (push (nsyms G) n shiftset)) (\<lambda>shiftset. returnE (shiftset, st))))
         syms ([], st\<lparr>shift_symbol := syms\<rparr>))"

definition save_shifts :: "nat \<Rightarrow> nat list \<Rightarrow> shifts list \<Rightarrow> shifts list" where
  "save_shifts this shiftset sl = sl @ [\<lparr>shifts_number = this, shift = shiftset\<rparr>]"

definition generate_step :: "grammar \<Rightarrow> u32 list \<Rightarrow> nat list \<Rightarrow> nat \<times> lr0_state \<Rightarrow> (lr0_error + nat \<times> lr0_state) option" where
  "generate_step G first_derives kernel_base = (\<lambda>(this, st).
     bindE (liftE (do {
         p \<leftarrow> rd (states st) this;
         itemset \<leftarrow> closure G first_derives (items p);
         reds \<leftarrow> save_reductions G (number p) itemset (reduction_list st);
         st \<leftarrow> new_itemsets G kernel_base itemset (st\<lparr>reduction_list := reds\<rparr>);
         Some (number p, st) }))
       (\<lambda>(n, st). bindE (append_states G kernel_base st) (\<lambda>(shiftset, st).
          returnE (this + 1,
            if 0 < length shiftset then st\<lparr>shift_list := save_shifts n shiftset (shift_list st)\<rparr> else st))))"

definition generate_states :: "grammar \<Rightarrow> nat option list \<Rightarrow> int list \<Rightarrow> u32 list \<Rightarrow> (lr0_error + lr0_state) option" where
  "generate_states G derives rules after =
     bindE (liftE (do {
         (kernel_base, kernel_items) \<leftarrow> allocate_itemsets G;
         first_derives \<leftarrow> set_first_derives G derives rules after;
         p \<leftarrow> initialize_states G derives rules;
         Some (kernel_base, kernel_items, first_derives, p) }))
       (\<lambda>(kernel_base, kernel_items, first_derives, p).
         bindE (whileE (\<lambda>(this, st). this < length (states st)) (generate_step G first_derives kernel_base)
             (0, \<lparr>states = [p], state_set = replicate (nitems G) None, kernel_items = kernel_items,
                  kernel_end = replicate (nsyms G) None, shift_symbol = [], shift_list = [], reduction_list = []\<rparr>))
           (\<lambda>(this, st). returnE st))"

definition lr0 :: "grammar \<Rightarrow> u32 list \<Rightarrow> (lr0_error + bool list \<times> lr0_state) option" where
  "lr0 G after =
     bindE (liftE (do {
         (derives, rules) \<leftarrow> set_derives G;
         nullable \<leftarrow> set_nullable G;
         Some (derives, rules, nullable) }))
       (\<lambda>(derives, rules, nullable).
         bindE (generate_states G derives rules after) (\<lambda>st. returnE (nullable, st)))"

section \<open>The regions of the kernel items\<close>

definition occurrences :: "grammar \<Rightarrow> nat \<Rightarrow> nat" where
  "occurrences G X = length (filter (\<lambda>s. s = int X) (ritem G))"

definition kbase :: "grammar \<Rightarrow> nat \<Rightarrow> nat" where
  "kbase G X = (\<Sum>Y \<leftarrow> [0..<X]. occurrences G Y)"

lemma kbase_Suc: "kbase G (Suc X) = kbase G X + occurrences G X"
  by (simp add: kbase_def)

lemma kbase_mono: "X \<le> Y \<Longrightarrow> kbase G X \<le> kbase G Y"
  by (rule lift_Suc_mono_le [of "kbase G"]) (simp_all add: kbase_Suc)

lemma kbase_disjoint: "X < Y \<Longrightarrow> kbase G X + occurrences G X \<le> kbase G Y"
  using kbase_mono [of "Suc X" Y G] by (simp add: kbase_Suc)

lemma ritem_range:
  assumes wf: "wf_grammar G" and i: "i < nitems G"
  shows "ritem G ! i < int (nsyms G)"
  using ritem_nsyms [OF wf, of i] i wf_grammarD(17) [OF wf] by (cases "i = 0") auto

lemma symbol_counts_ok:
  assumes "\<forall>s \<in> set xs. s < int n"
  shows "wp (foldM (\<lambda>symbol (count, symbol_count).
         if 0 \<le> symbol then do {
           k \<leftarrow> rd symbol_count (nat symbol);
           symbol_count \<leftarrow> wr symbol_count (nat symbol) (k + 1);
           Some (count + 1, symbol_count) }
         else Some (count, symbol_count)) xs (0, replicate n 0))
    (\<lambda>(count, sc). length sc = n \<and> count = sum_list sc \<and> (\<forall>X < n. sc ! X = length (filter (\<lambda>s. s = int X) xs)))"
proof -
  let ?I = "\<lambda>todo (count, sc). length sc = n \<and> count = sum_list sc \<and> (\<forall>s \<in> set todo. s < int n) \<and>
    (\<forall>X < n. sc ! X + length (filter (\<lambda>s. s = int X) todo) = length (filter (\<lambda>s. s = int X) xs))"
  show ?thesis
  proof (rule wp_mono [OF wp_foldM [where I = ?I]], goal_cases)
    case 1
    then show ?case using assms by (simp add: sum_list_replicate)
  next
    case (2 y ys s)
    then obtain sc where s: "s = (sum_list sc, sc)" "length sc = n" by (cases s) auto
    show ?case
    proof (cases "0 \<le> y")
      case True
      then have y: "nat y < n" "y = int X \<longleftrightarrow> X = nat y" for X using 2 s by auto
      then have "sum_list (sc[nat y := Suc (sc ! nat y)]) = Suc (sum_list sc)"
        using sum_list_update [of "nat y" sc] s(2) elem_le_sum_list [of "nat y" sc] by simp
      with 2 s y True show ?thesis by (auto simp: wp_simps nth_list_update split: if_splits)
    next
      case False
      with 2 s show ?thesis by (auto simp: wp_simps)
    qed
  next
    case (3 x)
    then show ?case by auto
  qed
qed

lemma allocate_itemsets_ok:
  assumes wf: "wf_grammar G"
  shows "wp (allocate_itemsets G) (\<lambda>(base, ki). length base = nsyms G \<and> length ki = kbase G (nsyms G) \<and>
     (\<forall>X < nsyms G. base ! X = kbase G X))"
proof -
  have range: "\<forall>s \<in> set (ritem G). s < int (nsyms G)"
    using ritem_range [OF wf] wf_grammarD(6) [OF wf] by (auto simp: in_set_conv_nth)
  have bases: "wp (for_up 0 (nsyms G) (\<lambda>i (kernel_base, count). do {
         n \<leftarrow> rd sc i;
         kernel_base \<leftarrow> wr kernel_base i count;
         Some (kernel_base, count + n) }) (replicate (nsyms G) 0, 0))
     (\<lambda>(base, _). length base = nsyms G \<and> (\<forall>X < nsyms G. base ! X = kbase G X))"
    if sc: "length sc = nsyms G" "\<forall>X < nsyms G. sc ! X = occurrences G X" for sc
  proof (rule wp_for_up [where I = "\<lambda>k (base, count). length base = nsyms G \<and> count = kbase G k \<and>
      (\<forall>X < k. base ! X = kbase G X)"], goal_cases)
    case 2
    then show ?case by (simp add: kbase_def)
  next
    case (3 i s)
    with sc show ?case by (auto simp: wp_simps kbase_Suc nth_list_update less_Suc_eq)
  qed auto
  have total: "sum_list sc = kbase G (nsyms G)"
    if "length sc = nsyms G" "\<forall>X < nsyms G. sc ! X = occurrences G X" for sc
  proof -
    have "sc = map (occurrences G) [0..<nsyms G]" using that by (auto intro: nth_equalityI)
    then show ?thesis by (simp add: kbase_def)
  qed
  show ?thesis
    unfolding allocate_itemsets_def Let_def
    by (simp only: wp_simps, rule wp_mono [OF symbol_counts_ok [OF range]], clarify)
      (rule wp_mono [OF bases], auto simp: occurrences_def total [unfolded occurrences_def])
qed

text \<open>The kernel reached from the items \<open>I\<close> by the symbol \<open>X\<close>.\<close>

definition goto_items :: "grammar \<Rightarrow> nat list \<Rightarrow> nat \<Rightarrow> nat list" where
  "goto_items G I X = map Suc (filter (\<lambda>i. ritem G ! i = int X) I)"

lemma goto_items_length:
  assumes "distinct I" "set I \<subseteq> {..<nitems G}" "length (ritem G) = nitems G"
  shows "length (goto_items G I X) \<le> occurrences G X"
proof -
  have "length (goto_items G I X) = card {i \<in> set I. ritem G ! i = int X}"
    using distinct_card [of "filter (\<lambda>i. ritem G ! i = int X) I"] assms(1) by (simp add: goto_items_def)
  also have "\<dots> \<le> card {i. i < length (ritem G) \<and> ritem G ! i = int X}"
    using assms(2,3) by (intro card_mono) auto
  finally show ?thesis by (simp add: occurrences_def length_filter_conv_card)
qed

text \<open>What the kernel arrays hold after the items \<open>I\<close> have been looked at.\<close>

definition kernels_ok :: "grammar \<Rightarrow> nat list \<Rightarrow> nat list \<times> nat option list \<times> nat list \<Rightarrow> bool" where
  "kernels_ok G I = (\<lambda>(ki, ke, ss). length ki = kbase G (nsyms G) \<and> length ke = nsyms G \<and>
     distinct ss \<and> set ss = {X. 0 < X \<and> X < nsyms G \<and> goto_items G I X \<noteq> []} \<and>
     (\<forall>X. 0 < X \<and> X < nsyms G \<longrightarrow> segment ki (kbase G X) (goto_items G I X) \<and>
        ke ! X = (if goto_items G I X = [] then None else Some (kbase G X + length (goto_items G I X)))))"

lemma segment_region:
  assumes "segment ki (kbase G X) xs" "segment ki (kbase G Y) ys" "X \<noteq> Y"
    "length xs \<le> occurrences G X" "length ys < occurrences G Y"
  shows "segment (ki[kbase G Y + length ys := v]) (kbase G X) xs"
proof (rule segment_update [OF assms(1)])
  show "kbase G Y + length ys < kbase G X \<or> kbase G X + length xs \<le> kbase G Y + length ys"
    using kbase_disjoint [of X Y G] kbase_disjoint [of Y X G] assms(3-5) by (cases "X < Y") auto
qed

lemma distinct_bounded: "distinct xs \<Longrightarrow> set xs \<subseteq> {..<n} \<Longrightarrow> length xs \<le> n"
  using card_mono [of "{..<n}" "set xs"] distinct_card [of xs] by simp

lemma new_itemset_step_ok:
  assumes wf: "wf_grammar G" and I: "distinct (I @ [i])" "set (I @ [i]) \<subseteq> {..<nitems G}"
    and base: "length base = nsyms G" "\<forall>X < nsyms G. base ! X = kbase G X" and ok: "kernels_ok G I s"
  shows "wp (new_itemset_step G base i s) (kernels_ok G (I @ [i]))"
proof -
  obtain ki ke ss where s: "s = (ki, ke, ss)" by (cases s)
  note ok = ok [unfolded s kernels_ok_def prod.case]
  have goto: "goto_items G (I @ [i]) X = goto_items G I X @ (if ritem G ! i = int X then [Suc i] else [])" for X
    by (simp add: goto_items_def)
  have i: "i < nitems G" using I by simp
  note len = goto_items_length [OF I wf_grammarD(6) [OF wf]]
  show ?thesis
  proof (cases "0 < ritem G ! i")
    case False
    then have "goto_items G (I @ [i]) X = goto_items G I X" if "0 < X" for X using that by (auto simp: goto)
    then have "kernels_ok G (I @ [i]) s" using ok unfolding kernels_ok_def s prod.case by (simp cong: conj_cong imp_cong)
    moreover have "new_itemset_step G base i s = Some s"
      using False i by (simp add: s new_itemset_step_def rd_def wf_grammarD(6) [OF wf])
    ultimately show ?thesis by (simp add: wp_def)
  next
    case True
    define X where "X = nat (ritem G ! i)"
    have X: "ritem G ! i = int X" "0 < X" "X < nsyms G" using True ritem_range [OF wf i] by (auto simp: X_def)
    let ?k = "kbase G X + length (goto_items G I X)"
    have room: "length (goto_items G I X) < occurrences G X" using len [of X] X by (simp add: goto)
    then have k: "?k < length ki"
      using kbase_disjoint [of X "nsyms G" G] X(3) ok by simp
    have seg: "segment (ki[?k := Suc i]) (kbase G Y) (goto_items G (I @ [i]) Y)" if "0 < Y" "Y < nsyms G" for Y
    proof (cases "Y = X")
      case True
      with ok X k show ?thesis by (simp add: goto segment_snoc_update)
    next
      case False
      with ok X that len [of Y] room show ?thesis by (auto simp: goto intro!: segment_region)
    qed
    have cap: "length ss < nsyms G" if "goto_items G I X = []"
    proof -
      have "distinct (X # ss)" "set (X # ss) \<subseteq> {..<nsyms G}" using ok that X by auto
      from distinct_bounded [OF this] show ?thesis by simp
    qed
    let ?new = "goto_items G I X = []"
    let ?s' = "(ki[?k := Suc i], ke[X := Some (Suc ?k)], if ?new then ss @ [X] else ss)"
    have keX: "ke ! X = (if ?new then None else Some ?k)" using ok X by auto
    have "new_itemset_step G base i s = Some ?s'"
      using X k base i cap ok keX
      by (simp add: s new_itemset_step_def wf_grammarD(6) [OF wf] rd_def wr_def push_def)
    moreover have "kernels_ok G (I @ [i]) ?s'"
      unfolding kernels_ok_def prod.case
    proof (intro conjI allI impI, goal_cases)
      case 4
      have "set ss = {Y. 0 < Y \<and> Y < nsyms G \<and> goto_items G I Y \<noteq> []}" using ok by simp
      with X show ?case by (auto simp: goto)
    next
      case (5 Y)
      then show ?case using seg by simp
    next
      case (6 Y)
      then have "ke ! Y = (if goto_items G I Y = [] then None else Some (kbase G Y + length (goto_items G I Y)))"
        using ok by simp
      then show ?case using X ok by (cases "Y = X") (simp_all add: goto)
    qed (use ok in auto)
    ultimately show ?thesis by (simp add: wp_def)
  qed
qed

lemma new_itemsets_ok:
  assumes wf: "wf_grammar G" and I: "distinct I" "set I \<subseteq> {..<nitems G}"
    and base: "length base = nsyms G" "\<forall>X < nsyms G. base ! X = kbase G X"
    and ki: "length (kernel_items st) = kbase G (nsyms G)"
  shows "wp (new_itemsets G base I st) (\<lambda>st'. kernels_ok G I (kernel_items st', kernel_end st', shift_symbol st') \<and>
     st' = st\<lparr>kernel_items := kernel_items st', kernel_end := kernel_end st', shift_symbol := shift_symbol st'\<rparr>)"
proof -
  have "wp (foldM (new_itemset_step G base) I (kernel_items st, replicate (nsyms G) None, []))
    (\<lambda>s. \<exists>don. I = don @ [] \<and> kernels_ok G don s)"
  proof (rule wp_foldM [where I = "\<lambda>todo s. \<exists>don. I = don @ todo \<and> kernels_ok G don s"], goal_cases)
    case 1
    have "segment (kernel_items st) (kbase G X) []" if "X < nsyms G" for X
      using kbase_mono [of X "nsyms G" G] that ki by (simp add: segment_Nil)
    then show ?case using ki by (auto simp: kernels_ok_def goto_items_def)
  next
    case (2 i todo s)
    then obtain don where don: "I = (don @ [i]) @ todo" "kernels_ok G don s" by auto
    then show ?case using I
      by (intro wp_mono [OF new_itemset_step_ok [OF wf _ _ base don(2)]]) auto
  qed
  then show ?thesis unfolding new_itemsets_def by (auto simp: wp_simps elim!: wp_mono)
qed

section \<open>The state table\<close>

lemma same_items_ok:
  assumes seg: "segment ki a ks" and len: "length its = length ks"
  shows "same_items ki a (a + length ks) its = Some (its = ks)"
proof -
  have "wp (same_items ki a (a + length ks) its) (\<lambda>r. r = (its = ks))"
    unfolding same_items_def
  proof (simp only: wp_simps, rule wp_whileM [where m = "\<lambda>(f, i, j). length ks - j" and
      I = "\<lambda>(f, i, j). i = a + j \<and> j \<le> length ks \<and> (if f then take j its = take j ks else its \<noteq> ks)"], goal_cases)
    case 1
    then show ?case by simp
  next
    case (2 s)
    then obtain f j where s: "s = (f, a + j, j)" and j: "j \<le> length ks" and f: "if f then take j its = take j ks else its \<noteq> ks"
      by auto
    show ?case
    proof (cases "f \<and> j < length ks")
      case True
      then have "ki ! (a + j) = ks ! j" "a + j < length ki" using seg by (auto simp: segment_def)
      with True f len show ?thesis
        by (auto simp: s wp_simps take_Suc_conv_app_nth)
    next
      case False
      with f j len show ?thesis by (cases f) (auto simp: s wp_simps)
    qed
  qed
  then show ?thesis by (simp add: wp_def)
qed

lemma copy_items:
  assumes "segment ki a ks"
  shows "for_up a (a + length ks) (\<lambda>i its. do { x \<leftarrow> rd ki i; push (length ks) x its }) [] = Some ks"
proof -
  have "wp (for_up a (a + length ks) (\<lambda>i its. do { x \<leftarrow> rd ki i; push (length ks) x its }) []) (\<lambda>r. r = ks)"
  proof (rule wp_for_up [where I = "\<lambda>i its. its = take (i - a) ks"], goal_cases)
    case (3 i its)
    then have "ki ! i = ks ! (i - a)" "i < length ki"
      using assms by (auto simp: segment_def dest!: spec [of _ "i - a"])
    with 3 show ?case by (auto simp: wp_simps Suc_diff_le take_Suc_conv_app_nth)
  qed auto
  then show ?thesis by (simp add: wp_def)
qed

text \<open>The kernels of the successors of the current state, as the search for a state sees them.\<close>

definition kernel_of :: "nat list \<Rightarrow> lr0_state \<Rightarrow> nat \<Rightarrow> nat list \<Rightarrow> bool" where
  "kernel_of base st X ks \<longleftrightarrow> ks \<noteq> [] \<and> X < length base \<and> X < length (kernel_end st) \<and>
     kernel_end st ! X = Some (base ! X + length ks) \<and> segment (kernel_items st) (base ! X) ks"

definition add_state :: "nat \<Rightarrow> nat list \<Rightarrow> lr0_state \<Rightarrow> lr0_state" where
  "add_state X ks st = st\<lparr>states := states st @
     [\<lparr>link = None, number = length (states st), accessing_symbol = X, items = ks\<rparr>]\<rparr>"

lemma new_state_eq:
  assumes "kernel_of base st X ks"
  shows "new_state base X st = (if MAXSHORT \<le> length (states st) then throwE Too_many_states else returnE (add_state X ks st))"
  using assms by (auto simp: kernel_of_def new_state_def add_state_def rd_Some copy_items liftE_def returnE_def)

text \<open>\<open>chain lk ns o\<close>: following the links \<open>lk\<close> from \<open>o\<close> visits exactly the states \<open>ns\<close>.\<close>

primrec chain :: "nat option list \<Rightarrow> nat list \<Rightarrow> nat option \<Rightarrow> bool" where
  "chain lk [] p \<longleftrightarrow> p = None"
| "chain lk (n # ns) p \<longleftrightarrow> p = Some n \<and> n < length lk \<and> chain lk ns (lk ! n)"

lemma chain_bounds: "chain lk ns p \<Longrightarrow> set ns \<subseteq> {..<length lk}"
  by (induction ns arbitrary: p) auto

lemma chain_append_other: "chain lk ns p \<Longrightarrow> chain (lk @ xs) ns p"
  by (induction ns arbitrary: p) (auto simp: nth_append)

lemma chain_update_other: "chain lk ns p \<Longrightarrow> k \<notin> set ns \<Longrightarrow> chain (lk[k := v]) ns p"
  by (induction ns arbitrary: p) auto

lemma chain_snoc:
  assumes "chain lk (ns @ [k]) p" "distinct (ns @ [k])"
  shows "chain ((lk @ [None])[k := Some (length lk)]) (ns @ [k, length lk]) p"
  using assms
proof (induction ns arbitrary: p)
  case Nil
  then show ?case by (auto simp: nth_append nth_list_update)
next
  case (Cons n ns)
  then show ?case by (auto simp: nth_append nth_list_update)
qed

text \<open>
  The invariant of the table: the states are numbered in order, their kernels are distinct and, for
  every item, the chain that starts in \<open>state_set\<close> visits exactly the states (the initial one apart)
  whose kernel starts with this item.
\<close>

definition bucket :: "core list \<Rightarrow> nat \<Rightarrow> nat set" where
  "bucket ps k = {n. 0 < n \<and> n < length ps \<and> hd (items (ps ! n)) = k}"

definition table_ok :: "nat \<Rightarrow> core list \<Rightarrow> nat option list \<Rightarrow> bool" where
  "table_ok N ps ss \<longleftrightarrow> ps \<noteq> [] \<and> length ps \<le> MAXSHORT \<and> length ss = N \<and> distinct (map items ps) \<and>
     map number ps = [0..<length ps] \<and>
     (\<forall>k < N. \<exists>ns. distinct ns \<and> chain (map link ps) ns (ss ! k) \<and> set ns = bucket ps k)"

abbreviation core_of :: "nat option \<Rightarrow> nat \<Rightarrow> nat \<Rightarrow> nat list \<Rightarrow> core" where
  "core_of l n X ks \<equiv> \<lparr>link = l, number = n, accessing_symbol = X, items = ks\<rparr>"

lemma bucket_snoc:
  assumes "ps \<noteq> []"
  shows "bucket (ps @ [core_of l n X ks]) k = (if hd ks = k then insert (length ps) (bucket ps k) else bucket ps k)"
  using assms by (auto simp: bucket_def nth_append less_Suc_eq)

lemma bucket_update: "bucket (ps[i := (ps ! i)\<lparr>link := l\<rparr>]) k = bucket ps k"
  by (cases "i < length ps") (auto simp: bucket_def nth_list_update)

lemma map_link_update:
  "map items (ps[i := (ps ! i)\<lparr>link := l\<rparr>]) = map items ps"
  "map number (ps[i := (ps ! i)\<lparr>link := l\<rparr>]) = map number ps"
  "map accessing_symbol (ps[i := (ps ! i)\<lparr>link := l\<rparr>]) = map accessing_symbol ps"
  by (cases "i < length ps"; auto intro!: nth_equalityI simp: nth_list_update)+

lemma table_ok_chain:
  assumes "table_ok N ps ss" "k < N"
  obtains ns where "distinct ns" "chain (map link ps) ns (ss ! k)" "set ns = bucket ps k"
  using assms unfolding table_ok_def by blast

lemma table_new_chain:
  assumes t: "table_ok N ps ss" and len: "length ps < MAXSHORT" and ks: "ks \<notin> items ` set ps" "hd ks < N"
    and empty: "ss ! hd ks = None"
  shows "table_ok N (ps @ [core_of None (length ps) X ks]) (ss[hd ks := Some (length ps)])"
  unfolding table_ok_def
proof (intro conjI allI impI)
  note t' = t [unfolded table_ok_def]
  fix k assume k: "k < N"
  obtain ns where ns: "distinct ns" "chain (map link ps) ns (ss ! k)" "set ns = bucket ps k"
    by (rule table_ok_chain [OF t k])
  have nonempty: "ps \<noteq> []" using t' by simp
  show "\<exists>ns. distinct ns \<and> chain (map link (ps @ [core_of None (length ps) X ks])) ns (ss[hd ks := Some (length ps)] ! k) \<and>
      set ns = bucket (ps @ [core_of None (length ps) X ks]) k"
  proof (cases "k = hd ks")
    case True
    then have "ns = []" using ns(2) empty by (cases ns) auto
    with True ns(3) ks(2) t' show ?thesis
      by (intro exI [of _ "[length ps]"]) (auto simp: bucket_snoc [OF nonempty] nth_append)
  next
    case False
    with ns show ?thesis
      by (intro exI [of _ ns]) (auto simp: bucket_snoc [OF nonempty] chain_append_other)
  qed
qed (use t len ks in \<open>auto simp: table_ok_def\<close>)

lemma table_extend_chain:
  assumes t: "table_ok N ps ss" and len: "length ps < MAXSHORT" and ks: "ks \<notin> items ` set ps" "hd ks < N"
    and c: "distinct (ns @ [sp])" "chain (map link ps) (ns @ [sp]) (ss ! hd ks)" "set (ns @ [sp]) = bucket ps (hd ks)"
    and ps': "ps' = ps @ [core_of None (length ps) X ks]"
  shows "table_ok N (ps'[sp := (ps' ! sp)\<lparr>link := Some (length ps)\<rparr>]) ss"
  unfolding table_ok_def map_link_update bucket_update
proof (intro conjI allI impI)
  note t' = t [unfolded table_ok_def]
  have nonempty: "ps \<noteq> []" using t' by simp
  have sp: "sp < length ps" "sp \<in> bucket ps (hd ks)" using c(3) by (auto simp: bucket_def)
  have links: "map link (ps'[sp := (ps' ! sp)\<lparr>link := Some (length ps)\<rparr>]) = (map link ps @ [None])[sp := Some (length ps)]"
    by (simp add: ps' map_update)
  fix k assume k: "k < N"
  obtain ms where ms: "distinct ms" "chain (map link ps) ms (ss ! k)" "set ms = bucket ps k"
    by (rule table_ok_chain [OF t k])
  show "\<exists>ns. distinct ns \<and> chain (map link (ps'[sp := (ps' ! sp)\<lparr>link := Some (length ps)\<rparr>])) ns (ss ! k) \<and> set ns = bucket ps' k"
  proof (cases "k = hd ks")
    case True
    have "chain ((map link ps @ [None])[sp := Some (length ps)]) (ns @ [sp, length ps]) (ss ! k)"
      using chain_snoc [OF c(2,1)] True by simp
    moreover have "distinct (ns @ [sp, length ps])" "set (ns @ [sp, length ps]) = bucket ps' k"
      using c chain_bounds [OF c(2)] True by (auto simp: ps' bucket_snoc [OF nonempty])
    ultimately show ?thesis unfolding links by blast
  next
    case False
    then have "sp \<notin> set ms" using ms(3) sp(2) by (auto simp: bucket_def)
    with ms False show ?thesis
      unfolding links by (intro exI [of _ ms]) (auto simp: ps' bucket_snoc [OF nonempty] chain_append_other chain_update_other)
  qed
qed (use t len ks in \<open>auto simp: table_ok_def ps'\<close>)

text \<open>\<open>enter N X ks st n st'\<close>: \<open>st'\<close> is \<open>st\<close> with the kernel \<open>ks\<close> entered, if it was new, and \<open>n\<close> is its number.\<close>

definition enter :: "nat \<Rightarrow> nat \<Rightarrow> nat list \<Rightarrow> lr0_state \<Rightarrow> nat \<Rightarrow> lr0_state \<Rightarrow> bool" where
  "enter N X ks st n st' \<longleftrightarrow> table_ok N (states st') (state_set st') \<and>
     map items (states st') = (if ks \<in> items ` set (states st) then map items (states st) else map items (states st) @ [ks]) \<and>
     map accessing_symbol (states st') =
       (if ks \<in> items ` set (states st) then map accessing_symbol (states st) else map accessing_symbol (states st) @ [X]) \<and>
     n < length (states st') \<and> items (states st' ! n) = ks \<and>
     st' = st\<lparr>states := states st', state_set := state_set st'\<rparr>"

definition table_full :: "nat list \<Rightarrow> lr0_state \<Rightarrow> bool" where
  "table_full ks st \<longleftrightarrow> MAXSHORT \<le> length (states st) \<and> ks \<notin> items ` set (states st)"

lemma find_state_eq:
  assumes k: "kernel_of base st X ks" and sp: "sp < length (states st)"
  shows "find_state base X (base ! X) (base ! X + length ks) (st, sp, f) =
    (if items (states st ! sp) = ks then returnE (st, sp, True)
     else case link (states st ! sp) of
         Some l \<Rightarrow> returnE (st, l, False)
       | None \<Rightarrow> if MAXSHORT \<le> length (states st) then throwE Too_many_states
           else let ps = states (add_state X ks st) in
             returnE (st\<lparr>states := ps[sp := (ps ! sp)\<lparr>link := Some (length (states st))\<rparr>]\<rparr>, length (states st), True))"
proof -
  let ?p = "states st ! sp"
  have seg: "segment (kernel_items st) (base ! X) ks" using k by (simp add: kernel_of_def)
  have "(if length (items ?p) = base ! X + length ks - base ! X
      then same_items (kernel_items st) (base ! X) (base ! X + length ks) (items ?p) else Some False) = Some (items ?p = ks)"
    using same_items_ok [OF seg, of "items ?p"] by auto
  then show ?thesis
    using sp by (auto simp: find_state_def rd_Some liftE_def bindE_def new_state_eq [OF k] returnE_def throwE_def
        add_state_def wr_def nth_append Let_def split: option.splits)
qed

lemma chain_link: "chain lk (ms @ sp # ns) p \<Longrightarrow> sp < length lk \<and> chain lk ns (lk ! sp)"
  by (induction ms arbitrary: p) auto

lemma not_entered:
  assumes "table_ok N ps ss" "ks \<noteq> items (ps ! 0)" "\<forall>n \<in> bucket ps (hd ks). items (ps ! n) \<noteq> ks"
  shows "ks \<notin> items ` set ps"
proof
  assume "ks \<in> items ` set ps"
  then obtain n where "n < length ps" "ks = items (ps ! n)" by (auto simp: in_set_conv_nth)
  then show False using assms by (cases "n = 0") (auto simp: bucket_def)
qed

lemma find_state_loop:
  assumes k: "kernel_of base st X ks" and t: "table_ok N (states st) (state_set st)"
    and ks: "hd ks < N" "ks \<noteq> items (states st ! 0)"
    and c: "distinct (ms @ sp # ns)" "chain (map link (states st)) (ms @ sp # ns) (state_set st ! hd ks)"
      "set (ms @ sp # ns) = bucket (states st) (hd ks)" and no: "\<forall>n \<in> set ms. items (states st ! n) \<noteq> ks"
  shows "wpE (whileE (\<lambda>(st, sp, found). \<not> found) (find_state base X (base ! X) (base ! X + length ks)) (st, sp, False))
     (\<lambda>(st', n, _). enter N X ks st n st') (\<lambda>e. table_full ks st)"
  using c no
proof (induction ns arbitrary: ms sp)
  case Nil
  note lk = chain_link [OF Nil.prems(2)]
  then have sp: "sp < length (states st)" "link (states st ! sp) = None" by auto
  show ?case
  proof (cases "items (states st ! sp) = ks")
    case True
    with sp t have "enter N X ks st sp st" by (auto simp: enter_def)
    with True sp show ?thesis by (simp add: whileE_True whileE_False find_state_eq [OF k] wpE_simps)
  next
    case False
    with Nil.prems(3,4) have new: "ks \<notin> items ` set (states st)" by (intro not_entered [OF t ks(2)]) auto
    let ?ps = "states (add_state X ks st)"
    have ps: "?ps = states st @ [core_of None (length (states st)) X ks]" by (simp add: add_state_def)
    let ?st' = "st\<lparr>states := ?ps[sp := (?ps ! sp)\<lparr>link := Some (length (states st))\<rparr>]\<rparr>"
    have "enter N X ks st (length (states st)) ?st'" if "length (states st) < MAXSHORT"
      using table_extend_chain [OF t that new ks(1) Nil.prems(1-3) ps] new sp
      by (simp add: enter_def map_link_update) (simp add: ps)
    with False sp new show ?thesis
      by (simp add: whileE_True whileE_False find_state_eq [OF k] wpE_simps Let_def table_full_def)
  qed
next
  case (Cons n ns)
  note lk = chain_link [OF Cons.prems(2)]
  then have sp: "sp < length (states st)" "link (states st ! sp) = Some n" by auto
  show ?case
  proof (cases "items (states st ! sp) = ks")
    case True
    with sp t have "enter N X ks st sp st" by (auto simp: enter_def)
    with True sp show ?thesis by (simp add: whileE_True whileE_False find_state_eq [OF k] wpE_simps)
  next
    case False
    with Cons.prems have "wpE (whileE (\<lambda>(st, sp, found). \<not> found)
        (find_state base X (base ! X) (base ! X + length ks)) (st, n, False))
       (\<lambda>(st', n, _). enter N X ks st n st') (\<lambda>e. table_full ks st)"
      by (intro Cons.IH [of "ms @ [sp]"]) auto
    with False sp show ?thesis by (simp add: whileE_True find_state_eq [OF k] wpE_simps)
  qed
qed

lemma get_state_ok:
  assumes k: "kernel_of base st X ks" and t: "table_ok (nitems G) (states st) (state_set st)"
    and ks: "hd ks < nitems G" "ks \<noteq> items (states st ! 0)"
  shows "wpE (get_state G base X st) (\<lambda>(n, st'). enter (nitems G) X ks st n st') (\<lambda>e. table_full ks st)"
proof -
  have len: "length (state_set st) = nitems G" using t by (simp add: table_ok_def)
  have numbers: "n < length ps \<Longrightarrow> number (ps ! n) = n" if "table_ok N ps ss" for N ps ss n
    using that nth_map [of n ps number] by (simp add: table_ok_def)
  obtain ns where ns: "distinct ns" "chain (map link (states st)) ns (state_set st ! hd ks)"
    "set ns = bucket (states st) (hd ks)" by (rule table_ok_chain [OF t ks(1)])
  have start: "do {
         isp1 \<leftarrow> rd base X;
         e \<leftarrow> rd (kernel_end st) X;
         iend \<leftarrow> e;
         key \<leftarrow> rd (kernel_items st) isp1;
         guard (key < nitems G);
         sp \<leftarrow> rd (state_set st) key;
         Some (isp1, iend, key, sp) } = Some (base ! X, base ! X + length ks, hd ks, state_set st ! hd ks)"
    using k ks(1) len by (cases ks) (auto simp: kernel_of_def rd_def guard_def segment_Cons)
  show ?thesis
  proof (cases ns)
    case Nil
    with ns have none: "state_set st ! hd ks = None" "bucket (states st) (hd ks) = {}" by auto
    then have new: "ks \<notin> items ` set (states st)" using not_entered [OF t ks(2)] by simp
    let ?st' = "(add_state X ks st)\<lparr>state_set := (state_set st)[hd ks := Some (length (states st))]\<rparr>"
    have "enter (nitems G) X ks st (length (states st)) ?st'" if "length (states st) < MAXSHORT"
      using table_new_chain [OF t that new ks(1) none(1), of X] new by (simp add: enter_def add_state_def)
    with new ks(1) len show ?thesis
      unfolding get_state_def start
      by (simp add: wpE_simps wp_simps none new_state_eq [OF k] table_full_def Let_def add_state_def)
  next
    case (Cons sp ns')
    then have sp: "state_set st ! hd ks = Some sp" using ns by simp
    have "wpE (whileE (\<lambda>(st, sp, found). \<not> found) (find_state base X (base ! X) (base ! X + length ks)) (st, sp, False))
       (\<lambda>(st', n, _). enter (nitems G) X ks st n st') (\<lambda>e. table_full ks st)"
      using ns Cons by (intro find_state_loop [OF k t ks, of "[]"]) auto
    then show ?thesis
      unfolding get_state_def start
      by (simp add: wpE_simps wp_simps sp) (erule wpE_mono, auto simp: wp_simps enter_def numbers)
  qed
qed

section \<open>The order of the shifts\<close>

lemma insert_symbol:
  assumes x: "i < length xs" "x = xs ! i" and sorted: "sorted (take i xs)"
  shows "wp (do {
       (ys, j) \<leftarrow> whileM (\<lambda>(ys, j). if 0 < j then do { y \<leftarrow> rd ys (j - 1); Some (x < y) } else Some False)
         (\<lambda>(ys, j). do { y \<leftarrow> rd ys (j - 1); ys \<leftarrow> wr ys j y; Some (ys, j - 1) }) (xs, i);
       wr ys j x }) (\<lambda>ys. mset ys = mset xs \<and> length ys = length xs \<and> sorted (take (Suc i) ys))"
proof -
  define pre where "pre = take i xs"
  have pre: "length pre = i" "sorted pre" "xs = pre @ x # drop (Suc i) xs"
    using x sorted by (auto simp: pre_def id_take_nth_drop)
  have main: "wp (whileM (\<lambda>(ys, j). if 0 < j then do { y \<leftarrow> rd ys (j - 1); Some (x < y) } else Some False)
         (\<lambda>(ys, j). do { y \<leftarrow> rd ys (j - 1); ys \<leftarrow> wr ys j y; Some (ys, j - 1) }) (xs, i))
      (\<lambda>(ys, j). \<exists>h. j \<le> i \<and> ys = take j pre @ h # drop j pre @ drop (Suc i) xs \<and>
         (\<forall>y \<in> set (drop j pre). x < y) \<and> (0 < j \<longrightarrow> pre ! (j - 1) \<le> x))"
  proof (rule wp_whileM [where I = "\<lambda>(ys, j). \<exists>h. j \<le> i \<and> ys = take j pre @ h # drop j pre @ drop (Suc i) xs \<and>
         (\<forall>y \<in> set (drop j pre). x < y)" and m = "\<lambda>(ys, j). j"], goal_cases)
    case 1
    then show ?case using pre(1) by simp (rule exI, rule pre(3))
  next
    case (2 s)
    then obtain h j where s: "s = (take j pre @ h # drop j pre @ drop (Suc i) xs, j)" and j: "j \<le> i"
      and gt: "\<forall>y \<in> set (drop j pre). x < y" by auto
    show ?case
    proof (cases j)
      case 0
      then show ?thesis using gt by (auto simp: s wp_simps)
    next
      case (Suc k)
      have k: "k < length pre" using Suc j pre by simp
      have split: "take (Suc k) pre = take k pre @ [pre ! k]" "drop k pre = pre ! k # drop (Suc k) pre"
        using k by (simp_all add: take_Suc_conv_app_nth Cons_nth_drop_Suc)
      show ?thesis
        using k gt j pre(1) Suc
        by (auto simp: s wp_simps split nth_append list_update_append min_def)
    qed
  qed
  have sorted': "sorted (take j pre @ x # drop j pre)" if "j \<le> i" "\<forall>y \<in> set (drop j pre). x < y" "0 < j \<longrightarrow> pre ! (j - 1) \<le> x" for j
  proof -
    have "\<forall>y \<in> set (take j pre). y \<le> x"
    proof
      fix y assume "y \<in> set (take j pre)"
      then obtain l where l: "l < j" "y = pre ! l" using that(1) pre(1) by (auto simp: in_set_conv_nth)
      then have "pre ! l \<le> pre ! (j - 1)" using pre(1,2) that(1) by (intro sorted_nth_mono) auto
      with l that(3) show "y \<le> x" by simp
    qed
    moreover have "sorted (take j pre)" "sorted (drop j pre)" using pre(2) by (simp_all add: sorted_wrt_take sorted_wrt_drop)
    ultimately show ?thesis using that(2) by (fastforce simp: sorted_append less_imp_le)
  qed
  have ms: "mset (take j pre @ x # drop j pre @ drop (Suc i) xs) = mset xs" for j
    using pre(3) by (metis append_take_drop_id mset_append mset.simps(2) union_mset_add_mset_left
        union_mset_add_mset_right union_assoc)
  have written: "wp (wr ys j x) (\<lambda>ys. mset ys = mset xs \<and> length ys = length xs \<and> sorted (take (Suc i) ys))"
    if "j \<le> i" "ys = take j pre @ h # drop j pre @ drop (Suc i) xs" "\<forall>y \<in> set (drop j pre). x < y"
      "0 < j \<longrightarrow> pre ! (j - 1) \<le> x" for ys j h
  proof -
    have eq: "ys[j := x] = take j pre @ x # drop j pre @ drop (Suc i) xs" "j < length ys" "length ys = length xs"
      using that(1,2) pre(1) x(1) by (auto simp: list_update_append min_def)
    have "take (Suc i) (ys[j := x]) = take j pre @ x # drop j pre"
      using that(1) pre(1) by (simp add: eq min_def Suc_diff_le take_Cons')
    then show ?thesis
      unfolding wp_wr using sorted' [OF that(1,3,4)] ms [of j] eq by (metis length_list_update)
  qed
  show ?thesis
    by (simp only: wp_bind, rule wp_mono [OF main], clarify) (rule written; assumption?; simp)
qed

lemma sort_symbols_ok: "sort_symbols xs = Some (sort xs)"
proof -
  have "wp (sort_symbols xs) (\<lambda>ys. ys = sort xs)"
    unfolding sort_symbols_def
  proof (cases "xs = []")
    case False
    show "wp (for_up 1 (length xs) (\<lambda>i syms. do {
        symbol \<leftarrow> rd syms i;
        (syms, j) \<leftarrow> whileM (\<lambda>(syms, j). if 0 < j then do { x \<leftarrow> rd syms (j - 1); Some (symbol < x) } else Some False)
          (\<lambda>(syms, j). do {
             x \<leftarrow> rd syms (j - 1);
             syms \<leftarrow> wr syms j x;
             Some (syms, j - 1) }) (syms, i);
        wr syms j symbol }) xs) (\<lambda>ys. ys = sort xs)"
    proof (rule wp_for_up [where I = "\<lambda>i ys. mset ys = mset xs \<and> length ys = length xs \<and> sorted (take i ys)"], goal_cases)
      case 2
      then show ?case by (cases xs) auto
    next
      case (3 i ys)
      then have "wp (rd ys i) (\<lambda>x. x = ys ! i)" by (simp add: wp_simps)
      with 3 show ?case
        by (subst wp_bind, elim wp_mono, intro wp_mono [OF insert_symbol [of i ys]]) auto
    next
      case (4 ys)
      then show ?case by (metis properties_for_sort order_refl take_all)
    qed (use False in \<open>auto simp: Suc_le_eq\<close>)
  qed (simp add: for_up_def wp_simps)
  then show ?thesis by (simp add: wp_def)
qed

end
