(* ===== verification/LR0_Automaton.thy ===== *)
theory LR0_Automaton
  imports LR0
begin

text \<open>
  The LR(0) automaton of a grammar as a set of kernels closed under the successor function, and the
  proof that \<open>generate_states\<close> (\<^verbatim>\<open>src/yacc/lr0.c\<close>) builds it: every reachable kernel is entered exactly
  once, with the shifts and the reductions of its closure.
\<close>

section \<open>The automaton\<close>

definition closure_list :: "grammar \<Rightarrow> nat list \<Rightarrow> nat list" where
  "closure_list G N = sorted_list_of_set (lr0_closure G (set N))"

definition goto :: "grammar \<Rightarrow> nat list \<Rightarrow> nat \<Rightarrow> nat list" where
  "goto G N X = goto_items G (closure_list G N) X"

definition shift_syms :: "grammar \<Rightarrow> nat list \<Rightarrow> nat list" where
  "shift_syms G N = filter (\<lambda>X. goto G N X \<noteq> []) [1..<nsyms G]"

definition complete_rules :: "grammar \<Rightarrow> nat list \<Rightarrow> nat list" where
  "complete_rules G N = map (\<lambda>i. nat (- (ritem G ! i))) (filter (\<lambda>i. ritem G ! i < 0) (closure_list G N))"

definition initial_kernel :: "grammar \<Rightarrow> nat list" where
  "initial_kernel G = map (\<lambda>r. rrhs G ! r) (rules_of G (start_symbol G))"

inductive lr0_kernel :: "grammar \<Rightarrow> nat list \<Rightarrow> bool" for G where
  initial: "lr0_kernel G (initial_kernel G)"
| shift: "lr0_kernel G N \<Longrightarrow> X \<in> set (shift_syms G N) \<Longrightarrow> lr0_kernel G (goto G N X)"

definition wf_kernel :: "grammar \<Rightarrow> nat list \<Rightarrow> bool" where
  "wf_kernel G N \<longleftrightarrow> sorted_wrt (<) N \<and> set N \<subseteq> {1..<nitems G}"

lemma lr0_closure_range:
  assumes wf: "wf_grammar G" and N: "set N \<subseteq> {1..<nitems G}"
  shows "lr0_closure G (set N) \<subseteq> {1..<nitems G}"
  using N first_item [OF wf] unfolding closure_items_eq [OF wf, symmetric]
  by (fastforce simp: closure_items_def closure_rules_def)

lemma closure_list_ok:
  assumes wf: "wf_grammar G" and N: "set N \<subseteq> {1..<nitems G}"
  shows "sorted_wrt (<) (closure_list G N)" "set (closure_list G N) = lr0_closure G (set N)"
    "set (closure_list G N) \<subseteq> {1..<nitems G}"
proof -
  have "finite (lr0_closure G (set N))" by (rule finite_subset [OF lr0_closure_range [OF wf N]]) simp
  then show "set (closure_list G N) = lr0_closure G (set N)" by (simp add: closure_list_def)
  with lr0_closure_range [OF wf N] show "set (closure_list G N) \<subseteq> {1..<nitems G}" by simp
  show "sorted_wrt (<) (closure_list G N)" by (simp add: closure_list_def)
qed

lemma closure_eq:
  assumes wf: "wf_grammar G" and fd: "first_derives_ok G fd" and N: "wf_kernel G N"
  shows "closure G fd N = Some (closure_list G N)"
proof -
  have N': "sorted_wrt (<) N" "set N \<subseteq> {1..<nitems G}" using N by (auto simp: wf_kernel_def)
  obtain I where I: "closure G fd N = Some I" "sorted_wrt (<) I" "set I = lr0_closure G (set N)"
    using closure_ok [OF wf fd N'] closure_items_eq [OF wf] by (auto simp: wp_def)
  have "I = closure_list G N"
    using strict_sorted_equal [OF I(2) closure_list_ok(1) [OF wf N'(2)]] I(3) closure_list_ok(2) [OF wf N'(2)] by simp
  with I show ?thesis by simp
qed

text \<open>An item whose next symbol is a symbol is followed by an item of the same rule.\<close>

lemma next_item:
  assumes wf: "wf_grammar G" and i: "1 \<le> i" "i < nitems G" and sym: "0 \<le> ritem G ! i"
  shows "Suc i < nitems G" "r < nrules G \<Longrightarrow> 2 \<le> r \<Longrightarrow> Suc i \<noteq> rrhs G ! r"
proof -
  obtain q where q: "2 \<le> q" "q < nrules G" "rrhs G ! q \<le> i" "i < rrhs G ! Suc q"
    by (rule item_in_rule [OF wf i])
  note rule = wf_grammarD(16) [OF wf q(1,2), unfolded wf_rule_def]
  have inside: "Suc i < rrhs G ! Suc q"
  proof (rule ccontr)
    assume "\<not> Suc i < rrhs G ! Suc q"
    then have "i = rrhs G ! Suc q - 1" using q by simp
    then have "ritem G ! i = - int q" using rule by simp
    with sym q show False by simp
  qed
  with rule show "Suc i < nitems G" by simp
  assume r: "r < nrules G" "2 \<le> r"
  show "Suc i \<noteq> rrhs G ! r"
  proof (cases "r \<le> q")
    case True
    then show ?thesis using rrhs_mono [OF wf r(2), of q] q by (cases "r = q") auto
  next
    case False
    then show ?thesis using rrhs_mono [OF wf, of "Suc q" r] inside q r by (cases "r = Suc q") auto
  qed
qed

lemma goto_ok:
  assumes wf: "wf_grammar G" and N: "wf_kernel G N"
  shows "wf_kernel G (goto G N X)" "X \<in> set (shift_syms G N) \<Longrightarrow> goto G N X \<noteq> initial_kernel G"
    "k \<in> set (goto G N X) \<Longrightarrow> ritem G ! (k - 1) = int X"
proof -
  have N': "set N \<subseteq> {1..<nitems G}" using N by (simp add: wf_kernel_def)
  note cl = closure_list_ok [OF wf N']
  show "ritem G ! (k - 1) = int X" if "k \<in> set (goto G N X)" for k
    using that by (auto simp: goto_def goto_items_def)
  have step: "Suc i < nitems G" "r < nrules G \<Longrightarrow> 2 \<le> r \<Longrightarrow> Suc i \<noteq> rrhs G ! r"
    if "i \<in> set (closure_list G N)" "ritem G ! i = int X" for i r
    using next_item(1) [OF wf, of i] next_item(2) [OF wf, of i r] cl(3) that by auto
  have "sorted_wrt (<) (goto G N X)"
    using cl(1) by (simp add: goto_def goto_items_def sorted_wrt_map sorted_wrt_filter)
  with step(1) show "wf_kernel G (goto G N X)" by (auto simp: wf_kernel_def goto_def goto_items_def)
  assume X: "X \<in> set (shift_syms G N)"
  have start: "r \<in> set (rules_of G (start_symbol G)) \<Longrightarrow> 2 \<le> r \<and> r < nrules G" for r
    using rules_of_iff [OF wf order_refl] by blast
  show "goto G N X \<noteq> initial_kernel G"
  proof
    assume eq: "goto G N X = initial_kernel G"
    from X obtain k where k: "k \<in> set (goto G N X)" by (cases "goto G N X") (auto simp: shift_syms_def)
    then obtain i where "k = Suc i" "i \<in> set (closure_list G N)" "ritem G ! i = int X"
      by (auto simp: goto_def goto_items_def)
    moreover from k eq obtain r where "k = rrhs G ! r" "r \<in> set (rules_of G (start_symbol G))"
      by (auto simp: initial_kernel_def)
    ultimately show False using step(2) start by metis
  qed
qed

lemma initial_kernel_wf:
  assumes wf: "wf_grammar G"
  shows "wf_kernel G (initial_kernel G)"
proof -
  have start: "2 \<le> r" "r < nrules G" if "r \<in> set (rules_of G (start_symbol G))" for r
    using that rules_of_iff [OF wf order_refl] by blast+
  have "sorted_wrt (<) (rules_of G (start_symbol G))" by (simp add: rules_of_def sorted_wrt_filter)
  then have "sorted_wrt (\<lambda>x y. rrhs G ! x < rrhs G ! y) (rules_of G (start_symbol G))"
    by (rule sorted_wrt_mono_rel [rotated]) (use start rrhs_mono [OF wf] in \<open>simp add: less_imp_le\<close>)
  then show ?thesis
    using start first_item [OF wf] by (auto simp: wf_kernel_def initial_kernel_def sorted_wrt_map)
qed

lemma lr0_kernel_wf:
  assumes wf: "wf_grammar G" and N: "lr0_kernel G N"
  shows "wf_kernel G N"
  using N by induction (auto intro: initial_kernel_wf goto_ok wf)

lemma finite_kernels: "finite {N. wf_kernel G N}"
proof (rule finite_subset)
  show "{N. wf_kernel G N} \<subseteq> {N. set N \<subseteq> {..<nitems G} \<and> length N \<le> nitems G}"
  proof safe
    fix N assume N: "wf_kernel G N"
    then have sub: "set N \<subseteq> {..<nitems G}" "distinct N" by (auto simp: wf_kernel_def strict_sorted_iff)
    then show "length N \<le> nitems G" by (intro distinct_bounded)
    fix x assume "x \<in> set N"
    with sub show "x < nitems G" by blast
  qed
qed (rule finite_lists_length_le, simp)

lemma complete_rule:
  assumes wf: "wf_grammar G" and i: "1 \<le> i" "i < nitems G" and neg: "ritem G ! i < 0"
  obtains r where "2 \<le> r" "r < nrules G" "i = rrhs G ! Suc r - 1" "ritem G ! i = - int r"
proof -
  obtain q where q: "2 \<le> q" "q < nrules G" "rrhs G ! q \<le> i" "i < rrhs G ! Suc q"
    by (rule item_in_rule [OF wf i])
  note rule = wf_grammarD(16) [OF wf q(1,2), unfolded wf_rule_def]
  have "i = rrhs G ! Suc q - 1"
  proof (rule ccontr)
    assume "i \<noteq> rrhs G ! Suc q - 1"
    with q have "Suc i < rrhs G ! Suc q" by simp
    with rule q(3) have "0 \<le> ritem G ! i" by blast
    with neg show False by simp
  qed
  with q rule that [of q] show thesis by simp
qed

lemma complete_rules_bound:
  assumes wf: "wf_grammar G" and I: "sorted_wrt (<) I" "set I \<subseteq> {1..<nitems G}"
  shows "length (filter (\<lambda>i. ritem G ! i < 0) I) \<le> nrules G"
proof -
  let ?f = "filter (\<lambda>i. ritem G ! i < 0) I"
  have rule: "\<exists>r. 2 \<le> r \<and> r < nrules G \<and> i = rrhs G ! Suc r - 1 \<and> nat (- (ritem G ! i)) = r" if "i \<in> set ?f" for i
  proof -
    from that I(2) have "1 \<le> i" "i < nitems G" "ritem G ! i < 0" by auto
    from complete_rule [OF wf this] show ?thesis by (metis minus_minus nat_int)
  qed
  have "inj_on (\<lambda>i. nat (- (ritem G ! i))) (set ?f)"
    by (rule inj_onI) (use rule in metis)
  moreover have "(\<lambda>i. nat (- (ritem G ! i))) ` set ?f \<subseteq> {..<nrules G}" using rule by fastforce
  ultimately have "card (set ?f) \<le> nrules G" using card_inj_on_le [of _ "set ?f" "{..<nrules G}"] by simp
  moreover have "distinct ?f" using I(1) by (simp add: strict_sorted_iff)
  ultimately show ?thesis by (metis distinct_card)
qed

lemma save_reductions_ok:
  assumes wf: "wf_grammar G" and I: "sorted_wrt (<) I" "set I \<subseteq> {1..<nitems G}"
  shows "save_reductions G n I reds = Some (let rs = map (\<lambda>i. nat (- (ritem G ! i))) (filter (\<lambda>i. ritem G ! i < 0) I) in
     if rs = [] then reds else reds @ [\<lparr>reductions_number = n, red_rules = rs\<rparr>])"
proof -
  let ?rs = "\<lambda>I. map (\<lambda>i. nat (- (ritem G ! i))) (filter (\<lambda>i. ritem G ! i < 0) I)"
  have "wp (foldM (\<lambda>isp redset. do {
         item \<leftarrow> rd (ritem G) isp;
         if item < 0 then push (nrules G + 1) (nat (- item)) redset else Some redset }) I [])
     (\<lambda>redset. \<exists>don. I = don @ [] \<and> redset = ?rs don)"
  proof (rule wp_foldM [where I = "\<lambda>todo redset. \<exists>don. I = don @ todo \<and> redset = ?rs don"], goal_cases)
    case (2 i todo redset)
    then obtain don where don: "I = don @ i # todo" "redset = ?rs don" by blast
    have "length (?rs don) < nrules G + 1"
      using complete_rules_bound [OF wf I] by (simp add: don)
    moreover have "i < length (ritem G)" using don I(2) wf_grammarD(6) [OF wf] by auto
    ultimately show ?case using don by (auto simp: wp_simps intro!: exI [of _ "don @ [i]"])
  qed simp
  then show ?thesis by (auto simp: save_reductions_def wp_def Let_def)
qed

text \<open>The number of a kernel in a list of kernels.\<close>

definition index_of :: "'a list \<Rightarrow> 'a \<Rightarrow> nat" where
  "index_of xs y = length (takeWhile (\<lambda>x. x \<noteq> y) xs)"

lemma index_of_append: "y \<in> set xs \<Longrightarrow> index_of (xs @ ys) y = index_of xs y"
  by (simp add: index_of_def takeWhile_append1)

lemma index_of_nth: "distinct xs \<Longrightarrow> n < length xs \<Longrightarrow> index_of xs (xs ! n) = n"
proof (induction xs arbitrary: n)
  case (Cons x xs)
  then show ?case by (cases n) (auto simp: index_of_def)
qed simp

definition kernels :: "lr0_state \<Rightarrow> nat list list" where
  "kernels st = map items (states st)"

text \<open>The state after the successors of the kernel \<open>N\<close> by the symbols \<open>Xs\<close> have been entered.\<close>

definition appended :: "grammar \<Rightarrow> nat list \<Rightarrow> lr0_state \<Rightarrow> nat list \<Rightarrow> nat list \<times> lr0_state \<Rightarrow> bool" where
  "appended G N st Xs = (\<lambda>(shiftset, st'). table_ok (nitems G) (states st') (state_set st') \<and>
     (\<exists>new. kernels st' = kernels st @ new \<and> set new \<subseteq> goto G N ` set Xs) \<and> goto G N ` set Xs \<subseteq> set (kernels st') \<and>
     shiftset = map (\<lambda>X. index_of (kernels st') (goto G N X)) Xs \<and>
     (\<forall>n. 0 < n \<and> n < length (states st') \<longrightarrow> ritem G ! (hd (kernels st' ! n) - 1) = int (accessing_symbol (states st' ! n))) \<and>
     st' = st\<lparr>states := states st', state_set := state_set st'\<rparr>)"

definition too_many :: "grammar \<Rightarrow> bool" where
  "too_many G \<longleftrightarrow> MAXSHORT < card {N. lr0_kernel G N}"

lemma table_full_too_many:
  assumes wf: "wf_grammar G" and K: "set (kernels st) \<subseteq> {N. lr0_kernel G N}" "distinct (kernels st)"
    and ks: "lr0_kernel G ks" "table_full ks st"
  shows "too_many G"
proof -
  have fin: "finite {N. lr0_kernel G N}"
    by (rule finite_subset [OF _ finite_kernels]) (use lr0_kernel_wf [OF wf] in blast)
  have "distinct (ks # kernels st)" "set (ks # kernels st) \<subseteq> {N. lr0_kernel G N}"
    using K ks by (auto simp: table_full_def kernels_def)
  then have "length (ks # kernels st) \<le> card {N. lr0_kernel G N}"
    using card_mono [OF fin] distinct_card by metis
  then show ?thesis using ks(2) by (simp add: too_many_def table_full_def kernels_def)
qed

lemma appended_step:
  assumes wf: "wf_grammar G" and N: "wf_kernel G N" and st: "kernels st \<noteq> []"
    and a: "appended G N st Xs (ss, st')" and X: "X \<in> set (shift_syms G N)"
    and e: "enter (nitems G) X (goto G N X) st' n st''"
  shows "appended G N st (Xs @ [X]) (ss @ [n], st'')"
proof -
  note a' = a [unfolded appended_def prod.case] and e' = e [unfolded enter_def, folded kernels_def]
  let ?g = "goto G N X"
  obtain new where new: "kernels st' = kernels st @ new" "set new \<subseteq> goto G N ` set Xs" using a' by blast
  have K: "kernels st'' = kernels st' @ (if ?g \<in> set (kernels st') then [] else [?g])"
    using e' by (auto simp: kernels_def)
  have acc: "map accessing_symbol (states st'') = map accessing_symbol (states st') @ (if ?g \<in> set (kernels st') then [] else [X])"
    using e' by (auto simp: kernels_def)
  have dist: "distinct (kernels st'')" using e' unfolding table_ok_def kernels_def by blast
  have n: "index_of (kernels st'') ?g = n"
    using index_of_nth [OF dist, of n] e' by (simp add: kernels_def)
  have idx: "index_of (kernels st'') (goto G N Y) = index_of (kernels st') (goto G N Y)" if "Y \<in> set Xs" for Y
    using a' that unfolding K by (intro index_of_append) auto
  have len: "length (kernels s) = length (states s)" for s by (simp add: kernels_def)
  have syms: "ritem G ! (hd (kernels st'' ! m) - 1) = int (accessing_symbol (states st'' ! m))"
    if "0 < m" "m < length (states st'')" for m
  proof (cases "m < length (states st')")
    case True
    have "kernels st'' ! m = kernels st' ! m" using True by (simp add: K nth_append len)
    moreover have "accessing_symbol (states st'' ! m) = accessing_symbol (states st' ! m)"
      using arg_cong [OF acc, of "\<lambda>xs. xs ! m"] that True by (simp add: nth_append)
    ultimately show ?thesis using a' that True by simp
  next
    case False
    have "m < length (kernels st'')" "\<not> m < length (kernels st')" using that(2) False by (simp_all add: len)
    then have m: "m = length (kernels st')" "?g \<notin> set (kernels st')" by (auto simp: K split: if_splits)
    have "kernels st'' ! m = ?g" using m by (simp add: K)
    moreover have "accessing_symbol (states st'' ! m) = X"
      using arg_cong [OF acc, of "\<lambda>xs. xs ! m"] that m by (simp add: nth_append len)
    moreover have "hd ?g \<in> set ?g" using X by (auto simp: shift_syms_def)
    ultimately show ?thesis using goto_ok(3) [OF wf N] by simp
  qed
  show ?thesis
    unfolding appended_def prod.case
  proof (intro conjI)
    show "\<exists>new. kernels st'' = kernels st @ new \<and> set new \<subseteq> goto G N ` set (Xs @ [X])"
      using new by (auto simp: K)
    show "goto G N ` set (Xs @ [X]) \<subseteq> set (kernels st'')" using a' by (auto simp: K)
    show "ss @ [n] = map (\<lambda>X. index_of (kernels st'') (goto G N X)) (Xs @ [X])" using a' idx n by simp
    show "st'' = st\<lparr>states := states st'', state_set := state_set st''\<rparr>" using a' e' by (cases st, cases st', cases st'') simp
  qed (use e' syms in auto)
qed

text \<open>What holds of the table before a state is processed.\<close>

definition reached :: "grammar \<Rightarrow> lr0_state \<Rightarrow> bool" where
  "reached G st \<longleftrightarrow> table_ok (nitems G) (states st) (state_set st) \<and> kernels st ! 0 = initial_kernel G \<and>
     set (kernels st) \<subseteq> {N. lr0_kernel G N} \<and>
     (\<forall>n. 0 < n \<and> n < length (states st) \<longrightarrow> ritem G ! (hd (kernels st ! n) - 1) = int (accessing_symbol (states st ! n)))"

lemma reached_appended:
  assumes r: "reached G st" and a: "appended G N st' Xs (ss, st'')" and N: "lr0_kernel G N" "set Xs \<subseteq> set (shift_syms G N)"
    and same: "kernels st' = kernels st"
  shows "reached G st''"
proof -
  note r' = r [unfolded reached_def] and a' = a [unfolded appended_def prod.case]
  obtain new where new: "kernels st'' = kernels st @ new" "set new \<subseteq> goto G N ` set Xs" using a' same by auto
  have "kernels st \<noteq> []" using r' by (auto simp: table_ok_def kernels_def)
  then have "kernels st'' ! 0 = initial_kernel G" using new r' by (simp add: nth_append)
  moreover have "set (kernels st'') \<subseteq> {N. lr0_kernel G N}" 
  proof
    fix M assume "M \<in> set (kernels st'')"
    then consider "M \<in> set (kernels st)" | X where "M = goto G N X" "X \<in> set (shift_syms G N)"
      using new N(2) by auto
    then show "M \<in> {N. lr0_kernel G N}" using r' lr0_kernel.shift [OF N(1)] by cases auto
  qed
  ultimately show ?thesis using a' by (simp add: reached_def)
qed

lemma shift_syms_length: "length (shift_syms G N) \<le> nsyms G"
  using length_filter_le [of "\<lambda>X. goto G N X \<noteq> []" "[1..<nsyms G]"] by (simp add: shift_syms_def)

lemma append_states_ok:
  assumes wf: "wf_grammar G" and r: "reached G st" and N: "lr0_kernel G N"
    and base: "length base = nsyms G" "\<forall>X < nsyms G. base ! X = kbase G X"
    and k: "kernels_ok G (closure_list G N) (kernel_items st, kernel_end st, shift_symbol st)"
  shows "wpE (append_states G base st) (appended G N (st\<lparr>shift_symbol := shift_syms G N\<rparr>) (shift_syms G N)) (\<lambda>e. too_many G)"
proof -
  note wfN = lr0_kernel_wf [OF wf N] and r' = r [unfolded reached_def]
  define st1 where "st1 = st\<lparr>shift_symbol := shift_syms G N\<rparr>"
  have st1: "states st1 = states st" "state_set st1 = state_set st" "kernels st1 = kernels st"
    "kernel_items st1 = kernel_items st" "kernel_end st1 = kernel_end st" by (simp_all add: st1_def kernels_def)
  have sorted: "sort (shift_symbol st) = shift_syms G N"
  proof (rule sorted_distinct_set_unique)
    show "distinct (sort (shift_symbol st))" using k by (simp add: kernels_ok_def)
    have "set (shift_symbol st) = {X. 0 < X \<and> X < nsyms G \<and> goto_items G (closure_list G N) X \<noteq> []}"
      using k by (simp add: kernels_ok_def)
    then show "set (sort (shift_symbol st)) = set (shift_syms G N)"
      by (simp add: set_eq_iff shift_syms_def goto_def Suc_le_eq conj_assoc)
  qed (simp_all add: shift_syms_def sorted_wrt_filter)
  have nonempty: "kernels st1 \<noteq> []" using r' st1 by (auto simp: table_ok_def kernels_def)
  have "wpE (foldE (\<lambda>symbol (shiftset, st).
           bindE (get_state G base symbol st) (\<lambda>(n, st).
             bindE (liftE (push (nsyms G) n shiftset)) (\<lambda>shiftset. returnE (shiftset, st))))
         (shift_syms G N) ([], st1))
      (\<lambda>s. \<exists>don. shift_syms G N = don @ [] \<and> appended G N st1 don s) (\<lambda>e. too_many G)"
  proof (rule wpE_foldE [where I = "\<lambda>todo s. \<exists>don. shift_syms G N = don @ todo \<and> appended G N st1 don s"], goal_cases)
    case 1
    have "st1 = st1\<lparr>states := states st1, state_set := state_set st1\<rparr>" by simp
    then show ?case using r' st1 by (auto simp: appended_def)
  next
    case (2 X todo s)
    then obtain don ss st' where don: "shift_syms G N = don @ X # todo" and s: "s = (ss, st')"
      and a: "appended G N st1 don (ss, st')" by (cases s) auto
    have X: "X \<in> set (shift_syms G N)" "set don \<subseteq> set (shift_syms G N)" using don by auto
    then have X': "0 < X" "X < nsyms G" "goto G N X \<noteq> []" by (auto simp: shift_syms_def)
    have reach: "reached G st'" by (rule reached_appended [OF r a N X(2) st1(3)])
    have st': "st' = st1\<lparr>states := states st', state_set := state_set st'\<rparr>" using a by (simp add: appended_def)
    have same: "kernel_items st' = kernel_items st" "kernel_end st' = kernel_end st"
      using arg_cong [OF st', of kernel_items] arg_cong [OF st', of kernel_end] st1 by simp_all
    have kern: "kernel_of base st' X (goto G N X)"
      using k X' base by (auto simp: kernel_of_def same kernels_ok_def goto_def)
    have hd: "hd (goto G N X) < nitems G"
      using goto_ok(1) [OF wf wfN, of X] X' by (cases "goto G N X") (auto simp: wf_kernel_def)
    have not0: "goto G N X \<noteq> items (states st' ! 0)"
      using goto_ok(2) [OF wf wfN X(1)] reach by (auto simp: reached_def table_ok_def kernels_def)
    have t: "table_ok (nitems G) (states st') (state_set st')" using reach by (simp add: reached_def)
    have full: "too_many G" if "table_full (goto G N X) st'"
      using reach t that lr0_kernel.shift [OF N X(1)]
      by (intro table_full_too_many [OF wf]) (auto simp: reached_def table_ok_def kernels_def)
    have cap: "length ss < nsyms G"
      using a don shift_syms_length [of G N] by (simp add: appended_def)
    show ?case
      unfolding s by (simp add: wpE_simps wp_simps cap, rule wpE_mono [OF get_state_ok [OF kern t hd not0]])
        (use full don appended_step [OF wf wfN nonempty a X(1)] in \<open>auto intro!: exI [of _ "don @ [X]"]\<close>)
  qed
  then show ?thesis
    unfolding append_states_def sort_symbols_ok sorted by (simp add: wpE_simps wp_simps st1_def)
qed

section \<open>The main loop\<close>

text \<open>The shifts and the reductions of the first \<open>t\<close> of the kernels \<open>K\<close>.\<close>

definition shift_records :: "grammar \<Rightarrow> nat list list \<Rightarrow> nat \<Rightarrow> shifts list" where
  "shift_records G K t =
     map (\<lambda>n. \<lparr>shifts_number = n, shift = map (\<lambda>X. index_of K (goto G (K ! n) X)) (shift_syms G (K ! n))\<rparr>)
       (filter (\<lambda>n. shift_syms G (K ! n) \<noteq> []) [0..<t])"

definition reduction_records :: "grammar \<Rightarrow> nat list list \<Rightarrow> nat \<Rightarrow> reductions list" where
  "reduction_records G K t =
     map (\<lambda>n. \<lparr>reductions_number = n, red_rules = complete_rules G (K ! n)\<rparr>)
       (filter (\<lambda>n. complete_rules G (K ! n) \<noteq> []) [0..<t])"

definition closed_upto :: "grammar \<Rightarrow> nat list list \<Rightarrow> nat \<Rightarrow> bool" where
  "closed_upto G K t \<longleftrightarrow> (\<forall>n < t. goto G (K ! n) ` set (shift_syms G (K ! n)) \<subseteq> set K)"

lemma shift_records_append:
  assumes "closed_upto G K t" "t \<le> length K"
  shows "shift_records G (K @ new) t = shift_records G K t"
  unfolding shift_records_def
proof (rule map_cong)
  show "filter (\<lambda>n. shift_syms G ((K @ new) ! n) \<noteq> []) [0..<t] = filter (\<lambda>n. shift_syms G (K ! n) \<noteq> []) [0..<t]"
    using assms(2) by (intro filter_cong) (auto simp: nth_append)
  fix n assume "n \<in> set (filter (\<lambda>n. shift_syms G (K ! n) \<noteq> []) [0..<t])"
  then have n: "n < t" by simp
  then have "(K @ new) ! n = K ! n" using assms(2) by (simp add: nth_append)
  moreover have "index_of (K @ new) (goto G (K ! n) X) = index_of K (goto G (K ! n) X)"
    if "X \<in> set (shift_syms G (K ! n))" for X
    using assms(1) n that by (intro index_of_append) (auto simp: closed_upto_def)
  ultimately show "\<lparr>shifts_number = n, shift = map (\<lambda>X. index_of (K @ new) (goto G ((K @ new) ! n) X)) (shift_syms G ((K @ new) ! n))\<rparr> =
     \<lparr>shifts_number = n, shift = map (\<lambda>X. index_of K (goto G (K ! n) X)) (shift_syms G (K ! n))\<rparr>" by simp
qed

lemma reduction_records_append:
  assumes "t \<le> length K"
  shows "reduction_records G (K @ new) t = reduction_records G K t"
  unfolding reduction_records_def
proof (rule map_cong)
  show "filter (\<lambda>n. complete_rules G ((K @ new) ! n) \<noteq> []) [0..<t] = filter (\<lambda>n. complete_rules G (K ! n) \<noteq> []) [0..<t]"
    using assms by (intro filter_cong) (auto simp: nth_append)
qed (use assms in \<open>auto simp: nth_append\<close>)

definition generated :: "grammar \<Rightarrow> nat \<times> lr0_state \<Rightarrow> bool" where
  "generated G = (\<lambda>(this, st). reached G st \<and> this \<le> length (states st) \<and>
     length (kernel_items st) = kbase G (nsyms G) \<and> closed_upto G (kernels st) this \<and>
     shift_list st = shift_records G (kernels st) this \<and> reduction_list st = reduction_records G (kernels st) this)"

lemma generated_next:
  assumes g: "generated G (this, st)" and lt: "this < length (states st)"
    and a: "appended G (kernels st ! this) st1 (shift_syms G (kernels st ! this)) (ss, st')"
    and st1: "kernels st1 = kernels st" "length (kernel_items st1) = kbase G (nsyms G)" "shift_list st1 = shift_list st"
      "reduction_list st1 = (let rs = complete_rules G (kernels st ! this) in
         if rs = [] then reduction_list st else reduction_list st @ [\<lparr>reductions_number = this, red_rules = rs\<rparr>])"
  shows "generated G (Suc this, if 0 < length ss then st'\<lparr>shift_list := save_shifts this ss (shift_list st')\<rparr> else st')"
proof -
  let ?N = "kernels st ! this"
  note g' = g [unfolded generated_def prod.case] and a' = a [unfolded appended_def prod.case]
  have lenK: "length (kernels s) = length (states s)" for s by (simp add: kernels_def)
  have "?N \<in> set (kernels st)" using lt by (simp add: lenK)
  then have N: "lr0_kernel G ?N" using g' by (auto simp: reached_def)
  obtain new where new: "kernels st' = kernels st @ new" using a' st1(1) by auto
  have reach: "reached G st'" using g' by (intro reached_appended [OF _ a N order_refl st1(1)]) auto
  have st': "st' = st1\<lparr>states := states st', state_set := state_set st'\<rparr>" using a' by simp
  have same: "kernel_items st' = kernel_items st1" "shift_list st' = shift_list st1" "reduction_list st' = reduction_list st1"
    by (subst st', simp)+
  have N': "kernels st' ! this = ?N" using lt by (simp add: new nth_append lenK)
  have closed: "closed_upto G (kernels st') (Suc this)"
    using g' a' lt N' unfolding closed_upto_def by (auto simp: new nth_append lenK less_Suc_eq)
  have ss: "ss = map (\<lambda>X. index_of (kernels st') (goto G ?N X)) (shift_syms G ?N)" using a' by simp
  have shifts: "(if 0 < length ss then save_shifts this ss (shift_list st') else shift_list st') = shift_records G (kernels st') (Suc this)"
    using g' lt same(2) st1(3) N' shift_records_append [of G "kernels st" this new]
    by (simp add: shift_records_def [of G _ "Suc this"] shift_records_def [of G "kernels st'" this, symmetric] ss save_shifts_def
        new [symmetric] lenK)
  have reds: "reduction_list st' = reduction_records G (kernels st') (Suc this)"
    using g' lt same(3) st1(4) N' reduction_records_append [of this "kernels st" G new]
    by (simp add: reduction_records_def [of G _ "Suc this"] reduction_records_def [of G "kernels st'" this, symmetric]
        new [symmetric] lenK Let_def)
  have "Suc this \<le> length (states st')" using lt new lenK [of st] lenK [of st'] by simp
  with reach closed shifts reds same st1(2) show ?thesis
    by (auto simp: generated_def reached_def kernels_def split: if_splits)
qed

lemma generate_step_ok:
  assumes wf: "wf_grammar G" and fd: "first_derives_ok G fd"
    and base: "length base = nsyms G" "\<forall>X < nsyms G. base ! X = kbase G X"
    and g: "generated G (this, st)" and lt: "this < length (states st)"
  shows "wpE (generate_step G fd base (this, st)) (\<lambda>(this', st'). generated G (this', st') \<and> this' = Suc this) (\<lambda>e. too_many G)"
proof -
  let ?N = "kernels st ! this"
  note g' = g [unfolded generated_def prod.case]
  have "?N \<in> set (kernels st)" using lt by (simp add: kernels_def)
  then have N: "lr0_kernel G ?N" using g' by (auto simp: reached_def)
  note wfN = lr0_kernel_wf [OF wf N]
  note cl = closure_list_ok [OF wf, of ?N]
  have N': "set ?N \<subseteq> {1..<nitems G}" using wfN by (simp add: wf_kernel_def)
  have p: "items (states st ! this) = ?N" "number (states st ! this) = this"
    using lt g' nth_map [of this "states st" number] by (auto simp: kernels_def reached_def table_ok_def)
  let ?reds = "let rs = complete_rules G ?N in
     if rs = [] then reduction_list st else reduction_list st @ [\<lparr>reductions_number = this, red_rules = rs\<rparr>]"
  have reds: "save_reductions G this (closure_list G ?N) (reduction_list st) = Some ?reds"
    using save_reductions_ok [OF wf cl(1,3) [OF N']] by (simp add: complete_rules_def)
  have dist: "distinct (closure_list G ?N)" "set (closure_list G ?N) \<subseteq> {..<nitems G}"
    using cl(1,3) [OF N'] by (auto simp: strict_sorted_iff)
  define st0 where "st0 = st\<lparr>reduction_list := ?reds\<rparr>"
  have "length (kernel_items st0) = kbase G (nsyms G)" using g' by (simp add: st0_def)
  from new_itemsets_ok [OF wf dist base this] obtain st1
    where st1: "new_itemsets G base (closure_list G ?N) st0 = Some st1"
      "kernels_ok G (closure_list G ?N) (kernel_items st1, kernel_end st1, shift_symbol st1)"
      "st1 = st0\<lparr>kernel_items := kernel_items st1, kernel_end := kernel_end st1, shift_symbol := shift_symbol st1\<rparr>"
    by (auto simp: wp_def)
  have same: "states st1 = states st" "state_set st1 = state_set st" "shift_list st1 = shift_list st"
    "reduction_list st1 = ?reds" by (subst st1(3), simp add: st0_def)+
  then have K: "kernels st1 = kernels st" by (simp add: kernels_def)
  have reach: "reached G st1" using g' same K by (simp add: reached_def)
  have start: "do {
         p \<leftarrow> rd (states st) this;
         itemset \<leftarrow> closure G fd (items p);
         reds \<leftarrow> save_reductions G (number p) itemset (reduction_list st);
         st \<leftarrow> new_itemsets G base itemset (st\<lparr>reduction_list := reds\<rparr>);
         Some (number p, st) } = Some (this, st1)"
    using lt st1(1) closure_eq [OF wf fd wfN] reds by (simp add: rd_Some p st0_def)
  let ?st2 = "st1\<lparr>shift_symbol := shift_syms G ?N\<rparr>"
  have st2: "kernels ?st2 = kernels st" "length (kernel_items ?st2) = kbase G (nsyms G)" "shift_list ?st2 = shift_list st"
    "reduction_list ?st2 = ?reds"
    using same K st1(2) by (simp_all add: kernels_def kernels_ok_def)
  show ?thesis
    unfolding generate_step_def prod.case start
    by (simp add: wpE_simps wp_simps, rule wpE_mono [OF append_states_ok [OF wf reach N base st1(2)]])
      (use generated_next [OF g lt _ st2] in \<open>simp add: case_prod_beta' prod_eq_iff split: prod.splits, fastforce?\<close>)
qed

lemma initialize_states_ok:
  assumes wf: "wf_grammar G" and d: "derives_ok G (derives, rules)"
  shows "initialize_states G derives rules = Some (core_of None 0 0 (initial_kernel G))"
proof -
  have S: "start_symbol G \<le> start_symbol G" "start_symbol G < nsyms G" using wf_grammarD(1,2,4) [OF wf] by auto
  obtain p where p: "derives ! start_symbol G = Some p" "segment rules p (map int (rules_of G (start_symbol G)) @ [- 1])"
    "start_symbol G < length derives" using d S by (auto simp: derives_ok_def)
  have fold: "foldM (\<lambda>rule items. do { i \<leftarrow> rd (rrhs G) (nat rule); Some (items @ [i]) }) (map int rs) acc =
      Some (acc @ map (\<lambda>r. rrhs G ! r) rs)" if "\<forall>r \<in> set rs. r < nrules G" for rs acc
    using that by (induction rs arbitrary: acc) (auto simp: rd_Some wf_grammarD(8) [OF wf])
  have "\<forall>r \<in> set (rules_of G (start_symbol G)). r < nrules G" by (auto simp: rules_of_def)
  then show ?thesis
    using p by (simp add: initialize_states_def rd_Some scan_until_eq [where stop = "\<lambda>rule. rule < 0"] fold initial_kernel_def)
qed

lemma generated_start:
  assumes wf: "wf_grammar G" and ki: "length ki = kbase G (nsyms G)"
  shows "generated G (0, \<lparr>states = [core_of None 0 0 (initial_kernel G)], state_set = replicate (nitems G) None, kernel_items = ki,
     kernel_end = ke, shift_symbol = [], shift_list = [], reduction_list = []\<rparr>)"
  using ki by (auto simp: generated_def reached_def table_ok_def kernels_def MAXSHORT_def bucket_def closed_upto_def
      shift_records_def reduction_records_def lr0_kernel.initial intro!: exI [of _ "[]"])

lemma closed_kernels:
  assumes "closed_upto G K (length K)" "initial_kernel G \<in> set K" "lr0_kernel G N"
  shows "N \<in> set K"
  using assms(3)
proof induction
  case (shift N X)
  then obtain n where "n < length K" "N = K ! n" by (auto simp: in_set_conv_nth)
  with shift assms(1) show ?case by (auto simp: closed_upto_def)
qed (rule assms(2))

text \<open>What \<open>generate_states\<close> leaves: each reachable kernel once, with its shifts and reductions.\<close>

definition automaton :: "grammar \<Rightarrow> lr0_state \<Rightarrow> bool" where
  "automaton G st \<longleftrightarrow> distinct (kernels st) \<and> set (kernels st) = {N. lr0_kernel G N} \<and>
     kernels st ! 0 = initial_kernel G \<and> map number (states st) = [0..<length (states st)] \<and>
     (\<forall>n. 0 < n \<and> n < length (states st) \<longrightarrow> ritem G ! (hd (kernels st ! n) - 1) = int (accessing_symbol (states st ! n))) \<and>
     shift_list st = shift_records G (kernels st) (length (states st)) \<and>
     reduction_list st = reduction_records G (kernels st) (length (states st))"

lemma generated_automaton:
  assumes g: "generated G (length (states st), st)"
  shows "automaton G st" "\<not> too_many G"
proof -
  note g' = g [unfolded generated_def prod.case]
  have K: "kernels st \<noteq> []" "length (kernels st) = length (states st)" "distinct (kernels st)"
    "length (states st) \<le> MAXSHORT" "map number (states st) = [0..<length (states st)]"
    using g' by (auto simp: reached_def table_ok_def kernels_def)
  have "initial_kernel G \<in> set (kernels st)" 
    using g' K(1) unfolding reached_def by (metis length_greater_0_conv nth_mem)
  then have all: "set (kernels st) = {N. lr0_kernel G N}"
    using closed_kernels [of G "kernels st"] g' K(2) by (auto simp: reached_def)
  with K show "automaton G st" using g' by (simp add: automaton_def reached_def)
  have "card {N. lr0_kernel G N} = length (kernels st)" using all distinct_card [OF K(3)] by simp
  with K show "\<not> too_many G" by (simp add: too_many_def)
qed

lemma generate_states_ok:
  assumes wf: "wf_grammar G" and d: "derives_ok G (derives, rules)" and after: "after \<noteq> [] \<or> nvars G mod 32 \<noteq> 0"
  shows "wpE (generate_states G derives rules after) (\<lambda>st. automaton G st \<and> \<not> too_many G) (\<lambda>e. too_many G)"
proof -
  obtain base ki where base: "allocate_itemsets G = Some (base, ki)" "length base = nsyms G"
    "\<forall>X < nsyms G. base ! X = kbase G X" "length ki = kbase G (nsyms G)"
    using allocate_itemsets_ok [OF wf] by (auto simp: wp_def)
  obtain fd where fd: "set_first_derives G derives rules after = Some fd" "first_derives_ok G fd"
    using set_first_derives_ok [OF wf d after] by (auto simp: wp_def)
  let ?st = "\<lparr>states = [core_of None 0 0 (initial_kernel G)], state_set = replicate (nitems G) None, kernel_items = ki,
     kernel_end = replicate (nsyms G) None, shift_symbol = [], shift_list = [], reduction_list = []\<rparr>"
  have "wpE (whileE (\<lambda>(this, st). this < length (states st)) (generate_step G fd base) (0, ?st))
     (\<lambda>(this, st). automaton G st \<and> \<not> too_many G) (\<lambda>e. too_many G)"
  proof (rule wpE_whileE [where I = "generated G" and m = "\<lambda>(this, st). MAXSHORT - this"], goal_cases)
    case 1
    show ?case by (rule generated_start [OF wf base(4)])
  next
    case (2 s)
    obtain this st where s: "s = (this, st)" by (cases s)
    have "this < MAXSHORT" using 2 by (auto simp: s generated_def reached_def table_ok_def)
    then show ?case
      using 2 unfolding s by (intro wpE_mono [OF generate_step_ok [OF wf fd(2) base(2,3)]]) auto
  next
    case (3 s)
    then obtain this st where s: "s = (this, st)" "this = length (states st)" by (cases s) (auto simp: generated_def)
    with 3 generated_automaton [of G st] show ?case by simp
  qed
  then show ?thesis
    unfolding generate_states_def
    by (simp add: base(1) fd(1) initialize_states_ok [OF wf d] wpE_simps wp_simps)
qed

section \<open>Properties\<close>



end
