(* ===== verification/Mkpar.thy ===== *)
theory Mkpar
  imports LR0 "HOL-Library.Multiset"
begin

text \<open>
  The parser actions (\<^verbatim>\<open>src/yacc/mkpar.c\<close>): the shifts and the reductions of every state are merged into
  a row sorted by symbol, conflicts are resolved by precedence and associativity, and the rules and
  default reductions are collected. The \<open>next\<close> pointers of a row are the order of a list; \<open>pref\<close>, the
  action preferred so far, is an index into the row. The tables of \<^verbatim>\<open>lalr.c\<close> and the precedences of
  \<^verbatim>\<open>reader.c\<close> are the record \<open>tables\<close>.
\<close>

section \<open>Definitions\<close>

datatype action_code = SHIFT | REDUCE

datatype assoc = TOKEN | LEFT | RIGHT | NONASSOC

record action =
  symbol :: nat
  act_number :: nat
  prec :: int
  code :: action_code
  act_assoc :: assoc
  suppressed :: nat

record tables =
  shift_table :: "shifts option list"
  accessing :: "nat list"
  lookaheads :: "nat list"
  LAruleno :: "nat list"
  LA :: "u32 list"
  symbol_prec :: "int list"
  symbol_assoc :: "assoc list"
  rprec :: "int list"
  rassoc :: "assoc list"

definition get_shifts :: "grammar \<Rightarrow> tables \<Rightarrow> nat \<Rightarrow> action list option" where
  "get_shifts G T stateno = do {
     sp \<leftarrow> rd (shift_table T) stateno;
     case sp of
       None \<Rightarrow> Some []
     | Some p \<Rightarrow> for_down 0 (length (shift p)) (\<lambda>i actions. do {
           k \<leftarrow> rd (shift p) i;
           s \<leftarrow> rd (accessing T) k;
           if ISTOKEN G (int s) then do {
             pr \<leftarrow> rd (symbol_prec T) s;
             a \<leftarrow> rd (symbol_assoc T) s;
             Some (\<lparr>symbol = s, act_number = k, prec = pr, code = SHIFT, act_assoc = a, suppressed = 0\<rparr> # actions) }
           else Some actions }) [] }"

definition add_reduce :: "tables \<Rightarrow> action list \<Rightarrow> nat \<Rightarrow> nat \<Rightarrow> action list option" where
  "add_reduce T actions ruleno tok = do {
     let before = takeWhile (\<lambda>a. symbol a < tok) actions;
     let nxt = dropWhile (\<lambda>a. symbol a < tok) actions;
     let before = before @ takeWhile (\<lambda>a. symbol a = tok \<and> code a = SHIFT) nxt;
     let nxt = dropWhile (\<lambda>a. symbol a = tok \<and> code a = SHIFT) nxt;
     let before = before @ takeWhile (\<lambda>a. symbol a = tok \<and> code a = REDUCE \<and> act_number a < ruleno) nxt;
     let nxt = dropWhile (\<lambda>a. symbol a = tok \<and> code a = REDUCE \<and> act_number a < ruleno) nxt;
     pr \<leftarrow> rd (rprec T) ruleno;
     a \<leftarrow> rd (rassoc T) ruleno;
     Some (before @ \<lparr>symbol = tok, act_number = ruleno, prec = pr, code = REDUCE, act_assoc = a, suppressed = 0\<rparr> # nxt) }"

definition add_reductions :: "grammar \<Rightarrow> tables \<Rightarrow> nat \<Rightarrow> action list \<Rightarrow> action list option" where
  "add_reductions G T stateno actions = do {
     let tokensetsize = WORDSIZE (ntokens G);
     m \<leftarrow> rd (lookaheads T) stateno;
     n \<leftarrow> rd (lookaheads T) (stateno + 1);
     for_up m n (\<lambda>i actions. do {
         ruleno \<leftarrow> rd (LAruleno T) i;
         for_down 0 (ntokens G) (\<lambda>j actions. do {
             b \<leftarrow> BIT (LA T) (i * tokensetsize) j;
             if b \<noteq> 0 then add_reduce T actions ruleno j else Some actions }) actions })
       actions }"

definition parse_actions :: "grammar \<Rightarrow> tables \<Rightarrow> nat \<Rightarrow> action list option" where
  "parse_actions G T stateno = do {
     actions \<leftarrow> get_shifts G T stateno;
     add_reductions G T stateno actions }"

definition find_final_state :: "grammar \<Rightarrow> tables \<Rightarrow> nat option" where
  "find_final_state G T = do {
     sp \<leftarrow> rd (shift_table T) 0;
     p \<leftarrow> sp;
     goal \<leftarrow> rd (ritem G) 1;
     (i, final_state, found) \<leftarrow> whileM (\<lambda>(i, final_state, found). Some (0 < i \<and> \<not> found))
       (\<lambda>(i, final_state, found). do {
          k \<leftarrow> rd (shift p) (i - 1);
          s \<leftarrow> rd (accessing T) k;
          Some (i - 1, k, int s = goal) })
       (length (shift p), 0, False);
     Some final_state }"

definition suppress :: "nat \<Rightarrow> nat \<Rightarrow> action list \<Rightarrow> action list option" where
  "suppress v i row = do { p \<leftarrow> rd row i; wr row i (p\<lparr>suppressed := v\<rparr>) }"

record conflict_state =
  row :: "action list"
  pref :: nat
  cur :: "nat option"
  SRcount :: nat
  RRcount :: nat

definition conflict_step :: "bool \<Rightarrow> nat \<Rightarrow> conflict_state \<Rightarrow> conflict_state option" where
  "conflict_step final i st = do {
     p \<leftarrow> rd (row st) i;
     if Some (symbol p) \<noteq> cur st then Some (st\<lparr>pref := i, cur := Some (symbol p)\<rparr>)
     else if final \<and> cur st = Some 0 then do {
       r \<leftarrow> suppress 1 i (row st);
       Some (st\<lparr>row := r, SRcount := SRcount st + 1\<rparr>) }
     else do {
       q \<leftarrow> rd (row st) (pref st);
       if code q = SHIFT then
         (if 0 < prec q \<and> 0 < prec p then
            (if prec q < prec p then do {
               r \<leftarrow> suppress 2 (pref st) (row st);
               Some (st\<lparr>row := r, pref := i\<rparr>) }
             else if prec p < prec q then do {
               r \<leftarrow> suppress 2 i (row st);
               Some (st\<lparr>row := r\<rparr>) }
             else if act_assoc q = LEFT then do {
               r \<leftarrow> suppress 2 (pref st) (row st);
               Some (st\<lparr>row := r, pref := i\<rparr>) }
             else if act_assoc q = RIGHT then do {
               r \<leftarrow> suppress 2 i (row st);
               Some (st\<lparr>row := r\<rparr>) }
             else do {
               r \<leftarrow> suppress 2 (pref st) (row st);
               r \<leftarrow> suppress 2 i r;
               Some (st\<lparr>row := r\<rparr>) })
          else do {
            r \<leftarrow> suppress 1 i (row st);
            Some (st\<lparr>row := r, SRcount := SRcount st + 1\<rparr>) })
       else do {
         r \<leftarrow> suppress 1 i (row st);
         Some (st\<lparr>row := r, RRcount := RRcount st + 1\<rparr>) } } }"

definition remove_row_conflicts :: "bool \<Rightarrow> action list \<Rightarrow> conflict_state option" where
  "remove_row_conflicts final actions =
     for_up 0 (length actions) (conflict_step final)
       \<lparr>row = actions, pref = 0, cur = None, SRcount = 0, RRcount = 0\<rparr>"

definition remove_conflicts :: "nat \<Rightarrow> action list list \<Rightarrow> (action list list \<times> nat list \<times> nat list \<times> nat \<times> nat) option" where
  "remove_conflicts final_state parser =
     for_up 0 (length parser) (\<lambda>i (parser, SRconflicts, RRconflicts, SRtotal, RRtotal). do {
         actions \<leftarrow> rd parser i;
         st \<leftarrow> remove_row_conflicts (i = final_state) actions;
         parser \<leftarrow> wr parser i (row st);
         SRconflicts \<leftarrow> wr SRconflicts i (SRcount st);
         RRconflicts \<leftarrow> wr RRconflicts i (RRcount st);
         Some (parser, SRconflicts, RRconflicts, SRtotal + SRcount st, RRtotal + RRcount st) })
       (parser, replicate (length parser) 0, replicate (length parser) 0, 0, 0)"

definition unused_rules :: "grammar \<Rightarrow> action list list \<Rightarrow> (bool list \<times> nat) option" where
  "unused_rules G parser = do {
     rules_used \<leftarrow> foldM (foldM (\<lambda>p rules_used.
         if code p = REDUCE \<and> suppressed p = 0 then wr rules_used (act_number p) True else Some rules_used))
       parser (replicate (nrules G) False);
     nunused \<leftarrow> for_up 3 (nrules G) (\<lambda>i nunused. do {
         u \<leftarrow> rd rules_used i;
         Some (if \<not> u then nunused + 1 else nunused) }) 0;
     Some (rules_used, nunused) }"

fun sole_scan :: "action list \<Rightarrow> nat \<Rightarrow> nat \<Rightarrow> nat" where
  "sole_scan [] cnt ruleno = (if cnt = 0 then 0 else ruleno)"
| "sole_scan (p # ps) cnt ruleno =
     (if code p = SHIFT \<and> suppressed p = 0 then 0
      else if code p = REDUCE \<and> suppressed p = 0 then
        (if 0 < ruleno \<and> act_number p \<noteq> ruleno then 0
         else sole_scan ps (if symbol p \<noteq> 1 then cnt + 1 else cnt) (act_number p))
      else sole_scan ps cnt ruleno)"

definition sole_reduction :: "action list list \<Rightarrow> nat \<Rightarrow> nat option" where
  "sole_reduction parser stateno = do { actions \<leftarrow> rd parser stateno; Some (sole_scan actions 0 0) }"

definition defreds :: "action list list \<Rightarrow> nat list option" where
  "defreds parser = for_up 0 (length parser) (\<lambda>i defred. do {
     r \<leftarrow> sole_reduction parser i;
     wr defred i r }) (replicate (length parser) 0)"

record parser_tables =
  parser :: "action list list"
  final_state :: nat
  SRconflicts :: "nat list"
  RRconflicts :: "nat list"
  SRtotal :: nat
  RRtotal :: nat
  rules_used :: "bool list"
  nunused :: nat
  defred :: "nat list"

definition make_parser :: "grammar \<Rightarrow> tables \<Rightarrow> parser_tables option" where
  "make_parser G T = do {
     let nstates = length (shift_table T);
     rows \<leftarrow> for_up 0 nstates (\<lambda>i rows. do {
         actions \<leftarrow> parse_actions G T i;
         wr rows i actions }) (replicate nstates []);
     final \<leftarrow> find_final_state G T;
     (rows, sr, rr, srt, rrt) \<leftarrow> remove_conflicts final rows;
     (used, unused) \<leftarrow> unused_rules G rows;
     dr \<leftarrow> defreds rows;
     Some \<lparr>parser = rows, final_state = final, SRconflicts = sr, RRconflicts = rr, SRtotal = srt, RRtotal = rrt,
           rules_used = used, nunused = unused, defred = dr\<rparr> }"

section \<open>The rows\<close>

definition action_le :: "action \<Rightarrow> action \<Rightarrow> bool" where
  "action_le a b \<longleftrightarrow> symbol a < symbol b \<or> symbol a = symbol b \<and>
     (code a = SHIFT \<or> code b = REDUCE \<and> act_number a \<le> act_number b)"

abbreviation sorted_row :: "action list \<Rightarrow> bool" where
  "sorted_row \<equiv> sorted_wrt action_le"

definition before_reduce :: "nat \<Rightarrow> nat \<Rightarrow> action \<Rightarrow> bool" where
  "before_reduce ruleno tok a \<longleftrightarrow> symbol a < tok \<or> symbol a = tok \<and> (code a = SHIFT \<or> act_number a < ruleno)"

lemma code_not_SHIFT [simp]: "code a \<noteq> SHIFT \<longleftrightarrow> code a = REDUCE"
  by (cases "code a") auto

lemma action_le_trans: "action_le a b \<Longrightarrow> action_le b c \<Longrightarrow> action_le a c"
  unfolding action_le_def by (cases "code b") auto

abbreviation phase2 :: "nat \<Rightarrow> action \<Rightarrow> bool" where
  "phase2 tok a \<equiv> symbol a = tok \<and> code a = SHIFT"

abbreviation phase3 :: "nat \<Rightarrow> nat \<Rightarrow> action \<Rightarrow> bool" where
  "phase3 ruleno tok a \<equiv> symbol a = tok \<and> code a = REDUCE \<and> act_number a < ruleno"

lemma phase3_eq:
  assumes "\<forall>a \<in> set r. tok \<le> symbol a \<and> \<not> phase2 tok a"
  shows "takeWhile (phase3 ruleno tok) r = takeWhile (before_reduce ruleno tok) r"
    "dropWhile (phase3 ruleno tok) r = dropWhile (before_reduce ruleno tok) r"
proof -
  have "phase3 ruleno tok a \<longleftrightarrow> before_reduce ruleno tok a" if "a \<in> set r" for a
    using assms that by (cases "code a") (auto simp: before_reduce_def)
  then show "takeWhile (phase3 ruleno tok) r = takeWhile (before_reduce ruleno tok) r"
    "dropWhile (phase3 ruleno tok) r = dropWhile (before_reduce ruleno tok) r"
    by (auto intro: takeWhile_cong dropWhile_cong)
qed

lemma phase2_eq:
  assumes "\<forall>a \<in> set r. tok \<le> symbol a" "sorted_row r"
  shows "takeWhile (phase2 tok) r @ takeWhile (phase3 ruleno tok) (dropWhile (phase2 tok) r) = takeWhile (before_reduce ruleno tok) r \<and>
    dropWhile (phase3 ruleno tok) (dropWhile (phase2 tok) r) = dropWhile (before_reduce ruleno tok) r"
  using assms
proof (induction r)
  case (Cons a r)
  show ?case
  proof (cases "phase2 tok a")
    case True
    with Cons show ?thesis by (simp add: before_reduce_def)
  next
    case False
    have all: "\<forall>b \<in> set (a # r). tok \<le> symbol b \<and> \<not> phase2 tok b"
      using Cons.prems False by (cases "code a") (auto simp: action_le_def)
    have "takeWhile (phase2 tok) (a # r) = []" "dropWhile (phase2 tok) (a # r) = a # r" using False by auto
    then show ?thesis by (simp only: phase3_eq [OF all] append_Nil simp_thms)
  qed
qed simp

lemma phases_eq:
  assumes "sorted_row r"
  shows "takeWhile (\<lambda>a. symbol a < tok) r @ takeWhile (phase2 tok) (dropWhile (\<lambda>a. symbol a < tok) r) @
      takeWhile (phase3 ruleno tok) (dropWhile (phase2 tok) (dropWhile (\<lambda>a. symbol a < tok) r)) = takeWhile (before_reduce ruleno tok) r \<and>
    dropWhile (phase3 ruleno tok) (dropWhile (phase2 tok) (dropWhile (\<lambda>a. symbol a < tok) r)) = dropWhile (before_reduce ruleno tok) r"
  using assms
proof (induction r)
  case (Cons a r)
  show ?case
  proof (cases "symbol a < tok")
    case True
    with Cons show ?thesis by (simp add: before_reduce_def)
  next
    case False
    have all: "\<forall>b \<in> set (a # r). tok \<le> symbol b" using Cons.prems False by (auto simp: action_le_def)
    have "takeWhile (\<lambda>a. symbol a < tok) (a # r) = []" "dropWhile (\<lambda>a. symbol a < tok) (a # r) = a # r" using False by auto
    then show ?thesis by (simp only: phase2_eq [OF all Cons.prems] append_Nil simp_thms)
  qed
qed simp

definition reduce_action :: "tables \<Rightarrow> nat \<Rightarrow> nat \<Rightarrow> action" where
  "reduce_action T ruleno tok =
     \<lparr>symbol = tok, act_number = ruleno, prec = rprec T ! ruleno, code = REDUCE, act_assoc = rassoc T ! ruleno, suppressed = 0\<rparr>"

lemma add_reduce_ok:
  assumes r: "sorted_row r" and len: "ruleno < length (rprec T)" "ruleno < length (rassoc T)"
  shows "wp (add_reduce T r ruleno tok) (\<lambda>r'. sorted_row r' \<and> mset r' = add_mset (reduce_action T ruleno tok) (mset r))"
proof -
  let ?P = "before_reduce ruleno tok" and ?new = "reduce_action T ruleno tok"
  have split: "r = takeWhile ?P r @ dropWhile ?P r" by simp
  have lower: "action_le a ?new" if "a \<in> set (takeWhile ?P r)" for a
    using set_takeWhileD [OF that] by (auto simp: before_reduce_def action_le_def reduce_action_def)
  have upper: "action_le ?new a" if a: "a \<in> set (dropWhile ?P r)" for a
  proof -
    obtain h t where ht: "dropWhile ?P r = h # t" using a by (cases "dropWhile ?P r") auto
    then have "\<not> ?P h" using hd_dropWhile [of ?P r] by simp
    then have le: "action_le ?new h"
      by (cases "code h") (auto simp: before_reduce_def action_le_def reduce_action_def)
    have "sorted_row (h # t)" using r split ht by (metis sorted_wrt_append)
    then show ?thesis using a ht le action_le_trans by auto
  qed
  have "sorted_row (takeWhile ?P r @ ?new # dropWhile ?P r)"
    using r lower upper split sorted_wrt_append [of action_le "takeWhile ?P r" "dropWhile ?P r"]
    by (auto simp: sorted_wrt_append)
  moreover have "mset (takeWhile ?P r @ ?new # dropWhile ?P r) = add_mset ?new (mset r)"
    by (metis split mset.simps(2) mset_append union_mset_add_mset_right)
  moreover have "add_reduce T r ruleno tok = Some (takeWhile ?P r @ ?new # dropWhile ?P r)"
    using phases_eq [OF r, of tok ruleno] len by (simp add: add_reduce_def Let_def rd_Some reduce_action_def)
  ultimately show ?thesis by (simp add: wp_def)
qed

text \<open>What the actions of a state are, and what the tables have to provide.\<close>

definition shift_action :: "tables \<Rightarrow> nat \<Rightarrow> action" where
  "shift_action T k = (let s = accessing T ! k in
     \<lparr>symbol = s, act_number = k, prec = symbol_prec T ! s, code = SHIFT, act_assoc = symbol_assoc T ! s, suppressed = 0\<rparr>)"

definition shift_actions :: "grammar \<Rightarrow> tables \<Rightarrow> nat \<Rightarrow> action list" where
  "shift_actions G T n = (case shift_table T ! n of None \<Rightarrow> []
     | Some p \<Rightarrow> map (shift_action T) (filter (\<lambda>k. ISTOKEN G (int (accessing T ! k))) (shift p)))"

definition la_tokens :: "grammar \<Rightarrow> tables \<Rightarrow> nat \<Rightarrow> nat \<Rightarrow> nat list" where
  "la_tokens G T i lo = filter (rowbit (LA T) (i * WORDSIZE (ntokens G))) [lo..<ntokens G]"

definition reduce_actions :: "grammar \<Rightarrow> tables \<Rightarrow> nat \<Rightarrow> nat \<Rightarrow> action list" where
  "reduce_actions G T m n = concat (map (\<lambda>i. map (reduce_action T (LAruleno T ! i)) (la_tokens G T i 0)) [m..<n])"

definition wf_shifts :: "grammar \<Rightarrow> tables \<Rightarrow> shifts \<Rightarrow> bool" where
  "wf_shifts G T p \<longleftrightarrow> (\<forall>k \<in> set (shift p). k < length (accessing T)) \<and>
     sorted_wrt (<) (map (\<lambda>k. accessing T ! k) (shift p))"

definition wf_tables :: "grammar \<Rightarrow> tables \<Rightarrow> bool" where
  "wf_tables G T \<longleftrightarrow> length (lookaheads T) = Suc (length (shift_table T)) \<and> sorted (lookaheads T) \<and>
     last (lookaheads T) = length (LAruleno T) \<and> length (LA T) = length (LAruleno T) * WORDSIZE (ntokens G) \<and>
     (\<forall>r \<in> set (LAruleno T). 2 \<le> r \<and> r < nrules G) \<and> length (rprec T) = nrules G \<and> length (rassoc T) = nrules G \<and>
     length (symbol_prec T) = nsyms G \<and> length (symbol_assoc T) = nsyms G \<and> (\<forall>s \<in> set (accessing T). s < nsyms G) \<and>
     (\<forall>p. Some p \<in> set (shift_table T) \<longrightarrow> wf_shifts G T p)"

lemma wf_tablesD:
  assumes "wf_tables G T"
  shows "length (lookaheads T) = Suc (length (shift_table T))" "length (LA T) = length (LAruleno T) * WORDSIZE (ntokens G)"
    "i < length (LAruleno T) \<Longrightarrow> 2 \<le> LAruleno T ! i \<and> LAruleno T ! i < nrules G" "length (rprec T) = nrules G" "length (rassoc T) = nrules G"
    "length (symbol_prec T) = nsyms G" "length (symbol_assoc T) = nsyms G"
    "k < length (accessing T) \<Longrightarrow> accessing T ! k < nsyms G"
    "n < length (shift_table T) \<Longrightarrow> shift_table T ! n = Some p \<Longrightarrow> wf_shifts G T p"
    "n < length (shift_table T) \<Longrightarrow> lookaheads T ! n \<le> lookaheads T ! Suc n \<and> lookaheads T ! Suc n \<le> length (LAruleno T)"
proof -
  note wf = assms [unfolded wf_tables_def]
  show "n < length (shift_table T) \<Longrightarrow> lookaheads T ! n \<le> lookaheads T ! Suc n \<and> lookaheads T ! Suc n \<le> length (LAruleno T)"
  proof -
    assume n: "n < length (shift_table T)"
    have "last (lookaheads T) = lookaheads T ! length (shift_table T)" using wf by (subst last_conv_nth) auto
    with n wf show ?thesis
      using sorted_nth_mono [of "lookaheads T" n "Suc n"] sorted_nth_mono [of "lookaheads T" "Suc n" "length (shift_table T)"] by auto
  qed
  show "shift_table T ! n = Some p \<Longrightarrow> wf_shifts G T p" if "n < length (shift_table T)"
    using wf that by (metis nth_mem)
qed (use assms in \<open>auto simp: wf_tables_def\<close>)

lemma get_shifts_ok:
  assumes wf: "wf_tables G T" and n: "n < length (shift_table T)"
  shows "get_shifts G T n = Some (shift_actions G T n)"
proof (cases "shift_table T ! n")
  case None
  then show ?thesis using n by (simp add: get_shifts_def shift_actions_def rd_Some)
next
  case (Some p)
  have p: "k \<in> set (shift p) \<Longrightarrow> k < length (accessing T)" for k
    using wf_tablesD(9) [OF wf n Some] by (auto simp: wf_shifts_def)
  let ?f = "\<lambda>ks. map (shift_action T) (filter (\<lambda>k. ISTOKEN G (int (accessing T ! k))) ks)"
  have "wp (get_shifts G T n) (\<lambda>r. r = shift_actions G T n)"
    unfolding get_shifts_def
  proof (simp add: wp_simps n Some, rule wp_for_down [where I = "\<lambda>i r. r = ?f (drop i (shift p))"], goal_cases)
    case (3 i r)
    have "accessing T ! (shift p ! i) < nsyms G" "shift p ! i < length (accessing T)"
      using p 3 wf_tablesD(8) [OF wf] by auto
    with 3 show ?case
      using wf_tablesD(6,7) [OF wf]
      by (auto simp: wp_simps shift_action_def Let_def Cons_nth_drop_Suc [symmetric])
  qed (auto simp: shift_actions_def Some)
  then show ?thesis by (simp add: wp_def)
qed

lemma shift_actions_sorted:
  assumes wf: "wf_tables G T" and n: "n < length (shift_table T)"
  shows "sorted_row (shift_actions G T n)"
proof (cases "shift_table T ! n")
  case (Some p)
  then have "sorted_wrt (\<lambda>k l. accessing T ! k < accessing T ! l) (shift p)"
    using wf_tablesD(9) [OF wf n Some] by (simp add: wf_shifts_def sorted_wrt_map)
  then have "sorted_wrt (\<lambda>k l. accessing T ! k < accessing T ! l) (filter (\<lambda>k. ISTOKEN G (int (accessing T ! k))) (shift p))"
    by (rule sorted_wrt_filter)
  then show ?thesis
    unfolding shift_actions_def Some option.case sorted_wrt_map
    by (rule sorted_wrt_mono_rel [rotated]) (simp add: action_le_def shift_action_def Let_def)
qed (simp add: shift_actions_def)

lemma add_reductions_ok:
  assumes wf: "wf_tables G T" and n: "n < length (shift_table T)" and r: "sorted_row r"
  shows "wp (add_reductions G T n r) (\<lambda>r'. sorted_row r' \<and>
     mset r' = mset r + mset (reduce_actions G T (lookaheads T ! n) (lookaheads T ! Suc n)))"
proof -
  let ?w = "WORDSIZE (ntokens G)" and ?m = "lookaheads T ! n" and ?n = "lookaheads T ! Suc n"
  have inner: "wp (for_down 0 (ntokens G) (\<lambda>j actions. do {
        b \<leftarrow> BIT (LA T) (i * ?w) j;
        if b \<noteq> 0 then add_reduce T actions (LAruleno T ! i) j else Some actions }) r)
     (\<lambda>r'. sorted_row r' \<and> mset r' = mset r + mset (map (reduce_action T (LAruleno T ! i)) (la_tokens G T i 0)))"
    if i: "i < length (LAruleno T)" and r: "sorted_row r" for i r
  proof (rule wp_for_down [where I = "\<lambda>j r'. sorted_row r' \<and>
      mset r' = mset r + mset (map (reduce_action T (LAruleno T ! i)) (la_tokens G T i j))"], goal_cases)
    case 2
    then show ?case using r by (simp add: la_tokens_def)
  next
    case (3 j r')
    have "j < 32 * ?w" using 3 WORDSIZE_bounds(1) [of "ntokens G"] by simp
    then have bit: "BIT (LA T) (i * ?w) j = Some (if rowbit (LA T) (i * ?w) j then 1 else 0)"
      by (intro BIT_ok [OF i _ wf_tablesD(2) [OF wf]])
    have toks: "la_tokens G T i j = (if rowbit (LA T) (i * ?w) j then [j] else []) @ la_tokens G T i (Suc j)"
      using 3 by (simp add: la_tokens_def upt_conv_Cons)
    have rule: "LAruleno T ! i < length (rprec T)" "LAruleno T ! i < length (rassoc T)"
      using wf_tablesD(3,4,5) [OF wf] i by simp_all
    show ?case
      using 3 by (cases "rowbit (LA T) (i * ?w) j")
        (auto simp: wp_simps bit toks intro!: wp_mono [OF add_reduce_ok [OF _ rule]])
  qed auto
  have bounds: "?m \<le> ?n" "?n \<le> length (LAruleno T)" using wf_tablesD(10) [OF wf n] by auto
  have "wp (for_up ?m ?n (\<lambda>i actions. do {
         ruleno \<leftarrow> rd (LAruleno T) i;
         for_down 0 (ntokens G) (\<lambda>j actions. do {
             b \<leftarrow> BIT (LA T) (i * ?w) j;
             if b \<noteq> 0 then add_reduce T actions ruleno j else Some actions }) actions }) r)
     (\<lambda>r'. sorted_row r' \<and> mset r' = mset r + mset (reduce_actions G T ?m ?n))"
  proof (rule wp_for_up [where I = "\<lambda>i r'. sorted_row r' \<and> mset r' = mset r + mset (reduce_actions G T ?m i)"], goal_cases)
    case (3 i r')
    then have i: "i < length (LAruleno T)" using bounds by simp
    show ?case
      using 3 i by (simp only: wp_simps) (auto intro!: wp_mono [OF inner] simp: reduce_actions_def)
  qed (use bounds r in \<open>auto simp: reduce_actions_def\<close>)
  then show ?thesis
    using n wf_tablesD(1) [OF wf] by (simp add: add_reductions_def Let_def wp_simps)
qed

lemma parse_actions_ok:
  assumes wf: "wf_tables G T" and n: "n < length (shift_table T)"
  shows "wp (parse_actions G T n) (\<lambda>r. sorted_row r \<and>
     mset r = mset (shift_actions G T n @ reduce_actions G T (lookaheads T ! n) (lookaheads T ! Suc n)))"
  unfolding parse_actions_def
  by (simp add: wp_simps get_shifts_ok [OF wf n] add_reductions_ok [OF wf n shift_actions_sorted [OF wf n]])

end
