(* ===== verification/Pack.thy ===== *)
theory Pack
  imports Mkpar
begin

text \<open>
  The compression of the parser tables (\<^verbatim>\<open>src/yacc/output.c\<close>): the shifts and the reductions of the states
  and the gotos of the nonterminals are turned into sparse vectors, which are sorted and then packed
  into one array \<open>table\<close>; \<open>check\<close> tells which index of a vector an entry stands for. A vector that was
  not allocated is the empty list; \<open>fatal("maximum table size exceeded")\<close> is the error \<open>Max_table\<close>.
\<close>

section \<open>Definitions\<close>

datatype pack_error = Max_table

definition MAXTABLE :: nat where
  "MAXTABLE = 32500"

record vectors =
  froms :: "int list list"
  tos :: "int list list"
  tally :: "nat list"
  width :: "int list"

definition action_row :: "grammar \<Rightarrow> nat \<Rightarrow> action list \<Rightarrow> (int list \<times> nat \<times> nat) option" where
  "action_row G dred actions =
     foldM (\<lambda>p (actionrow, shiftcount, reducecount).
         if suppressed p = 0 then
           (if code p = SHIFT then do {
              actionrow \<leftarrow> wr actionrow (symbol p) (int (act_number p));
              Some (actionrow, shiftcount + 1, reducecount) }
            else if code p = REDUCE \<and> act_number p \<noteq> dred then do {
              actionrow \<leftarrow> wr actionrow (symbol p + ntokens G) (int (act_number p));
              Some (actionrow, shiftcount, reducecount + 1) }
            else Some (actionrow, shiftcount, reducecount))
         else Some (actionrow, shiftcount, reducecount))
       actions (replicate (2 * ntokens G) 0, 0, 0)"

definition row_vector ::
    "grammar \<Rightarrow> int list \<Rightarrow> int list \<Rightarrow> nat \<Rightarrow> int \<Rightarrow> nat \<Rightarrow> (int list \<times> int list \<times> int) option" where
  "row_vector G symbol_value actionrow off d cnt = do {
     (mn, mx, r, s) \<leftarrow> for_up 0 (ntokens G) (\<lambda>j (mn, mx, r, s). do {
         v \<leftarrow> rd actionrow (off + j);
         if v \<noteq> 0 then do {
           sv \<leftarrow> rd symbol_value j;
           r \<leftarrow> push cnt sv r;
           s \<leftarrow> push cnt (v - d) s;
           Some (if sv < mn then sv else mn, if mx < sv then sv else mx, r, s) }
         else Some (mn, mx, r, s) })
       (int MAXSHORT, 0, [], []);
     Some (r, s, mx - mn + 1) }"

definition set_vector :: "nat \<Rightarrow> int list \<times> int list \<times> int \<Rightarrow> nat \<Rightarrow> vectors \<Rightarrow> vectors option" where
  "set_vector i = (\<lambda>(r, s, w) cnt V. do {
     f \<leftarrow> wr (froms V) i r;
     t \<leftarrow> wr (tos V) i s;
     ta \<leftarrow> wr (tally V) i cnt;
     wi \<leftarrow> wr (width V) i w;
     Some \<lparr>froms = f, tos = t, tally = ta, width = wi\<rparr> })"

definition token_actions :: "grammar \<Rightarrow> int list \<Rightarrow> parser_tables \<Rightarrow> vectors \<Rightarrow> vectors option" where
  "token_actions G symbol_value P V = (let nstates = length (parser P) in
     for_up 0 nstates (\<lambda>i V. do {
         actions \<leftarrow> rd (parser P) i;
         if actions = [] then Some V
         else do {
           dred \<leftarrow> rd (defred P) i;
           (actionrow, shiftcount, reducecount) \<leftarrow> action_row G dred actions;
           sh \<leftarrow> (if 0 < shiftcount then row_vector G symbol_value actionrow 0 0 shiftcount else Some ([], [], 0));
           V \<leftarrow> set_vector i sh shiftcount V;
           re \<leftarrow> (if 0 < reducecount then row_vector G symbol_value actionrow (ntokens G) 2 reducecount else Some ([], [], 0));
           set_vector (nstates + i) re reducecount V } }) V)"

record gotos =
  goto_map :: "nat list"
  from_state :: "nat list"
  to_state :: "nat list"

definition default_goto :: "nat \<Rightarrow> gotos \<Rightarrow> nat \<Rightarrow> nat \<Rightarrow> nat option" where
  "default_goto nstates T ntok s = do {
     m \<leftarrow> rd (goto_map T) (s - ntok);
     n \<leftarrow> rd (goto_map T) (s - ntok + 1);
     if m = n then Some 0
     else do {
       state_count \<leftarrow> for_up m n (\<lambda>i c. do {
           q \<leftarrow> rd (to_state T) i;
           v \<leftarrow> rd c q;
           wr c q (v + 1) }) (replicate nstates (0::nat));
       (mx, default_state) \<leftarrow> for_up 0 nstates (\<lambda>i (mx, d). do {
           v \<leftarrow> rd state_count i;
           Some (if mx < v then (v, i) else (mx, d)) }) (0, 0);
       Some default_state } }"

definition save_column :: "nat \<Rightarrow> gotos \<Rightarrow> int list \<Rightarrow> nat \<Rightarrow> nat \<Rightarrow> nat \<Rightarrow> vectors \<Rightarrow> vectors option" where
  "save_column nstates T symbol_value ntok s default_state V = do {
     m \<leftarrow> rd (goto_map T) (s - ntok);
     n \<leftarrow> rd (goto_map T) (s - ntok + 1);
     cnt \<leftarrow> for_up m n (\<lambda>i cnt. do {
         q \<leftarrow> rd (to_state T) i;
         Some (if q \<noteq> default_state then cnt + 1 else cnt) }) 0;
     if cnt = 0 then Some V
     else do {
       sv \<leftarrow> rd symbol_value s;
       (sp1, sp2) \<leftarrow> for_up m n (\<lambda>i (sp1, sp2). do {
           q \<leftarrow> rd (to_state T) i;
           if q \<noteq> default_state then do {
             p \<leftarrow> rd (from_state T) i;
             sp1 \<leftarrow> push cnt (int p) sp1;
             sp2 \<leftarrow> push cnt (int q) sp2;
             Some (sp1, sp2) }
           else Some (sp1, sp2) }) ([], []);
       last_from \<leftarrow> rd sp1 (length sp1 - 1);
       first_from \<leftarrow> rd sp1 0;
       set_vector (nat (sv + 2 * int nstates)) (sp1, sp2, last_from - first_from + 1) cnt V } }"

definition goto_column :: "grammar \<Rightarrow> nat \<Rightarrow> gotos \<Rightarrow> int list \<Rightarrow> nat \<Rightarrow> nat list \<times> vectors \<Rightarrow> (nat list \<times> vectors) option" where
  "goto_column G nstates T symbol_value i = (\<lambda>(yydgoto, V). do {
     k \<leftarrow> default_goto nstates T (ntokens G) i;
     V \<leftarrow> save_column nstates T symbol_value (ntokens G) i k V;
     Some (yydgoto @ [k], V) })"

definition goto_actions :: "grammar \<Rightarrow> nat \<Rightarrow> gotos \<Rightarrow> int list \<Rightarrow> vectors \<Rightarrow> (nat list \<times> vectors) option" where
  "goto_actions G nstates T symbol_value V = do {
     s \<leftarrow> goto_column G nstates T symbol_value (start_symbol G + 1) ([], V);
     for_up (start_symbol G + 2) (nsyms G) (goto_column G nstates T symbol_value) s }"

definition sort_position :: "vectors \<Rightarrow> nat list \<Rightarrow> int \<Rightarrow> nat \<Rightarrow> nat option" where
  "sort_position V ord w t = do {
     j \<leftarrow> whileM (\<lambda>j. if 0 < j then do { v \<leftarrow> rd ord (j - 1); wv \<leftarrow> rd (width V) v; Some (wv < w) } else Some False)
       (\<lambda>j. Some (j - 1)) (length ord);
     whileM (\<lambda>j. if 0 < j then do {
           v \<leftarrow> rd ord (j - 1);
           wv \<leftarrow> rd (width V) v;
           tv \<leftarrow> rd (tally V) v;
           Some (wv = w \<and> tv < t) }
         else Some False) (\<lambda>j. Some (j - 1)) j }"

definition sort_actions :: "nat \<Rightarrow> vectors \<Rightarrow> nat list option" where
  "sort_actions nvectors V =
     for_up 0 nvectors (\<lambda>i ord. do {
         t \<leftarrow> rd (tally V) i;
         if 0 < t then do {
           w \<leftarrow> rd (width V) i;
           j \<leftarrow> sort_position V ord w t;
           guard (length ord < nvectors);
           Some (take j ord @ i # drop j ord) }
         else Some ord }) []"

record pack =
  table :: "int list"
  check :: "int list"
  base :: "int list"
  pos :: "int list"
  lowzero :: nat
  high :: nat

definition same_entries :: "vectors \<Rightarrow> nat \<Rightarrow> nat \<Rightarrow> nat \<Rightarrow> bool option" where
  "same_entries V i j t = do {
     (k, match) \<leftarrow> whileM (\<lambda>(k, match). Some (match \<and> k < t))
       (\<lambda>(k, match). do {
          ti \<leftarrow> rd (tos V) i; tj \<leftarrow> rd (tos V) j; fi \<leftarrow> rd (froms V) i; fj \<leftarrow> rd (froms V) j;
          a \<leftarrow> rd tj k; b \<leftarrow> rd ti k; c \<leftarrow> rd fj k; d \<leftarrow> rd fi k;
          Some (k + 1, \<not> (a \<noteq> b \<or> c \<noteq> d)) }) (0, True);
     Some match }"

fun matching_scan :: "vectors \<Rightarrow> nat list \<Rightarrow> nat \<Rightarrow> nat \<Rightarrow> int \<Rightarrow> nat \<Rightarrow> nat option option" where
  "matching_scan V ord i t w 0 = Some None"
| "matching_scan V ord i t w (Suc prev) = do {
     j \<leftarrow> rd ord prev;
     wj \<leftarrow> rd (width V) j;
     tj \<leftarrow> rd (tally V) j;
     if wj \<noteq> w \<or> tj \<noteq> t then Some None
     else do {
       match \<leftarrow> same_entries V i j t;
       if match then Some (Some j) else matching_scan V ord i t w prev } }"

definition matching_vector :: "nat \<Rightarrow> vectors \<Rightarrow> nat list \<Rightarrow> nat \<Rightarrow> nat option option" where
  "matching_vector nstates V ord vector = do {
     i \<leftarrow> rd ord vector;
     if 2 * nstates \<le> i then Some None
     else do {
       t \<leftarrow> rd (tally V) i;
       w \<leftarrow> rd (width V) i;
       matching_scan V ord i t w vector } }"

definition grow_table :: "nat \<Rightarrow> pack \<Rightarrow> (pack_error + pack) option" where
  "grow_table loc P =
     (if length (table P) \<le> loc then
        (if MAXTABLE \<le> loc then throwE Max_table
         else liftE (do {
           newmax \<leftarrow> whileM (\<lambda>newmax. Some (newmax \<le> loc)) (\<lambda>newmax. Some (newmax + 200)) (length (table P) + 200);
           Some (P\<lparr>table := table P @ replicate (newmax - length (table P)) 0,
                   check := check P @ replicate (newmax - length (table P)) (- 1)\<rparr>) }))
      else returnE P)"

definition try_place :: "int list \<Rightarrow> nat \<Rightarrow> int \<Rightarrow> pack \<Rightarrow> (pack_error + bool \<times> pack) option" where
  "try_place from t j P =
     bindE (whileE (\<lambda>(ok, k, P). ok \<and> k < t)
         (\<lambda>(ok, k, P).
            bindE (liftE (do { f \<leftarrow> rd from k; guard (0 \<le> j + f); Some (nat (j + f)) })) (\<lambda>loc.
              bindE (grow_table loc P) (\<lambda>P.
                bindE (liftE (rd (check P) loc)) (\<lambda>c. returnE (c = - 1, k + 1, P)))))
         (True, 0, P))
       (\<lambda>(ok, k, P). returnE (ok \<and> j \<notin> set (pos P), P))"

definition place_vector :: "int list \<Rightarrow> int list \<Rightarrow> nat \<Rightarrow> int \<Rightarrow> pack \<Rightarrow> pack option" where
  "place_vector from to t j P = do {
     P \<leftarrow> for_up 0 t (\<lambda>k P. do {
         f \<leftarrow> rd from k;
         v \<leftarrow> rd to k;
         let loc = nat (j + f);
         tb \<leftarrow> wr (table P) loc v;
         ck \<leftarrow> wr (check P) loc f;
         Some (P\<lparr>table := tb, check := ck, high := if high P < loc then loc else high P\<rparr>) }) P;
     lz \<leftarrow> whileM (\<lambda>l. if l < length (table P) then do { c \<leftarrow> rd (check P) l; Some (c \<noteq> - 1) } else Some False)
       (\<lambda>l. Some (l + 1)) (lowzero P);
     Some (P\<lparr>lowzero := lz\<rparr>) }"

definition start_place :: "int list \<Rightarrow> nat \<Rightarrow> nat \<Rightarrow> int option" where
  "start_place from t lowz = do {
     f0 \<leftarrow> rd from 0;
     for_up 1 t (\<lambda>k j. do {
         f \<leftarrow> rd from k;
         Some (if j < int lowz - f then int lowz - f else j) }) (int lowz - f0) }"

definition pack_vector :: "vectors \<Rightarrow> nat list \<Rightarrow> nat \<Rightarrow> pack \<Rightarrow> (pack_error + int \<times> pack) option" where
  "pack_vector V ord vector P =
     bindE (liftE (do {
         i \<leftarrow> rd ord vector;
         t \<leftarrow> rd (tally V) i;
         guard (t \<noteq> 0);
         from \<leftarrow> rd (froms V) i;
         to \<leftarrow> rd (tos V) i;
         j \<leftarrow> start_place from t (lowzero P);
         Some (t, from, to, j) }))
       (\<lambda>(t, from, to, j).
         bindE (whileE (\<lambda>(found, j, P). \<not> found)
             (\<lambda>(found, j, P).
                if j = 0 then returnE (False, j + 1, P)
                else bindE (try_place from t j P) (\<lambda>(ok, P).
                  if ok then bindE (liftE (place_vector from to t j P)) (\<lambda>P. returnE (True, j, P))
                  else returnE (False, j + 1, P)))
             (False, j, P))
           (\<lambda>(found, j, P). returnE (j, P)))"

definition pack_step :: "nat \<Rightarrow> vectors \<Rightarrow> nat list \<Rightarrow> nat \<Rightarrow> pack \<Rightarrow> (pack_error + pack) option" where
  "pack_step nstates V ord i P =
     bindE (liftE (matching_vector nstates V ord i)) (\<lambda>state.
       bindE (case state of
           None \<Rightarrow> pack_vector V ord i P
         | Some s \<Rightarrow> liftE (do { b \<leftarrow> rd (base P) s; Some (b, P) }))
         (\<lambda>(place, P). liftE (do {
            v \<leftarrow> rd ord i;
            b \<leftarrow> wr (base P) v place;
            Some (P\<lparr>pos := pos P @ [place], base := b\<rparr>) })))"

definition pack_table :: "nat \<Rightarrow> nat \<Rightarrow> vectors \<Rightarrow> nat list \<Rightarrow> (pack_error + pack) option" where
  "pack_table nstates nvectors V ord =
     foldE (pack_step nstates V ord) [0..<length ord]
       \<lparr>table = replicate 1000 0, check = replicate 1000 (- 1), base = replicate nvectors 0, pos = [], lowzero = 0, high = 0\<rparr>"

section \<open>The order of the vectors\<close>

definition wf_vectors :: "nat \<Rightarrow> vectors \<Rightarrow> bool" where
  "wf_vectors nv V \<longleftrightarrow> length (froms V) = nv \<and> length (tos V) = nv \<and> length (tally V) = nv \<and> length (width V) = nv \<and>
     (\<forall>v < nv. length (froms V ! v) = tally V ! v \<and> length (tos V ! v) = tally V ! v \<and> distinct (froms V ! v) \<and>
        (\<forall>f \<in> set (froms V ! v). 0 \<le> f \<and> f \<le> int MAXSHORT))"

lemma wf_vectorsD:
  assumes "wf_vectors nv V"
  shows "length (froms V) = nv" "length (tos V) = nv" "length (tally V) = nv" "length (width V) = nv"
    "v < nv \<Longrightarrow> length (froms V ! v) = tally V ! v" "v < nv \<Longrightarrow> length (tos V ! v) = tally V ! v"
    "v < nv \<Longrightarrow> distinct (froms V ! v)"
    "v < nv \<Longrightarrow> k < tally V ! v \<Longrightarrow> 0 \<le> froms V ! v ! k \<and> froms V ! v ! k \<le> int MAXSHORT"
  using assms by (auto simp: wf_vectors_def)

lemma down_scan:
  fixes n :: nat
  assumes "\<And>j. 0 < j \<Longrightarrow> j \<le> n \<Longrightarrow> wp (b (j - 1)) (\<lambda>_. True)"
  shows "wp (whileM (\<lambda>j. if 0 < j then b (j - 1) else Some False) (\<lambda>j. Some (j - 1)) n) (\<lambda>j. j \<le> n)"
proof (rule wp_whileM [where I = "\<lambda>j. j \<le> n" and m = "\<lambda>j. j"], goal_cases)
  case (2 j)
  show ?case
  proof (cases "0 < j")
    case True
    then obtain t where "b (j - 1) = Some t" using assms [of j] 2 by (auto simp: wp_def)
    with True 2 show ?thesis by (auto simp: wp_simps)
  next
    case False
    with 2 show ?thesis by (simp add: wp_simps)
  qed
qed simp

lemma sort_position_ok:
  assumes wf: "wf_vectors nv V" and ord: "set ord \<subseteq> {..<nv}"
  shows "wp (sort_position V ord w t) (\<lambda>j. j \<le> length ord)"
proof -
  have v: "k < length ord \<Longrightarrow> ord ! k < nv" for k using ord nth_mem by blast
  have first: "wp (whileM (\<lambda>j. if 0 < j then do { v \<leftarrow> rd ord (j - 1); wv \<leftarrow> rd (width V) v; Some (wv < w) } else Some False)
       (\<lambda>j. Some (j - 1)) (length ord)) (\<lambda>j. j \<le> length ord)"
    by (rule down_scan [where b = "\<lambda>k. do { v \<leftarrow> rd ord k; wv \<leftarrow> rd (width V) v; Some (wv < w) }"])
      (use v in \<open>auto simp: wp_simps wf_vectorsD [OF wf]\<close>)
  have second: "wp (whileM (\<lambda>j. if 0 < j then do {
           v \<leftarrow> rd ord (j - 1); wv \<leftarrow> rd (width V) v; tv \<leftarrow> rd (tally V) v; Some (wv = w \<and> tv < t) }
         else Some False) (\<lambda>j. Some (j - 1)) j) (\<lambda>j'. j' \<le> j)" if "j \<le> length ord" for j
    by (rule down_scan [where b = "\<lambda>k. do { v \<leftarrow> rd ord k; wv \<leftarrow> rd (width V) v; tv \<leftarrow> rd (tally V) v; Some (wv = w \<and> tv < t) }"])
      (use v that in \<open>auto simp: wp_simps wf_vectorsD [OF wf]\<close>)
  show ?thesis
    unfolding sort_position_def
    by (simp only: wp_bind, rule wp_mono [OF first], rule wp_mono [OF second]) auto
qed

lemma sort_actions_ok:
  assumes wf: "wf_vectors nv V"
  shows "wp (sort_actions nv V) (\<lambda>ord. distinct ord \<and> (\<forall>v. v \<in> set ord \<longleftrightarrow> v < nv \<and> 0 < tally V ! v))"
  unfolding sort_actions_def
proof (rule wp_for_up [where I = "\<lambda>i ord. distinct ord \<and> (\<forall>v. v \<in> set ord \<longleftrightarrow> v < i \<and> 0 < tally V ! v)"], goal_cases)
  case (3 i ord)
  have elems: "v \<in> set ord \<longleftrightarrow> v < i \<and> 0 < tally V ! v" and dist: "distinct ord" for v using 3 by blast+
  have sub: "set ord \<subseteq> {..<nv}" "set ord \<subseteq> {..<i}" "distinct ord" using 3(2) dist by (simp_all add: subset_iff elems)
  then have "length ord \<le> i" using card_mono [of "{..<i}" "set ord"] distinct_card [of ord] by simp
  with 3 have cap: "length ord < nv" by simp
  have ins: "distinct (take j ord @ i # drop j ord) \<and> set (take j ord @ i # drop j ord) = insert i (set ord)" for j
  proof -
    have "set (take j ord) \<union> set (drop j ord) = set ord" by (metis append_take_drop_id set_append)
    moreover have "set (take j ord) \<inter> set (drop j ord) = {}" using sub(3) by (simp add: set_take_disj_set_drop_if_distinct)
    moreover have "i \<notin> set ord" using sub(2) by auto
    ultimately show ?thesis using sub(3) by (auto simp: distinct_append)
  qed
  show ?case
  proof (cases "0 < tally V ! i")
    case True
    have *: "v \<in> insert i (set ord) \<longleftrightarrow> v < Suc i \<and> 0 < tally V ! v" for v
      using True unfolding insert_iff elems by (cases "v = i") auto
    have ok: "distinct (take j ord @ i # drop j ord) \<and> (\<forall>v. v \<in> set (take j ord @ i # drop j ord) \<longleftrightarrow> v < Suc i \<and> 0 < tally V ! v)" for j
      using ins [of j] * by simp
    obtain j where "sort_position V ord (width V ! i) (tally V ! i) = Some j"
      using sort_position_ok [OF wf sub(1)] by (auto simp: wp_def)
    then show ?thesis using True 3(2) cap ok [of j] by (simp only: wp_simps wf_vectorsD [OF wf] if_True simp_thms)
  next
    case False
    then have "v \<in> set ord \<longleftrightarrow> v < Suc i \<and> 0 < tally V ! v" for v unfolding elems by (cases "v = i") auto
    with False 3(2) dist show ?thesis by (simp add: wp_simps wf_vectorsD [OF wf])
  qed
qed auto

section \<open>The packed table\<close>

text \<open>
  \<open>placed_at V P v\<close>: the entries of vector \<open>v\<close> are in the table at its base. \<open>packed V nv os P\<close>: the vectors
  \<open>os\<close> have been placed, every used cell belongs to one of them, and two of them share a base only if
  they have the same entries.
\<close>

definition placed_at :: "vectors \<Rightarrow> pack \<Rightarrow> nat \<Rightarrow> bool" where
  "placed_at V P v \<longleftrightarrow> base P ! v \<noteq> 0 \<and> (\<forall>k < tally V ! v.
     0 \<le> base P ! v + froms V ! v ! k \<and> base P ! v + froms V ! v ! k \<le> int (high P) \<and>
     check P ! nat (base P ! v + froms V ! v ! k) = froms V ! v ! k \<and>
     table P ! nat (base P ! v + froms V ! v ! k) = tos V ! v ! k)"

definition pack_sizes :: "nat \<Rightarrow> pack \<Rightarrow> bool" where
  "pack_sizes nv P \<longleftrightarrow> length (check P) = length (table P) \<and> high P < length (table P) \<and> length (table P) \<le> MAXTABLE + 200 \<and>
     lowzero P \<le> length (table P) \<and> length (base P) = nv"

definition packed :: "vectors \<Rightarrow> nat \<Rightarrow> nat list \<Rightarrow> pack \<Rightarrow> bool" where
  "packed V nv os P \<longleftrightarrow> pack_sizes nv P \<and> pos P = map ((!) (base P)) os \<and>
     (\<forall>v \<in> set os. placed_at V P v) \<and>
     (\<forall>l < length (check P). check P ! l \<noteq> - 1 \<longrightarrow> l \<le> high P \<and>
        (\<exists>v \<in> set os. base P ! v + check P ! l = int l \<and> check P ! l \<in> set (froms V ! v))) \<and>
     (\<forall>u \<in> set os. \<forall>v \<in> set os. base P ! u = base P ! v \<longrightarrow> froms V ! u = froms V ! v \<and> tos V ! u = tos V ! v) \<and>
     (\<forall>v < nv. v \<notin> set os \<longrightarrow> base P ! v = 0)"

text \<open>What the parser engine reads from a packed table: the entry of a vector with base \<open>b\<close> at index \<open>s\<close>.\<close>

definition packed_entry :: "pack \<Rightarrow> int \<Rightarrow> int \<Rightarrow> int option" where
  "packed_entry P b s = (if b \<noteq> 0 \<and> 0 \<le> b + s \<and> b + s \<le> int (high P) \<and> check P ! nat (b + s) = s
     then Some (table P ! nat (b + s)) else None)"

definition vector_entry :: "vectors \<Rightarrow> nat \<Rightarrow> int \<Rightarrow> int option" where
  "vector_entry V v = map_of (zip (froms V ! v) (tos V ! v))"

lemma packedD:
  assumes "packed V nv os P"
  shows "pack_sizes nv P" "pos P = map ((!) (base P)) os" "v \<in> set os \<Longrightarrow> placed_at V P v"
    "l < length (check P) \<Longrightarrow> check P ! l \<noteq> - 1 \<Longrightarrow>
      l \<le> high P \<and> (\<exists>v \<in> set os. base P ! v + check P ! l = int l \<and> check P ! l \<in> set (froms V ! v))"
    "u \<in> set os \<Longrightarrow> v \<in> set os \<Longrightarrow> base P ! u = base P ! v \<Longrightarrow> froms V ! u = froms V ! v \<and> tos V ! u = tos V ! v"
    "v < nv \<Longrightarrow> v \<notin> set os \<Longrightarrow> base P ! v = 0"
  using assms unfolding packed_def by blast+

lemma packedI:
  assumes "pack_sizes nv P" "pos P = map ((!) (base P)) os" "\<And>v. v \<in> set os \<Longrightarrow> placed_at V P v"
    "\<And>l. l < length (check P) \<Longrightarrow> check P ! l \<noteq> - 1 \<Longrightarrow>
      l \<le> high P \<and> (\<exists>v \<in> set os. base P ! v + check P ! l = int l \<and> check P ! l \<in> set (froms V ! v))"
    "\<And>u v. u \<in> set os \<Longrightarrow> v \<in> set os \<Longrightarrow> base P ! u = base P ! v \<Longrightarrow> froms V ! u = froms V ! v \<and> tos V ! u = tos V ! v"
    "\<And>v. v < nv \<Longrightarrow> v \<notin> set os \<Longrightarrow> base P ! v = 0"
  shows "packed V nv os P"
  unfolding packed_def using assms by blast

lemma pack_sizesD:
  assumes "pack_sizes nv P"
  shows "length (check P) = length (table P)" "high P < length (table P)" "length (table P) \<le> MAXTABLE + 200"
    "lowzero P \<le> length (table P)" "length (base P) = nv"
  using assms by (simp_all add: pack_sizes_def)

lemma packed_lookup:
  assumes wf: "wf_vectors nv V" and P: "packed V nv os P" and os: "\<And>v. v \<in> set os \<longleftrightarrow> v < nv \<and> 0 < tally V ! v"
    and v: "v < nv" and s: "0 \<le> s"
  shows "packed_entry P (base P ! v) s = vector_entry V v s"
proof (cases "v \<in> set os")
  case False
  with os v have "tally V ! v = 0" by simp
  then have "froms V ! v = []" using wf_vectorsD(5) [OF wf v] by simp
  moreover have "base P ! v = 0" using packedD(6) [OF P v False] .
  ultimately show ?thesis by (simp add: packed_entry_def vector_entry_def)
next
  case True
  have pl: "placed_at V P v" using packedD(3) [OF P True] .
  show ?thesis
  proof (cases "s \<in> set (froms V ! v)")
    case True
    then obtain k where k: "k < tally V ! v" "froms V ! v ! k = s" using wf_vectorsD(5) [OF wf v] by (metis in_set_conv_nth)
    then have "vector_entry V v s = Some (tos V ! v ! k)"
      unfolding vector_entry_def using wf_vectorsD(5-7) [OF wf v] map_of_zip_nth by metis
    moreover have "packed_entry P (base P ! v) s = Some (tos V ! v ! k)"
      using pl k unfolding placed_at_def packed_entry_def by auto
    ultimately show ?thesis by simp
  next
    case False
    have "packed_entry P (base P ! v) s = None"
    proof (rule ccontr)
      assume "packed_entry P (base P ! v) s \<noteq> None"
      then have b: "0 \<le> base P ! v + s" "base P ! v + s \<le> int (high P)" "check P ! nat (base P ! v + s) = s"
        by (auto simp: packed_entry_def split: if_splits)
      define l where "l = nat (base P ! v + s)"
      have l: "l < length (check P)" "check P ! l = s" using b pack_sizesD [OF packedD(1) [OF P]] by (auto simp: l_def)
      then obtain u where u: "u \<in> set os" "base P ! u + s = int l" "s \<in> set (froms V ! u)"
        using packedD(4) [OF P l(1)] s by auto
      with b have "base P ! u = base P ! v" by (simp add: l_def)
      then have "froms V ! u = froms V ! v" using packedD(5) [OF P u(1) \<open>v \<in> set os\<close>] by blast
      with u(3) False show False by simp
    qed
    moreover have "vector_entry V v s = None"
      unfolding vector_entry_def using False wf_vectorsD(5,6) [OF wf v] by (simp add: map_of_zip_is_None)
    ultimately show ?thesis by simp
  qed
qed

subsection \<open>Growing the table\<close>

definition grown :: "pack \<Rightarrow> pack \<Rightarrow> bool" where
  "grown P P' \<longleftrightarrow> (\<exists>n. P' = P\<lparr>table := table P @ replicate n 0, check := check P @ replicate n (- 1)\<rparr>)"

lemma grown_refl: "grown P P"
  unfolding grown_def by (rule exI [of _ 0]) simp

lemma grown_trans: "grown P Q \<Longrightarrow> grown Q R \<Longrightarrow> grown P R"
  unfolding grown_def by (auto simp: replicate_add [symmetric])

lemma grown_same: "grown P Q \<Longrightarrow> base Q = base P \<and> pos Q = pos P \<and> lowzero Q = lowzero P \<and> high Q = high P"
  by (auto simp: grown_def)

lemma packed_grown:
  assumes P: "packed V nv os P" and g: "grown P Q" and len: "length (table Q) \<le> MAXTABLE + 200"
  shows "packed V nv os Q"
proof -
  obtain n where Q: "Q = P\<lparr>table := table P @ replicate n 0, check := check P @ replicate n (- 1)\<rparr>"
    using g by (auto simp: grown_def)
  note sz = packedD(1) [OF P] pack_sizesD [OF packedD(1) [OF P]]
  show ?thesis
  proof (rule packedI)
    fix v assume "v \<in> set os"
    then have pl: "placed_at V P v" by (rule packedD(3) [OF P])
    then have "nat (base P ! v + froms V ! v ! k) < length (table P)" if "k < tally V ! v" for k
      using that sz(3) unfolding placed_at_def by auto
    with pl show "placed_at V Q v" by (simp add: placed_at_def Q nth_append sz(2))
  next
    fix l assume l: "l < length (check Q)" "check Q ! l \<noteq> - 1"
    have "l < length (check P)" using l by (auto simp: Q nth_append split: if_splits)
    then show "l \<le> high Q \<and> (\<exists>v \<in> set os. base Q ! v + check Q ! l = int l \<and> check Q ! l \<in> set (froms V ! v))"
      using packedD(4) [OF P, of l] l by (simp add: Q nth_append)
  next
    show "pack_sizes nv Q" using sz(1) len by (simp add: pack_sizes_def Q)
    show "pos Q = map ((!) (base Q)) os" using packedD(2) [OF P] by (simp add: Q)
  next
    fix u v assume uv: "u \<in> set os" "v \<in> set os" "base Q ! u = base Q ! v"
    show "froms V ! u = froms V ! v \<and> tos V ! u = tos V ! v" by (rule packedD(5) [OF P uv(1,2)]) (use uv(3) in \<open>simp add: Q\<close>)
  next
    fix v assume "v < nv" "v \<notin> set os"
    then show "base Q ! v = 0" using packedD(6) [OF P] by (simp add: Q)
  qed
qed

lemma grow_table_ok:
  assumes P: "packed V nv os P"
  shows "wpE (grow_table loc P) (\<lambda>Q. packed V nv os Q \<and> grown P Q \<and> loc < length (table Q)) (\<lambda>_. True)"
proof (cases "length (table P) \<le> loc \<and> loc < MAXTABLE")
  case False
  then show ?thesis using P grown_refl by (auto simp: grow_table_def wpE_simps)
next
  case True
  have "wp (whileM (\<lambda>newmax. Some (newmax \<le> loc)) (\<lambda>newmax. Some (newmax + 200)) (length (table P) + 200))
      (\<lambda>newmax. loc < newmax \<and> newmax \<le> loc + 200 \<and> length (table P) \<le> newmax)"
    by (rule wp_whileM [where I = "\<lambda>newmax. newmax \<le> loc + 200 \<and> length (table P) \<le> newmax" and m = "\<lambda>newmax. Suc loc - newmax"])
      (use True in \<open>auto simp: wp_simps\<close>)
  then obtain newmax where nm: "whileM (\<lambda>newmax. Some (newmax \<le> loc)) (\<lambda>newmax. Some (newmax + 200)) (length (table P) + 200) = Some newmax"
    "loc < newmax" "newmax \<le> loc + 200" "length (table P) \<le> newmax" by (auto simp: wp_def)
  define Q where "Q = P\<lparr>table := table P @ replicate (newmax - length (table P)) 0, check := check P @ replicate (newmax - length (table P)) (- 1)\<rparr>"
  have g: "grown P Q" unfolding grown_def Q_def by blast
  have len: "length (table Q) = newmax" using nm(4) by (simp add: Q_def)
  then have "packed V nv os Q" using nm(3) True by (intro packed_grown [OF P g]) simp
  moreover have "grow_table loc P = returnE Q" using True nm(1) by (simp add: grow_table_def liftE_def returnE_def Q_def)
  ultimately show ?thesis using g len nm(2) by (simp add: wpE_simps)
qed

lemma packed_length: "packed V nv os P \<Longrightarrow> l < length (table P) \<Longrightarrow> l < length (check P)"
  using pack_sizesD(1) [OF packedD(1)] by fastforce

lemma grown_check:
  "grown P Q \<Longrightarrow> l < length (check P) \<Longrightarrow> check Q ! l = check P ! l \<and> l < length (check Q)"
  by (auto simp: grown_def nth_append)

lemma try_place_ok:
  assumes P: "packed V nv os P" and t: "length from = t" "0 < t" and j: "\<And>k. k < t \<Longrightarrow> 0 \<le> j + from ! k"
  shows "wpE (try_place from t j P) (\<lambda>(ok, Q). packed V nv os Q \<and> grown P Q \<and> j + from ! 0 \<le> int MAXTABLE + 200 \<and>
    (ok \<longrightarrow> j \<notin> set (pos P) \<and> (\<forall>k < t. nat (j + from ! k) < length (check Q) \<and> check Q ! nat (j + from ! k) = - 1))) (\<lambda>_. True)"
proof -
  define I where "I = (\<lambda>(ok, k, Q). k \<le> t \<and> packed V nv os Q \<and> grown P Q \<and> (\<not> ok \<longrightarrow> 0 < k) \<and>
    (0 < k \<longrightarrow> j + from ! 0 \<le> int MAXTABLE + 200) \<and>
    (ok \<longrightarrow> (\<forall>i < k. nat (j + from ! i) < length (check Q) \<and> check Q ! nat (j + from ! i) = - 1)))"
  have "wpE (whileE (\<lambda>(ok, k, P). ok \<and> k < t)
         (\<lambda>(ok, k, P).
            bindE (liftE (do { f \<leftarrow> rd from k; guard (0 \<le> j + f); Some (nat (j + f)) })) (\<lambda>loc.
              bindE (grow_table loc P) (\<lambda>P.
                bindE (liftE (rd (check P) loc)) (\<lambda>c. returnE (c = - 1, k + 1, P)))))
         (True, 0, P)) (\<lambda>(ok, k, Q). I (ok, k, Q) \<and> \<not> (ok \<and> k < t)) (\<lambda>_. True)"
  proof (rule wpE_whileE [where I = I and m = "\<lambda>(ok, k, P). t - k"], goal_cases)
    case 1
    show ?case using P grown_refl by (simp add: I_def)
  next
    case (2 s)
    then obtain k Q where s: "s = (True, k, Q)" "k < t" and I: "I (True, k, Q)" by (cases s) auto
    then have Q: "packed V nv os Q" "grown P Q" and free: "\<forall>i < k. nat (j + from ! i) < length (check Q) \<and> check Q ! nat (j + from ! i) = - 1"
      and k0: "0 < k \<longrightarrow> j + from ! 0 \<le> int MAXTABLE + 200"
      by (auto simp: I_def)
    have step: "I (c = - 1, Suc k, R)" if R: "packed V nv os R" "grown Q R" "nat (j + from ! k) < length (table R)"
      and c: "c = check R ! nat (j + from ! k)" for R c
    proof -
      note sz = pack_sizesD [OF packedD(1) [OF R(1)]]
      have "j + from ! 0 \<le> int MAXTABLE + 200"
        using k0 R(3) sz(3) j [of k] s(2) by (cases "k = 0") auto
      moreover have "nat (j + from ! i) < length (check R) \<and> check R ! nat (j + from ! i) = - 1" if "c = - 1" "i < Suc k" for i
        using free grown_check [OF R(2)] that R(3) sz(1) c by (cases "i = k") auto
      ultimately show ?thesis using R Q grown_trans s(2) by (auto simp: I_def)
    qed
    show ?case
      unfolding s(1) using s(2) t j [OF s(2)]
      by (simp add: wpE_simps wp_simps)
        (rule wpE_mono [OF grow_table_ok [OF Q(1)]], auto simp: wp_simps wpE_simps packed_length intro!: step)
  qed (auto simp: I_def)
  then show ?thesis
    unfolding try_place_def wpE_bindE
    by (rule wpE_mono) (use t in \<open>auto simp: I_def wpE_simps dest: grown_same\<close>)
qed

subsection \<open>Placing a vector\<close>

lemma start_place_ok:
  assumes "length from = t" "0 < t" "\<And>k. k < t \<Longrightarrow> 0 \<le> from ! k"
  shows "wp (start_place from t lz) (\<lambda>j. (\<forall>k < t. int lz \<le> j + from ! k) \<and> j \<le> int lz)"
proof -
  have "wp (for_up 1 t (\<lambda>k j. do { f \<leftarrow> rd from k; Some (if j < int lz - f then int lz - f else j) }) (int lz - from ! 0))
      (\<lambda>j. (\<forall>k < t. int lz \<le> j + from ! k) \<and> j \<le> int lz)"
  proof (rule wp_for_up [where I = "\<lambda>i j. (\<forall>k < i. int lz \<le> j + from ! k) \<and> j \<le> int lz"], goal_cases)
    case (3 i j)
    have "int lz \<le> (if j < int lz - from ! i then int lz - from ! i else j) + from ! k" if "k < Suc i" for k
    proof (cases "k = i")
      case False
      with that 3(3) have "int lz \<le> j + from ! k" by simp
      then show ?thesis by simp
    qed simp
    with 3 assms show ?case by (simp add: wp_simps)
  qed (use assms in auto)
  with assms show ?thesis by (simp add: start_place_def wp_simps)
qed

text \<open>The entries of a vector written one after the other.\<close>

definition entries_written :: "int list \<Rightarrow> int list \<Rightarrow> int \<Rightarrow> pack \<Rightarrow> nat \<Rightarrow> pack \<Rightarrow> bool" where
  "entries_written from to j P n Q \<longleftrightarrow>
     (\<exists>tb ck h. Q = P\<lparr>table := tb, check := ck, high := h\<rparr> \<and> length tb = length (table P) \<and> length ck = length (check P) \<and>
       high P \<le> h \<and> h < length (table P) \<and>
       (\<forall>k < n. nat (j + from ! k) \<le> h \<and> tb ! nat (j + from ! k) = to ! k \<and> ck ! nat (j + from ! k) = from ! k) \<and>
       (\<forall>l < length (table P). (\<forall>k < n. nat (j + from ! k) \<noteq> l) \<longrightarrow> tb ! l = table P ! l \<and> ck ! l = check P ! l))"

lemma write_entry:
  assumes w: "entries_written from to j P n Q" and n: "n < length from" "distinct from" and j: "\<And>k. k < length from \<Longrightarrow> 0 \<le> j + from ! k"
    and loc: "nat (j + from ! n) < length (table P)" and len: "length (check P) = length (table P)"
  shows "entries_written from to j P (Suc n) (Q\<lparr>table := (table Q)[nat (j + from ! n) := to ! n],
    check := (check Q)[nat (j + from ! n) := from ! n], high := if high Q < nat (j + from ! n) then nat (j + from ! n) else high Q\<rparr>)"
proof -
  from w obtain tb ck h where Q: "Q = P\<lparr>table := tb, check := ck, high := h\<rparr>" "length tb = length (table P)" "length ck = length (check P)"
    "high P \<le> h" "h < length (table P)"
    and old: "\<And>k. k < n \<Longrightarrow> nat (j + from ! k) \<le> h \<and> tb ! nat (j + from ! k) = to ! k \<and> ck ! nat (j + from ! k) = from ! k"
    and rest: "\<And>l. l < length (table P) \<Longrightarrow> \<forall>k < n. nat (j + from ! k) \<noteq> l \<Longrightarrow> tb ! l = table P ! l \<and> ck ! l = check P ! l"
    unfolding entries_written_def by blast
  have diff: "nat (j + from ! k) \<noteq> nat (j + from ! n)" if "k < n" for k
    using nth_eq_iff_index_eq [OF n(2), of k n] j [of k] j [of n] n(1) that by auto
  show ?thesis
    unfolding entries_written_def
  proof (intro exI conjI)
    let ?loc = "nat (j + from ! n)"
    show "Q\<lparr>table := (table Q)[?loc := to ! n], check := (check Q)[?loc := from ! n], high := if high Q < ?loc then ?loc else high Q\<rparr> =
      P\<lparr>table := tb[?loc := to ! n], check := ck[?loc := from ! n], high := max h ?loc\<rparr>" by (simp add: Q(1) max_def)
    show "\<forall>k < Suc n. nat (j + from ! k) \<le> max h ?loc \<and> tb[?loc := to ! n] ! nat (j + from ! k) = to ! k \<and>
        ck[?loc := from ! n] ! nat (j + from ! k) = from ! k"
    proof (intro allI impI)
      fix k assume k: "k < Suc n"
      show "nat (j + from ! k) \<le> max h ?loc \<and> tb[?loc := to ! n] ! nat (j + from ! k) = to ! k \<and> ck[?loc := from ! n] ! nat (j + from ! k) = from ! k"
      proof (cases "k = n")
        case True
        then show ?thesis using loc Q(2,3) len by simp
      next
        case False
        with k have "k < n" by simp
        with old [OF this] diff [OF this] show ?thesis by auto
      qed
    qed
    show "\<forall>l < length (table P). (\<forall>k < Suc n. nat (j + from ! k) \<noteq> l) \<longrightarrow>
        tb[?loc := to ! n] ! l = table P ! l \<and> ck[?loc := from ! n] ! l = check P ! l"
      using rest by (auto simp: less_Suc_eq)
  qed (use Q loc in auto)
qed

lemma place_vector_ok:
  assumes wf: "length from = t" "length to = t" "distinct from" and sz: "pack_sizes nv P" and j: "\<And>k. k < t \<Longrightarrow> 0 \<le> j + from ! k"
    and free: "\<And>k. k < t \<Longrightarrow> nat (j + from ! k) < length (check P)"
  shows "wp (place_vector from to t j P) (\<lambda>Q. \<exists>R lz. entries_written from to j P t R \<and> Q = R\<lparr>lowzero := lz\<rparr> \<and> lz \<le> length (table P))"
proof -
  note sz = pack_sizesD [OF sz]
  have lens: "entries_written from to j P n Q \<Longrightarrow> length (table Q) = length (table P) \<and> length (check Q) = length (table P) \<and> lowzero Q = lowzero P" for n Q
    using sz(1) by (auto simp: entries_written_def)
  have first: "wp (for_up 0 t (\<lambda>k P. do {
         f \<leftarrow> rd from k;
         v \<leftarrow> rd to k;
         let loc = nat (j + f);
         tb \<leftarrow> wr (table P) loc v;
         ck \<leftarrow> wr (check P) loc f;
         Some (P\<lparr>table := tb, check := ck, high := if high P < loc then loc else high P\<rparr>) }) P) (entries_written from to j P t)"
  proof (rule wp_for_up [where I = "entries_written from to j P"], goal_cases)
    case 2
    show ?case unfolding entries_written_def using sz by (intro exI [of _ "table P"] exI [of _ "check P"] exI [of _ "high P"]) simp
  next
    case (3 i Q)
    have "nat (j + from ! i) < length (table P)" using free 3 sz(1) by simp
    moreover from this have "entries_written from to j P (Suc i) (Q\<lparr>table := (table Q)[nat (j + from ! i) := to ! i],
      check := (check Q)[nat (j + from ! i) := from ! i], high := if high Q < nat (j + from ! i) then nat (j + from ! i) else high Q\<rparr>)"
      using 3 wf j sz(1) by (intro write_entry) auto
    ultimately show ?case using 3 wf lens [OF 3(3)] by (simp add: wp_simps Let_def)
  qed simp_all
  have second: "wp (whileM (\<lambda>l. if l < length (table Q) then do { c \<leftarrow> rd (check Q) l; Some (c \<noteq> - 1) } else Some False)
       (\<lambda>l. Some (l + 1)) (lowzero Q)) (\<lambda>l. l \<le> length (table P))" if "entries_written from to j P t Q" for Q
    by (rule wp_whileM [where I = "\<lambda>l. l \<le> length (table P)" and m = "\<lambda>l. length (table P) - l"])
      (use lens [OF that] sz in \<open>auto simp: wp_simps\<close>)
  show ?thesis
    unfolding place_vector_def wp_bind
    by (rule wp_mono [OF first], rule wp_mono [OF second]) (auto simp: wp_simps)
qed

text \<open>The state after a vector has got its place, in the words of \<open>packed\<close>.\<close>

lemma packed_new_vector:
  assumes wf: "wf_vectors nv V" and P: "packed V nv os P" and os: "set os \<subseteq> {..<nv}" and v: "v < nv" "v \<notin> set os"
    and j: "j \<noteq> 0" "j \<notin> set (pos P)" "\<And>k. k < tally V ! v \<Longrightarrow> 0 \<le> j + froms V ! v ! k"
    and free: "\<And>k. k < tally V ! v \<Longrightarrow> nat (j + froms V ! v ! k) < length (check P) \<and> check P ! nat (j + froms V ! v ! k) = - 1"
    and w: "entries_written (froms V ! v) (tos V ! v) j P (tally V ! v) R" and lz: "lz \<le> length (table P)"
  shows "packed V nv (os @ [v]) (R\<lparr>lowzero := lz, pos := pos R @ [j], base := (base R)[v := j]\<rparr>)" (is "packed V nv _ ?Q")
proof -
  note sz = pack_sizesD [OF packedD(1) [OF P]] and wfv = wf_vectorsD [OF wf]
  from w obtain tb ck h where R: "R = P\<lparr>table := tb, check := ck, high := h\<rparr>" "length tb = length (table P)" "length ck = length (check P)"
    "high P \<le> h" "h < length (table P)"
    and new: "\<And>k. k < tally V ! v \<Longrightarrow> nat (j + froms V ! v ! k) \<le> h \<and> tb ! nat (j + froms V ! v ! k) = tos V ! v ! k \<and> ck ! nat (j + froms V ! v ! k) = froms V ! v ! k"
    and rest: "\<And>l. l < length (table P) \<Longrightarrow> \<forall>k < tally V ! v. nat (j + froms V ! v ! k) \<noteq> l \<Longrightarrow> tb ! l = table P ! l \<and> ck ! l = check P ! l"
    unfolding entries_written_def by blast
  have keep: "tb ! l = table P ! l \<and> ck ! l = check P ! l" if "l < length (table P)" "check P ! l \<noteq> - 1" for l
    using free that by (intro rest) auto
  have other: "(base P)[v := j] ! u = base P ! u" if "u \<in> set os" for u using that v(2) by (metis nth_list_update_neq)
  have self: "(base P)[v := j] ! v = j" using v(1) sz(5) by simp
  have fresh: "base P ! u \<noteq> j" if "u \<in> set os" for u using j(2) that packedD(2) [OF P] by auto
  show ?thesis
  proof (rule packedI)
    show "pack_sizes nv ?Q" using sz R lz by (simp add: pack_sizes_def)
    show "pos ?Q = map ((!) (base ?Q)) (os @ [v])" using packedD(2) [OF P] other self by (simp add: R(1))
  next
    fix u assume u: "u \<in> set (os @ [v])"
    show "placed_at V ?Q u"
    proof (cases "u = v")
      case True
      then show ?thesis using new j self by (fastforce simp: placed_at_def R(1))
    next
      case False
      with u have uo: "u \<in> set os" by simp
      have pl: "placed_at V P u" by (rule packedD(3) [OF P uo])
      have un: "u < nv" using os uo by auto
      have "tb ! nat (base P ! u + froms V ! u ! k) = tos V ! u ! k \<and> ck ! nat (base P ! u + froms V ! u ! k) = froms V ! u ! k \<and>
          base P ! u + froms V ! u ! k \<le> int h \<and> 0 \<le> base P ! u + froms V ! u ! k" if k: "k < tally V ! u" for k
      proof -
        from pl k have c: "0 \<le> base P ! u + froms V ! u ! k" "base P ! u + froms V ! u ! k \<le> int (high P)"
          "check P ! nat (base P ! u + froms V ! u ! k) = froms V ! u ! k" "table P ! nat (base P ! u + froms V ! u ! k) = tos V ! u ! k"
          unfolding placed_at_def by blast+
        have "froms V ! u ! k \<noteq> - 1" using wfv(8) [OF un k] by linarith
        then show ?thesis using keep [of "nat (base P ! u + froms V ! u ! k)"] c sz(2) R(4) by auto
      qed
      with pl show ?thesis using other [OF uo] by (simp add: placed_at_def R(1))
    qed
  next
    fix l assume l: "l < length (check ?Q)" "check ?Q ! l \<noteq> - 1"
    then have lP: "l < length (table P)" "ck ! l \<noteq> - 1" using R sz(1) by simp_all
    show "l \<le> high ?Q \<and> (\<exists>v \<in> set (os @ [v]). base ?Q ! v + check ?Q ! l = int l \<and> check ?Q ! l \<in> set (froms V ! v))"
    proof (cases "\<exists>k < tally V ! v. nat (j + froms V ! v ! k) = l")
      case True
      then obtain k where k: "k < tally V ! v" "nat (j + froms V ! v ! k) = l" by blast
      then show ?thesis using new [OF k(1)] j(3) [OF k(1)] self wfv(5) [OF v(1)] by (auto simp: R(1))
    next
      case False
      then have c: "ck ! l = check P ! l" using rest [OF lP(1)] by blast
      then obtain u where "u \<in> set os" "base P ! u + check P ! l = int l" "check P ! l \<in> set (froms V ! u)" "l \<le> high P"
        using packedD(4) [OF P, of l] lP sz(1) by auto
      then show ?thesis using other c R(1,4) by (auto intro!: bexI [of _ u])
    qed
  next
    fix u w assume uw: "u \<in> set (os @ [v])" "w \<in> set (os @ [v])" "base ?Q ! u = base ?Q ! w"
    then show "froms V ! u = froms V ! w \<and> tos V ! u = tos V ! w"
      using packedD(5) [OF P, of u w] other fresh self by (cases "u = v"; cases "w = v") (auto simp: R(1))
  next
    fix u assume "u < nv" "u \<notin> set (os @ [v])"
    then show "base ?Q ! u = 0" using packedD(6) [OF P] by (simp add: R(1))
  qed
qed

lemma packed_shared_vector:
  assumes P: "packed V nv os P" and v: "v < nv" "v \<notin> set os" and u: "u \<in> set os" "tally V ! u = tally V ! v"
    "froms V ! u = froms V ! v" "tos V ! u = tos V ! v"
  shows "packed V nv (os @ [v]) (P\<lparr>pos := pos P @ [base P ! u], base := (base P)[v := base P ! u]\<rparr>)" (is "packed V nv _ ?Q")
proof -
  note sz = pack_sizesD [OF packedD(1) [OF P]]
  have other: "(base P)[v := b] ! w = base P ! w" if "w \<in> set os" for w b using that v(2) by (metis nth_list_update_neq)
  have self: "(base P)[v := b] ! v = b" for b using v(1) sz(5) by simp
  show ?thesis
  proof (rule packedI)
    show "pack_sizes nv ?Q" using sz by (simp add: pack_sizes_def)
    show "pos ?Q = map ((!) (base ?Q)) (os @ [v])" using packedD(2) [OF P] other self by simp
  next
    fix w assume w: "w \<in> set (os @ [v])"
    show "placed_at V ?Q w"
    proof (cases "w = v")
      case True
      with packedD(3) [OF P u(1)] show ?thesis unfolding placed_at_def using u(2-4) self by simp
    next
      case False
      with w have wo: "w \<in> set os" by simp
      with packedD(3) [OF P wo] show ?thesis unfolding placed_at_def using other [OF wo] by simp
    qed
  next
    fix l assume l: "l < length (check ?Q)" "check ?Q ! l \<noteq> - 1"
    with packedD(4) [OF P, of l] obtain w where "w \<in> set os" "base P ! w + check P ! l = int l" "check P ! l \<in> set (froms V ! w)" "l \<le> high P"
      by auto
    then show "l \<le> high ?Q \<and> (\<exists>v \<in> set (os @ [v]). base ?Q ! v + check ?Q ! l = int l \<and> check ?Q ! l \<in> set (froms V ! v))"
      using other by (auto intro!: bexI [of _ w])
  next
    fix w x assume wx: "w \<in> set (os @ [v])" "x \<in> set (os @ [v])" "base ?Q ! w = base ?Q ! x"
    define rep where "rep y = (if y = v then u else y)" for y
    have rep: "rep y \<in> set os" "base ?Q ! y = base P ! rep y" "froms V ! rep y = froms V ! y" "tos V ! rep y = tos V ! y" if "y \<in> set (os @ [v])" for y
      using that u self other by (auto simp: rep_def)
    have "base P ! rep w = base P ! rep x" using rep(2) wx by metis
    from packedD(5) [OF P rep(1) [OF wx(1)] rep(1) [OF wx(2)] this] show "froms V ! w = froms V ! x \<and> tos V ! w = tos V ! x"
      using rep(3,4) wx(1,2) by metis
  next
    fix w assume "w < nv" "w \<notin> set (os @ [v])"
    then show "base ?Q ! w = 0" using packedD(6) [OF P] by simp
  qed
qed

lemma same_entries_ok:
  assumes wf: "wf_vectors nv V" and i: "i < nv" and j: "j < nv" and t: "tally V ! i = t" "tally V ! j = t"
  shows "wp (same_entries V i j t) (\<lambda>match. match \<longrightarrow> froms V ! j = froms V ! i \<and> tos V ! j = tos V ! i)"
proof -
  note wfv = wf_vectorsD [OF wf]
  have "wp (whileM (\<lambda>(k, match). Some (match \<and> k < t))
       (\<lambda>(k, match). do {
          ti \<leftarrow> rd (tos V) i; tj \<leftarrow> rd (tos V) j; fi \<leftarrow> rd (froms V) i; fj \<leftarrow> rd (froms V) j;
          a \<leftarrow> rd tj k; b \<leftarrow> rd ti k; c \<leftarrow> rd fj k; d \<leftarrow> rd fi k;
          Some (k + 1, \<not> (a \<noteq> b \<or> c \<noteq> d)) }) (0, True))
     (\<lambda>(k, match). match \<longrightarrow> (\<forall>l < t. froms V ! j ! l = froms V ! i ! l \<and> tos V ! j ! l = tos V ! i ! l))"
    by (rule wp_whileM [where I = "\<lambda>(k, match). k \<le> t \<and> (match \<longrightarrow> (\<forall>l < k. froms V ! j ! l = froms V ! i ! l \<and> tos V ! j ! l = tos V ! i ! l))"
          and m = "\<lambda>(k, match). t - k"])
      (use wfv(1,2) wfv(5,6) [OF i] wfv(5,6) [OF j] i j t in \<open>auto simp: wp_simps less_Suc_eq\<close>)
  then show ?thesis
    unfolding same_entries_def wp_bind
    by (rule wp_mono) (use wfv(5,6) [OF i] wfv(5,6) [OF j] t in \<open>auto simp: wp_simps intro!: nth_equalityI\<close>)
qed

lemma matching_scan_ok:
  assumes wf: "wf_vectors nv V" and ord: "set ord \<subseteq> {..<nv}" and i: "i < nv"
  shows "n \<le> length ord \<Longrightarrow> wp (matching_scan V ord i (tally V ! i) w n) (\<lambda>r. case r of None \<Rightarrow> True | Some u \<Rightarrow>
    u \<in> set (take n ord) \<and> tally V ! u = tally V ! i \<and> froms V ! u = froms V ! i \<and> tos V ! u = tos V ! i)"
proof (induction n)
  case 0
  then show ?case by (simp add: wp_simps)
next
  case (Suc n)
  then have n: "n < length ord" by simp
  then have o: "ord ! n < nv" using ord nth_mem by blast
  have tk: "set (take (Suc n) ord) = insert (ord ! n) (set (take n ord))" using n by (simp add: take_Suc_conv_app_nth)
  have IH: "wp (matching_scan V ord i (tally V ! i) w n) (\<lambda>r. case r of None \<Rightarrow> True | Some u \<Rightarrow>
    u \<in> set (take (Suc n) ord) \<and> tally V ! u = tally V ! i \<and> froms V ! u = froms V ! i \<and> tos V ! u = tos V ! i)"
    using n by (intro wp_mono [OF Suc.IH]) (auto simp: tk split: option.splits)
  show ?case
  proof (cases "width V ! (ord ! n) \<noteq> w \<or> tally V ! (ord ! n) \<noteq> tally V ! i")
    case True
    then show ?thesis using n o by (simp add: wp_simps wf_vectorsD [OF wf])
  next
    case False
    obtain m where m: "same_entries V i (ord ! n) (tally V ! i) = Some m" "m \<Longrightarrow> froms V ! (ord ! n) = froms V ! i \<and> tos V ! (ord ! n) = tos V ! i"
      using same_entries_ok [OF wf i o] False by (auto simp: wp_def)
    show ?thesis using False n o m IH by (cases m) (simp_all add: wp_simps wf_vectorsD [OF wf] tk)
  qed
qed

text \<open>
  The search for a place ends: the first entry of the vector moves up with every attempt, and the table
  may not grow beyond its maximum.
\<close>

definition next_packed :: "vectors \<Rightarrow> nat \<Rightarrow> nat list \<Rightarrow> nat \<Rightarrow> int \<Rightarrow> pack \<Rightarrow> bool" where
  "next_packed V nv os v j Q \<longleftrightarrow> packed V nv (os @ [v]) (Q\<lparr>pos := pos Q @ [j], base := (base Q)[v := j]\<rparr>)"

definition placing :: "vectors \<Rightarrow> nat \<Rightarrow> nat list \<Rightarrow> nat \<Rightarrow> bool \<times> int \<times> pack \<Rightarrow> bool" where
  "placing V nv os v = (\<lambda>(found, j, Q). if found then next_packed V nv os v j Q
     else packed V nv os Q \<and> (\<forall>k < tally V ! v. 0 \<le> j + froms V ! v ! k) \<and> j + froms V ! v ! 0 \<le> 70000)"

lemma place_found:
  assumes wf: "wf_vectors nv V" and os: "set os \<subseteq> {..<nv}" and v: "v < nv" "v \<notin> set os" and Q: "packed V nv os Q"
    and j: "j \<noteq> 0" "j \<notin> set (pos Q)" "\<forall>k < tally V ! v. 0 \<le> j + froms V ! v ! k"
    and free: "\<forall>k < tally V ! v. nat (j + froms V ! v ! k) < length (check Q) \<and> check Q ! nat (j + froms V ! v ! k) = - 1"
  shows "wp (place_vector (froms V ! v) (tos V ! v) (tally V ! v) j Q) (next_packed V nv os v j)"
proof -
  note wfv = wf_vectorsD(5-7) [OF wf v(1)]
  have pl: "wp (place_vector (froms V ! v) (tos V ! v) (tally V ! v) j Q)
      (\<lambda>S. \<exists>R lz. entries_written (froms V ! v) (tos V ! v) j Q (tally V ! v) R \<and> S = R\<lparr>lowzero := lz\<rparr> \<and> lz \<le> length (table Q))"
    using j free by (intro place_vector_ok [OF wfv packedD(1) [OF Q]]) auto
  show ?thesis
  proof (rule wp_mono [OF pl], elim exE conjE)
    fix S R lz assume R: "entries_written (froms V ! v) (tos V ! v) j Q (tally V ! v) R" "S = R\<lparr>lowzero := lz\<rparr>" "lz \<le> length (table Q)"
    show "next_packed V nv os v j S"
      unfolding next_packed_def R(2) using packed_new_vector [OF wf Q os v j(1,2) _ _ R(1,3)] j(3) free by simp
  qed
qed

lemma place_step:
  assumes wf: "wf_vectors nv V" and os: "set os \<subseteq> {..<nv}" and v: "v < nv" "v \<notin> set os" "0 < tally V ! v"
    and I: "placing V nv os v (False, j, Q)"
  shows "wpE (if j = 0 then returnE (False, j + 1, Q)
      else bindE (try_place (froms V ! v) (tally V ! v) j Q) (\<lambda>(ok, P).
        if ok then bindE (liftE (place_vector (froms V ! v) (tos V ! v) (tally V ! v) j P)) (\<lambda>P. returnE (True, j, P))
        else returnE (False, j + 1, P)))
    (\<lambda>(found, j', P). placing V nv os v (found, j', P) \<and> (\<not> found \<longrightarrow> j' = j + 1)) (\<lambda>_. True)"
proof -
  have Q: "packed V nv os Q" and j: "\<forall>k < tally V ! v. 0 \<le> j + froms V ! v ! k" and hi: "j + froms V ! v ! 0 \<le> 70000"
    using I by (auto simp: placing_def)
  have f0: "0 \<le> froms V ! v ! 0" "froms V ! v ! 0 \<le> int MAXSHORT" using wf_vectorsD(8) [OF wf v(1,3)] by auto
  have up: "\<forall>k < tally V ! v. 0 \<le> j + 1 + froms V ! v ! k" using j by auto
  show ?thesis
  proof (cases "j = 0")
    case True
    have "placing V nv os v (False, 1, Q)" using Q f0 up True hi by (simp add: placing_def MAXTABLE_def MAXSHORT_def)
    with True show ?thesis by (simp add: wpE_simps)
  next
    case False
    have "wpE (try_place (froms V ! v) (tally V ! v) j Q) (\<lambda>(ok, R). packed V nv os R \<and> grown Q R \<and> j + froms V ! v ! 0 \<le> int MAXTABLE + 200 \<and>
      (ok \<longrightarrow> j \<notin> set (pos Q) \<and> (\<forall>k < tally V ! v. nat (j + froms V ! v ! k) < length (check R) \<and> check R ! nat (j + froms V ! v ! k) = - 1))) (\<lambda>_. True)"
      using j by (intro try_place_ok [OF Q wf_vectorsD(5) [OF wf v(1)] v(3)]) auto
    then have "wpE (bindE (try_place (froms V ! v) (tally V ! v) j Q) (\<lambda>(ok, P).
        if ok then bindE (liftE (place_vector (froms V ! v) (tos V ! v) (tally V ! v) j P)) (\<lambda>P. returnE (True, j, P))
        else returnE (False, j + 1, P))) (\<lambda>(found, j', P). placing V nv os v (found, j', P) \<and> (\<not> found \<longrightarrow> j' = j + 1)) (\<lambda>_. True)"
      unfolding wpE_bindE
    proof (rule wpE_mono, clarify)
      fix ok R assume R: "packed V nv os R" "grown Q R" "j + froms V ! v ! 0 \<le> int MAXTABLE + 200"
        and ok: "ok \<longrightarrow> j \<notin> set (pos Q) \<and> (\<forall>k < tally V ! v. nat (j + froms V ! v ! k) < length (check R) \<and> check R ! nat (j + froms V ! v ! k) = - 1)"
      show "wpE (if ok then bindE (liftE (place_vector (froms V ! v) (tos V ! v) (tally V ! v) j R)) (\<lambda>P. returnE (True, j, P))
          else returnE (False, j + 1, R)) (\<lambda>(found, j', P). placing V nv os v (found, j', P) \<and> (\<not> found \<longrightarrow> j' = j + 1)) (\<lambda>_. True)"
      proof (cases ok)
        case True
        with ok place_found [OF wf os v(1,2) R(1) False _ j] grown_same [OF R(2)]
        have "wp (place_vector (froms V ! v) (tos V ! v) (tally V ! v) j R) (next_packed V nv os v j)" by simp
        then show ?thesis using True by (simp add: wpE_simps placing_def)
      next
        case False
        then show ?thesis using R up by (simp add: wpE_simps placing_def algebra_simps MAXTABLE_def)
      qed
    qed
    with False show ?thesis by simp
  qed
qed

lemma pack_vector_ok:
  assumes wf: "wf_vectors nv V" and os: "set os \<subseteq> {..<nv}" and v: "v < nv" "v \<notin> set os" "0 < tally V ! v"
    and P: "packed V nv os P" and i: "i < length ord" "ord ! i = v"
  shows "wpE (pack_vector V ord i P) (\<lambda>(j, Q). next_packed V nv os v j Q) (\<lambda>_. True)"
proof -
  note wfv = wf_vectorsD [OF wf]
  obtain j where j: "start_place (froms V ! v) (tally V ! v) (lowzero P) = Some j" "\<forall>k < tally V ! v. int (lowzero P) \<le> j + froms V ! v ! k" "j \<le> int (lowzero P)"
    using start_place_ok [OF wfv(5) [OF v(1)] v(3), of "lowzero P"] wfv(8) [OF v(1)] by (auto simp: wp_def)
  have "j + froms V ! v ! 0 \<le> 70000"
    using j(3) wfv(8) [OF v(1,3)] pack_sizesD(3,4) [OF packedD(1) [OF P]] by (simp add: MAXTABLE_def MAXSHORT_def)
  have start: "do { i \<leftarrow> rd ord i; t \<leftarrow> rd (tally V) i; guard (t \<noteq> 0); from \<leftarrow> rd (froms V) i; to \<leftarrow> rd (tos V) i;
      j \<leftarrow> start_place from t (lowzero P); Some (t, from, to, j) } = Some (tally V ! v, froms V ! v, tos V ! v, j)"
    using i v wfv(1-3) j(1) by (simp add: rd_def guard_def)
  have init: "placing V nv os v (False, j, P)" using \<open>j + froms V ! v ! 0 \<le> 70000\<close> P j(2) by (fastforce simp: placing_def)
  have "wpE (whileE (\<lambda>(found, j, P). \<not> found)
             (\<lambda>(found, j, P).
                if j = 0 then returnE (False, j + 1, P)
                else bindE (try_place (froms V ! v) (tally V ! v) j P) (\<lambda>(ok, P).
                  if ok then bindE (liftE (place_vector (froms V ! v) (tos V ! v) (tally V ! v) j P)) (\<lambda>P. returnE (True, j, P))
                  else returnE (False, j + 1, P)))
             (False, j, P)) (\<lambda>(found, j, Q). next_packed V nv os v j Q) (\<lambda>_. True)"
  proof (rule wpE_whileE [where I = "placing V nv os v" and m = "\<lambda>(found, j, Q). if found then 0 else Suc (nat (70001 - (j + froms V ! v ! 0)))"], goal_cases)
    case (2 s)
    then obtain j Q where s: "s = (False, j, Q)" and I: "placing V nv os v (False, j, Q)" by (cases s) auto
    then have "j + froms V ! v ! 0 \<le> 70000" by (simp add: placing_def)
    then show ?case unfolding s split_conv
      by (intro wpE_mono [OF place_step [OF wf os v I]]) auto
  qed (use init in \<open>auto simp: placing_def split: if_splits\<close>)
  then show ?thesis
    unfolding pack_vector_def start bindE_liftE split_conv wpE_bindE by (rule wpE_mono) (auto simp: wpE_simps)
qed

lemma pack_step_ok:
  assumes wf: "wf_vectors nv V" and ord: "distinct ord" "\<And>v. v \<in> set ord \<longleftrightarrow> v < nv \<and> 0 < tally V ! v"
    and P: "packed V nv (take i ord) P" and i: "i < length ord"
  shows "wpE (pack_step nstates V ord i P) (packed V nv (take (Suc i) ord)) (\<lambda>_. True)"
proof -
  define v where "v = ord ! i"
  have "v \<in> set ord" using i by (simp add: v_def)
  then have v: "v < nv" "0 < tally V ! v" using ord(2) by auto
  have v': "v \<notin> set (take i ord)" using ord(1) i unfolding v_def by (metis distinct_take in_set_conv_nth length_take less_imp_le_nat min.absorb2 nth_eq_iff_index_eq nth_take order_less_irrefl order_less_trans)
  have sub: "set ord \<subseteq> {..<nv}" using ord(2) by auto
  then have os: "set (take i ord) \<subseteq> {..<nv}" using set_take_subset by fastforce
  have tk: "take (Suc i) ord = take i ord @ [v]" using i by (simp add: take_Suc_conv_app_nth v_def)
  have mv: "wp (matching_vector nstates V ord i) (\<lambda>r. case r of None \<Rightarrow> True | Some u \<Rightarrow>
    u \<in> set (take i ord) \<and> tally V ! u = tally V ! v \<and> froms V ! u = froms V ! v \<and> tos V ! u = tos V ! v)"
    using i v matching_scan_ok [OF wf sub v(1), of i "width V ! v"]
    by (simp add: matching_vector_def wp_simps v_def [symmetric] wf_vectorsD [OF wf])
  then obtain r where r: "matching_vector nstates V ord i = Some r" "case r of None \<Rightarrow> True | Some u \<Rightarrow>
    u \<in> set (take i ord) \<and> tally V ! u = tally V ! v \<and> froms V ! u = froms V ! v \<and> tos V ! u = tos V ! v" by (auto simp: wp_def)
  have lb: "v < length (base Q)" if "next_packed V nv (take i ord) v j Q" for j Q
    using pack_sizesD(5) [OF packedD(1) [OF that [unfolded next_packed_def]]] v(1) by simp
  have fin: "wp (do { v \<leftarrow> rd ord i; b \<leftarrow> wr (base Q) v j; Some (Q\<lparr>pos := pos Q @ [j], base := b\<rparr>) }) (packed V nv (take (Suc i) ord))"
    if "next_packed V nv (take i ord) v j Q" for j Q
    using that i lb [OF that] by (simp add: wp_simps tk next_packed_def v_def [symmetric])
  show ?thesis
  proof (cases r)
    case None
    have "wpE (pack_vector V ord i P) (\<lambda>(j, Q). next_packed V nv (take i ord) v j Q) (\<lambda>_. True)"
      by (rule pack_vector_ok [OF wf os v(1) v' v(2) P i]) (simp add: v_def)
    then show ?thesis
      unfolding pack_step_def r(1) bindE_liftE None option.case(1) wpE_bindE
      by (rule wpE_mono) (use fin in \<open>auto simp: wpE_simps\<close>)
  next
    case (Some u)
    with r(2) have u: "u \<in> set (take i ord)" "tally V ! u = tally V ! v" "froms V ! u = froms V ! v" "tos V ! u = tos V ! v" by auto
    have "next_packed V nv (take i ord) v (base P ! u) P" unfolding next_packed_def by (rule packed_shared_vector [OF P v(1) v' u])
    moreover have "u < length (base P)" using u(1) os pack_sizesD(5) [OF packedD(1) [OF P]] by auto
    ultimately show ?thesis
      using fin by (simp add: pack_step_def r(1) bindE_liftE Some wpE_simps wp_rd wp_bind wp_Some)
  qed
qed

lemma pack_table_packed:
  assumes "wf_vectors nv V" and ord: "distinct ord" "\<And>v. v \<in> set ord \<longleftrightarrow> v < nv \<and> 0 < tally V ! v"
  shows "wpE (pack_table nstates nv V ord) (\<lambda>P. packed V nv ord P) (\<lambda>_. True)"
proof -
  let ?P = "\<lparr>table = replicate 1000 0, check = replicate 1000 (- 1), base = replicate nv 0, pos = [], lowzero = 0, high = 0\<rparr>"
  have init: "packed V nv (take 0 ord) ?P" by (rule packedI) (auto simp: pack_sizes_def MAXTABLE_def)
  have "wpE (foldE (pack_step nstates V ord) [0..<length ord] ?P) (\<lambda>P. packed V nv ord P) (\<lambda>_. True)"
  proof (rule wpE_mono [OF wpE_foldE [where I = "\<lambda>ks P. \<exists>i \<le> length ord. [i..<length ord] = ks \<and> packed V nv (take i ord) P"]])
    fix y ys P assume "\<exists>i \<le> length ord. [i..<length ord] = y # ys \<and> packed V nv (take i ord) P"
    then obtain i where i: "[i..<length ord] = y # ys" "packed V nv (take i ord) P" by blast
    then have lt: "i < length ord" by (metis list.distinct(1) upt_rec)
    with i have y: "y = i" "ys = [Suc i..<length ord]" by (auto simp: upt_conv_Cons)
    have "wpE (pack_step nstates V ord i P) (packed V nv (take (Suc i) ord)) (\<lambda>_. True)"
      by (rule pack_step_ok [OF assms(1) ord i(2) lt])
    then show "wpE (pack_step nstates V ord y P) (\<lambda>P. \<exists>i \<le> length ord. [i..<length ord] = ys \<and> packed V nv (take i ord) P) (\<lambda>_. True)"
      unfolding y by (rule wpE_mono) (use lt in \<open>auto intro!: exI [of _ "Suc i"]\<close>)
  qed (use init in auto)
  then show ?thesis unfolding pack_table_def .
qed


definition sample_vectors :: vectors where
  "sample_vectors = \<lparr>froms = [[3, 5], [], [0]], tos = [[7, 8], [], [2]], tally = [2, 0, 1], width = [3, 0, 1]\<rparr>"


end
