(* ===== verification/Shorts.thy ===== *)
theory Shorts
  imports Prelude
begin

text \<open>
  Tables of 16-bit numbers in OCaml strings, low byte first, as the lexer and parser engines read them
  (\<open>Short\<close> and \<open>UShort\<close> of \<^verbatim>\<open>src/runtime/lexing.c\<close> and \<^verbatim>\<open>parsing.c\<close>), with \<open>shorts\<close>, the encoding they decode.
\<close>

definition Short :: "u8 list \<Rightarrow> int \<Rightarrow> int option" where
  "Short tbl n = do {
     guard (0 \<le> n);
     lo \<leftarrow> rd tbl (nat n * 2);
     hi \<leftarrow> rd tbl (nat n * 2 + 1);
     Some (uint lo + sint hi * 256) }"

definition UShort :: "u8 list \<Rightarrow> int \<Rightarrow> int option" where
  "UShort tbl n = do {
     guard (0 \<le> n);
     lo \<leftarrow> rd tbl (nat n * 2);
     hi \<leftarrow> rd tbl (nat n * 2 + 1);
     Some (uint lo + uint hi * 256) }"

definition shorts :: "int list \<Rightarrow> u8 list" where
  "shorts xs = concat (map (\<lambda>x. [word_of_int x, word_of_int (x div 256)]) xs)"

lemma shorts_Cons: "shorts (x # xs) = word_of_int x # word_of_int (x div 256) # shorts xs"
  by (simp add: shorts_def)

lemma length_shorts [simp]: "length (shorts xs) = 2 * length xs"
  by (induction xs) (simp_all add: shorts_Cons, simp add: shorts_def)

lemma nth_shorts:
  assumes "n < length xs"
  shows "shorts xs ! (n * 2) = word_of_int (xs ! n)" "shorts xs ! (n * 2 + 1) = word_of_int (xs ! n div 256)"
  using assms
proof (induction xs arbitrary: n)
  case (Cons x xs)
  { case 1
    with Cons.IH(1) show ?case by (cases n) (auto simp: shorts_Cons)
  next
    case 2
    with Cons.IH(2) show ?case by (cases n) (auto simp: shorts_Cons)
  }
qed simp_all

lemma uint_low_byte: "uint (word_of_int x :: u8) = x mod 256"
  by (simp add: uint_word_of_int)

lemma Short_shorts:
  assumes "0 \<le> n" "nat n < length xs" "- 32768 \<le> xs ! nat n" "xs ! nat n < 32768"
  shows "Short (shorts xs) n = Some (xs ! nat n)"
proof -
  have "sint (word_of_int (xs ! nat n div 256) :: u8) = xs ! nat n div 256"
    using assms(3,4) by (simp add: sint_sbintrunc' signed_take_bit_int_eq_self_iff) linarith
  moreover have "shorts xs ! Suc (nat n * 2) = word_of_int (xs ! nat n div 256)" using nth_shorts(2) [OF assms(2)] by simp
  ultimately show ?thesis using assms
    by (simp add: Short_def guard_def rd_def nth_shorts(1) uint_low_byte)
qed

lemma UShort_shorts:
  assumes "0 \<le> n" "nat n < length xs" "0 \<le> xs ! nat n" "xs ! nat n < 65536"
  shows "UShort (shorts xs) n = Some (xs ! nat n)"
proof -
  have "uint (word_of_int (xs ! nat n div 256) :: u8) = xs ! nat n div 256"
    using assms(3,4) by (simp add: uint_word_of_int)
  moreover have "shorts xs ! Suc (nat n * 2) = word_of_int (xs ! nat n div 256)" using nth_shorts(2) [OF assms(2)] by simp
  ultimately show ?thesis using assms
    by (simp add: UShort_def guard_def rd_def nth_shorts(1) uint_low_byte)
qed

end
