(* ===== verification/Parse_Engine.thy ===== *)
theory Parse_Engine
  imports Shorts
begin

text \<open>
  The automaton that runs generated parsers (\<^verbatim>\<open>src/runtime/parsing.c\<close>). Each call of \<open>caml_parse_engine\<close> takes up the
  computation at the point its command names and goes on until it needs the OCaml side: to read a token, to
  grow the stacks, to run a semantic action, to report an error. The labels the C code jumps to are a
  datatype; one function executes the code from a label up to the next jump. The environment is the record that both
  sides share; values and positions are left abstract. The printing of traces is left out.
\<close>

section \<open>State\<close>

record engine_tables =
  yytransl_const :: "int list"
  yytransl_block :: "int list"
  yylhs :: "u8 list"
  yylen :: "u8 list"
  yydefred :: "u8 list"
  yydgoto :: "u8 list"
  yysindex :: "u8 list"
  yyrindex :: "u8 list"
  yygindex :: "u8 list"
  yytablesize :: int
  yytable :: "u8 list"
  yycheck :: "u8 list"

text \<open>A semantic value: the constant \<^verbatim>\<open>Val_long(0)\<close> or a value of the OCaml side.\<close>

datatype 'v svalue = Val_0 | Val 'v

datatype 'v token = Const_token nat | Block_token nat "'v svalue"

record ('v, 'p) parser_env =
  s_stack :: "int list"
  v_stack :: "'v svalue list"
  symb_start_stack :: "'p list"
  symb_end_stack :: "'p list"
  stacksize :: nat
  stackbase :: nat
  curr_char :: int
  lval :: "'v svalue"
  symb_start :: 'p
  symb_end :: 'p
  env_asp :: nat
  rule_len :: int
  rule_number :: int
  env_sp :: nat
  env_state :: int
  env_errflag :: nat

definition ERRCODE :: int where "ERRCODE = 256"

datatype 'v parser_input =
  START | TOKEN_READ "'v token" | STACKS_GROWN_1 | STACKS_GROWN_2 | SEMANTIC_ACTION_COMPUTED "'v svalue" | ERROR_DETECTED

datatype parser_output =
  READ_TOKEN | RAISE_PARSE_ERROR | GROW_STACKS_1 | GROW_STACKS_2 | COMPUTE_SEMANTIC_ACTION | CALL_ERROR_FUNCTION

text \<open>The local variables of the engine that live across jumps, and the labels.\<close>

record regs =
  rstate :: int
  rsp :: nat
  rerrflag :: nat

datatype pda_label =
  Loop | Testshift | Recover | Shift int | Shift_recover int | Push | Reduce int | Semantic_action

definition SAVE :: "regs \<Rightarrow> ('v, 'p) parser_env \<Rightarrow> ('v, 'p) parser_env" where
  "SAVE r env = env\<lparr>env_sp := rsp r, env_state := rstate r, env_errflag := rerrflag r\<rparr>"

definition RESTORE :: "('v, 'p) parser_env \<Rightarrow> regs" where
  "RESTORE env = \<lparr>rstate = env_state env, rsp = env_sp env, rerrflag = env_errflag env\<rparr>"

section \<open>caml\_parse\_engine\<close>

text \<open>The test every lookup in the packed tables starts with: the index of the entry, if there is one.\<close>

definition packed_index :: "engine_tables \<Rightarrow> int \<Rightarrow> int \<Rightarrow> int option option" where
  "packed_index T n1 c = (let n2 = n1 + c in
     if n1 \<noteq> 0 \<and> 0 \<le> n2 \<and> n2 \<le> yytablesize T then do {
       chk \<leftarrow> Short (yycheck T) n2;
       Some (if chk = c then Some n2 else None) }
     else Some None)"

definition do_loop :: "engine_tables \<Rightarrow> regs \<Rightarrow> ('v, 'p) parser_env \<Rightarrow>
    (parser_output \<times> ('v, 'p) parser_env + pda_label \<times> regs \<times> ('v, 'p) parser_env) option" where
  "do_loop T r env = bindE (liftE (Short (yydefred T) (rstate r))) (\<lambda>n.
     if n \<noteq> 0 then returnE (Reduce n, r, env)
     else if 0 \<le> curr_char env then returnE (Testshift, r, env)
     else throwE (READ_TOKEN, SAVE r env))"

definition do_testshift :: "engine_tables \<Rightarrow> regs \<Rightarrow> ('v, 'p) parser_env \<Rightarrow>
    (parser_output \<times> ('v, 'p) parser_env + pda_label \<times> regs \<times> ('v, 'p) parser_env) option" where
  "do_testshift T r env =
     bindE (liftE (do { n1 \<leftarrow> Short (yysindex T) (rstate r); packed_index T n1 (curr_char env) })) (\<lambda>i.
     case i of Some n2 \<Rightarrow> returnE (Shift n2, r, env)
     | None \<Rightarrow>
       bindE (liftE (do { n1 \<leftarrow> Short (yyrindex T) (rstate r); packed_index T n1 (curr_char env) })) (\<lambda>i.
       case i of Some n2 \<Rightarrow> bindE (liftE (Short (yytable T) n2)) (\<lambda>n. returnE (Reduce n, r, env))
       | None \<Rightarrow> if 0 < rerrflag r then returnE (Recover, r, env) else throwE (CALL_ERROR_FUNCTION, SAVE r env)))"

text \<open>Popping states until one can shift the error token: its stack pointer and the index, or nothing.\<close>

fun recover_scan :: "engine_tables \<Rightarrow> ('v, 'p) parser_env \<Rightarrow> nat \<Rightarrow> (nat \<times> int) option option" where
  "recover_scan T env sp = do {
     state1 \<leftarrow> rd (s_stack env) sp;
     n1 \<leftarrow> Short (yysindex T) state1;
     i \<leftarrow> packed_index T n1 ERRCODE;
     case i of
       Some n2 \<Rightarrow> Some (Some (sp, n2))
     | None \<Rightarrow> if sp \<le> stackbase env then Some None else recover_scan T env (sp - 1) }"

definition do_recover :: "engine_tables \<Rightarrow> regs \<Rightarrow> ('v, 'p) parser_env \<Rightarrow>
    (parser_output \<times> ('v, 'p) parser_env + pda_label \<times> regs \<times> ('v, 'p) parser_env) option" where
  "do_recover T r env =
     (if rerrflag r < 3 then
        bindE (liftE (recover_scan T env (rsp r))) (\<lambda>i. case i of
          Some (sp, n2) \<Rightarrow> returnE (Shift_recover n2, r\<lparr>rsp := sp, rerrflag := 3\<rparr>, env)
        | None \<Rightarrow> throwE (RAISE_PARSE_ERROR, env))
      else if curr_char env = 0 then throwE (RAISE_PARSE_ERROR, env)
      else returnE (Loop, r, env\<lparr>curr_char := - 1\<rparr>))"

definition do_shift :: "int \<Rightarrow> regs \<Rightarrow> ('v, 'p) parser_env \<Rightarrow>
    (parser_output \<times> ('v, 'p) parser_env + pda_label \<times> regs \<times> ('v, 'p) parser_env) option" where
  "do_shift n2 r env = returnE (Shift_recover n2, r\<lparr>rerrflag := rerrflag r - 1\<rparr>, env\<lparr>curr_char := - 1\<rparr>)"

definition do_shift_recover :: "engine_tables \<Rightarrow> int \<Rightarrow> regs \<Rightarrow> ('v, 'p) parser_env \<Rightarrow>
    (parser_output \<times> ('v, 'p) parser_env + pda_label \<times> regs \<times> ('v, 'p) parser_env) option" where
  "do_shift_recover T n2 r env = bindE (liftE (Short (yytable T) n2)) (\<lambda>state.
     let r = r\<lparr>rstate := state, rsp := rsp r + 1\<rparr> in
     if rsp r < stacksize env then returnE (Push, r, env) else throwE (GROW_STACKS_1, SAVE r env))"

definition do_push :: "regs \<Rightarrow> ('v, 'p) parser_env \<Rightarrow>
    (parser_output \<times> ('v, 'p) parser_env + pda_label \<times> regs \<times> ('v, 'p) parser_env) option" where
  "do_push r env = liftE (do {
     ss \<leftarrow> wr (s_stack env) (rsp r) (rstate r);
     vs \<leftarrow> wr (v_stack env) (rsp r) (lval env);
     bs \<leftarrow> wr (symb_start_stack env) (rsp r) (symb_start env);
     es \<leftarrow> wr (symb_end_stack env) (rsp r) (symb_end env);
     Some (Loop, r, env\<lparr>s_stack := ss, v_stack := vs, symb_start_stack := bs, symb_end_stack := es\<rparr>) })"

text \<open>The state after a reduction to the nonterminal \<open>l\<close> in state \<open>q\<close>.\<close>

definition engine_goto :: "engine_tables \<Rightarrow> int \<Rightarrow> int \<Rightarrow> int option" where
  "engine_goto T l q = do {
     n1 \<leftarrow> Short (yygindex T) l;
     i \<leftarrow> packed_index T n1 q;
     case i of Some n2 \<Rightarrow> Short (yytable T) n2 | None \<Rightarrow> Short (yydgoto T) l }"

definition do_reduce :: "engine_tables \<Rightarrow> int \<Rightarrow> regs \<Rightarrow> ('v, 'p) parser_env \<Rightarrow>
    (parser_output \<times> ('v, 'p) parser_env + pda_label \<times> regs \<times> ('v, 'p) parser_env) option" where
  "do_reduce T n r env = bindE (liftE (do {
       m \<leftarrow> Short (yylen T) n;
       let env = env\<lparr>env_asp := rsp r, rule_number := n, rule_len := m\<rparr>;
       guard (0 \<le> m \<and> m \<le> int (rsp r));
       let sp = rsp r - nat m + 1;
       l \<leftarrow> Short (yylhs T) n;
       state1 \<leftarrow> rd (s_stack env) (sp - 1);
       state \<leftarrow> engine_goto T l state1;
       Some (r\<lparr>rsp := sp, rstate := state\<rparr>, env) }))
     (\<lambda>(r, env). if rsp r < stacksize env then returnE (Semantic_action, r, env) else throwE (GROW_STACKS_2, SAVE r env))"

definition do_semantic_action :: "regs \<Rightarrow> ('v, 'p) parser_env \<Rightarrow>
    (parser_output \<times> ('v, 'p) parser_env + pda_label \<times> regs \<times> ('v, 'p) parser_env) option" where
  "do_semantic_action r env = throwE (COMPUTE_SEMANTIC_ACTION, SAVE r env)"

definition pda_step :: "engine_tables \<Rightarrow> pda_label \<times> regs \<times> ('v, 'p) parser_env \<Rightarrow>
    (parser_output \<times> ('v, 'p) parser_env + pda_label \<times> regs \<times> ('v, 'p) parser_env) option" where
  "pda_step T = (\<lambda>(l, r, env). case l of
     Loop \<Rightarrow> do_loop T r env
   | Testshift \<Rightarrow> do_testshift T r env
   | Recover \<Rightarrow> do_recover T r env
   | Shift n2 \<Rightarrow> do_shift n2 r env
   | Shift_recover n2 \<Rightarrow> do_shift_recover T n2 r env
   | Push \<Rightarrow> do_push r env
   | Reduce n \<Rightarrow> do_reduce T n r env
   | Semantic_action \<Rightarrow> do_semantic_action r env)"

text \<open>The entry points.\<close>

definition read_token :: "engine_tables \<Rightarrow> 'v token \<Rightarrow> ('v, 'p) parser_env \<Rightarrow> ('v, 'p) parser_env option" where
  "read_token T tok env = (case tok of
     Block_token tag v \<Rightarrow> do { c \<leftarrow> rd (yytransl_block T) tag; Some (env\<lparr>curr_char := c, lval := v\<rparr>) }
   | Const_token n \<Rightarrow> do { c \<leftarrow> rd (yytransl_const T) n; Some (env\<lparr>curr_char := c, lval := Val_0\<rparr>) })"

definition store_result :: "'v svalue \<Rightarrow> ('v, 'p) parser_env \<Rightarrow> ('v, 'p) parser_env option" where
  "store_result v env = (let sp = env_sp env in do {
     ss \<leftarrow> wr (s_stack env) sp (env_state env);
     vs \<leftarrow> wr (v_stack env) sp v;
     e \<leftarrow> rd (symb_end_stack env) (env_asp env);
     es \<leftarrow> wr (symb_end_stack env) sp e;
     bs \<leftarrow> (if env_asp env < sp then do { e \<leftarrow> rd es (env_asp env); wr (symb_start_stack env) sp e }
            else Some (symb_start_stack env));
     Some (env\<lparr>s_stack := ss, v_stack := vs, symb_end_stack := es, symb_start_stack := bs\<rparr>) })"

definition pda_entry :: "engine_tables \<Rightarrow> 'v parser_input \<Rightarrow> ('v, 'p) parser_env \<Rightarrow>
    (pda_label \<times> regs \<times> ('v, 'p) parser_env) option" where
  "pda_entry T cmd env = (case cmd of
     START \<Rightarrow> Some (Loop, \<lparr>rstate = 0, rsp = env_sp env, rerrflag = 0\<rparr>, env)
   | TOKEN_READ tok \<Rightarrow> do { env' \<leftarrow> read_token T tok env; Some (Testshift, RESTORE env, env') }
   | ERROR_DETECTED \<Rightarrow> Some (Recover, RESTORE env, env)
   | STACKS_GROWN_1 \<Rightarrow> Some (Push, RESTORE env, env)
   | STACKS_GROWN_2 \<Rightarrow> Some (Semantic_action, RESTORE env, env)
   | SEMANTIC_ACTION_COMPUTED v \<Rightarrow> do { env' \<leftarrow> store_result v env; Some (Loop, RESTORE env, env') })"

definition caml_parse_engine :: "engine_tables \<Rightarrow> 'v parser_input \<Rightarrow> ('v, 'p) parser_env \<Rightarrow>
    (parser_output \<times> ('v, 'p) parser_env + pda_label \<times> regs \<times> ('v, 'p) parser_env) option" where
  "caml_parse_engine T cmd env = Option.bind (pda_entry T cmd env) (whileE (\<lambda>_. True) (pda_step T))"

declare recover_scan.simps [simp del]

section \<open>Every call ends\<close>

text \<open>
  \<open>iterE n c s\<close>: at most \<open>n\<close> rounds of a loop that only an exit leaves; \<open>Some (Inr s)\<close> when the loop has
  not ended by then.
\<close>

primrec iterE :: "nat \<Rightarrow> ('s \<Rightarrow> ('e + 's) option) \<Rightarrow> 's \<Rightarrow> ('e + 's) option" where
  "iterE 0 c s = returnE s"
| "iterE (Suc n) c s = bindE (c s) (iterE n c)"

lemma whileE_iterE:
  fixes m :: "'s \<Rightarrow> nat"
  assumes "\<And>s s'. c s = Some (Inr s') \<Longrightarrow> m s' < m s"
  shows "m s < n \<Longrightarrow> whileE (\<lambda>_. True) c s = iterE n c s \<and> \<not> (\<exists>s'. iterE n c s = Some (Inr s'))"
proof (induction n arbitrary: s)
  case (Suc n)
  show ?case
  proof (cases "c s")
    case None
    then show ?thesis by (simp add: whileE_True [of "\<lambda>_. True", OF TrueI] bindE_def)
  next
    case (Some r)
    then show ?thesis
    proof (cases r)
      case (Inl e)
      with Some show ?thesis by (simp add: whileE_True [of "\<lambda>_. True", OF TrueI] bindE_eval)
    next
      case (Inr s')
      with Some assms have "m s' < m s" by blast
      with Suc have "whileE (\<lambda>_. True) c s' = iterE n c s' \<and> \<not> (\<exists>s''. iterE n c s' = Some (Inr s''))" by simp
      with Some Inr show ?thesis by (simp add: whileE_True [of "\<lambda>_. True" s] bindE_eval)
    qed
  qed
qed simp

text \<open>
  How many jumps are left: the look-ahead token is shifted or dropped before the loop is entered again, and
  the recovery pops the stack only when the error flag is below three, which it then sets.
\<close>

fun jumps :: "pda_label \<times> regs \<times> ('v, 'p) parser_env \<Rightarrow> nat" where
  "jumps (l, r, env) = (let e = (if rerrflag r < 3 then 5 else 0); c = 0 \<le> curr_char env in
     case l of
       Semantic_action \<Rightarrow> 1
     | Reduce n \<Rightarrow> 2
     | Loop \<Rightarrow> if c then 8 + e else 3
     | Push \<Rightarrow> if c then 9 + e else 4
     | Shift_recover n2 \<Rightarrow> if c then 10 + e else 5
     | Shift n2 \<Rightarrow> 6
     | Recover \<Rightarrow> if rerrflag r < 3 then 11 else 4
     | Testshift \<Rightarrow> if rerrflag r < 3 then 12 else 7)"

lemmas do_defs = do_loop_def do_testshift_def do_recover_def do_shift_def do_shift_recover_def do_push_def do_reduce_def
  do_semantic_action_def

lemma bindE_SomeE:
  assumes "bindE m f = Some (Inr y)"
  obtains x where "m = Some (Inr x)" "f x = Some (Inr y)"
  using assms by (auto simp: bindE_def split: Option.bind_splits sum.splits)

lemma liftE_Some: "liftE m = Some (Inr x) \<longleftrightarrow> m = Some x"
  by (cases m) (auto simp: liftE_def)

lemma jumps_decrease:
  assumes "pda_step T s = Some (Inr s')"
  shows "jumps s' < jumps s"
proof -
  obtain l r env where s: "s = (l, r, env)" by (cases s)
  show ?thesis
  proof (cases l)
    case Loop
    with assms s show ?thesis
      by (auto simp: pda_step_def do_defs liftE_Some returnE_def throwE_def elim!: bindE_SomeE split: if_splits)
  next
    case Testshift
    with assms s show ?thesis
      by (auto simp: pda_step_def do_defs liftE_Some returnE_def throwE_def Let_def elim!: bindE_SomeE split: if_splits option.splits)
  next
    case Recover
    with assms s show ?thesis
      by (auto simp: pda_step_def do_defs liftE_Some returnE_def throwE_def Let_def elim!: bindE_SomeE split: if_splits option.splits)
  next
    case (Shift n)
    with assms s show ?thesis by (auto simp: pda_step_def do_defs returnE_def Let_def)
  next
    case (Shift_recover n)
    with assms s show ?thesis
      by (auto simp: pda_step_def do_defs liftE_Some returnE_def throwE_def Let_def elim!: bindE_SomeE split: if_splits)
  next
    case Push
    with assms s show ?thesis
      by (auto simp: pda_step_def do_defs liftE_Some Let_def wr_def split: if_splits Option.bind_splits)
  next
    case (Reduce n)
    with assms s show ?thesis
      by (auto simp: pda_step_def do_reduce_def liftE_Some returnE_def throwE_def Let_def elim!: bindE_SomeE split: if_splits)
  next
    case Semantic_action
    with assms s show ?thesis by (simp add: pda_step_def do_defs throwE_def)
  qed
qed

text \<open>
  C13. Every call of the parser engine ends, whatever the tables, the stacks and the command are: the loop through the
  labels is left within sixteen jumps, so a call is a bounded computation with the same result, and it never
  ends at a label.
\<close>

theorem parse_engine_terminates:
  "caml_parse_engine T cmd env = Option.bind (pda_entry T cmd env) (iterE 16 (pda_step T)) \<and>
    \<not> (\<exists>s. caml_parse_engine T cmd env = Some (Inr s))"
proof -
  have m: "jumps s < 16" for s :: "pda_label \<times> regs \<times> ('v, 'p) parser_env"
    by (cases s) (auto simp: Let_def split: pda_label.splits)
  have loop: "whileE (\<lambda>_. True) (pda_step T) s = iterE 16 (pda_step T) s \<and> \<not> (\<exists>s'. iterE 16 (pda_step T) s = Some (Inr s'))"
    for s :: "pda_label \<times> regs \<times> ('v, 'p) parser_env"
    by (rule whileE_iterE [where m = jumps, OF jumps_decrease m])
  show ?thesis
  proof (cases "pda_entry T cmd env")
    case (Some s)
    then show ?thesis using loop [of s] by (simp add: caml_parse_engine_def)
  qed (simp add: caml_parse_engine_def)
qed

end
