(* ===== verification/Output.thy ===== *)
theory Output
  imports Pack Parse_Engine
begin

text \<open>
  The tables as text (\<^verbatim>\<open>src/yacc/output.c\<close>): every table becomes the body of an OCaml string literal, two
  decimal escapes per number and a line break, protected by a backslash, before every eighth number. The
  functions return the text between the quotes. The theorem on \<open>output_body\<close> reads the literal back, the way
  the OCaml lexer defines it, and finds the bytes the parser engine expects.
\<close>

section \<open>Definitions\<close>

definition output_char :: "int \<Rightarrow> string" where
  "output_char n = (let n = nat (n mod 256) in
     [CHR 0x5C, char_of (48 + n div 100), char_of (48 + n div 10 mod 10), char_of (48 + n mod 10)])"

definition output_short :: "int \<Rightarrow> string" where
  "output_short n = output_char n @ output_char (n div 256)"

definition output_next :: "int \<Rightarrow> string \<times> nat \<Rightarrow> string \<times> nat" where
  "output_next n = (\<lambda>(out, j). if 8 \<le> j then (out @ [CHR 0x5C, CHR 0x0A] @ output_short n, 1) else (out @ output_short n, j + 1))"

definition output_body :: "int \<Rightarrow> int list \<Rightarrow> string" where
  "output_body first rest = fst (fold output_next rest (output_short first, 8))"

definition rds :: "'a list \<Rightarrow> nat list \<Rightarrow> 'a list option" where
  "rds xs is = (if list_all (\<lambda>i. i < length xs) is then Some (map ((!) xs) is) else None)"

definition output_rule_data :: "grammar \<Rightarrow> int list \<Rightarrow> (string \<times> string) option" where
  "output_rule_data G symbol_value = do {
     s0 \<leftarrow> rd symbol_value (start_symbol G);
     ls \<leftarrow> rds (rlhs G) [3..<nrules G];
     sv \<leftarrow> rds symbol_value ls;
     ends \<leftarrow> rds (rrhs G) (map Suc [3..<nrules G]);
     starts \<leftarrow> rds (rrhs G) [3..<nrules G];
     Some (output_body s0 sv, output_body 2 (map2 (\<lambda>e s. int e - int s - 1) ends starts)) }"

definition output_yydefred :: "nat \<Rightarrow> nat list \<Rightarrow> string option" where
  "output_yydefred nstates dr = do {
     d0 \<leftarrow> rd dr 0;
     ds \<leftarrow> rds dr [1..<nstates];
     Some (output_body (if d0 \<noteq> 0 then int d0 - 2 else 0) (map (\<lambda>d. if d \<noteq> 0 then int d - 2 else 0) ds)) }"

definition output_base :: "nat \<Rightarrow> nat \<Rightarrow> int list \<Rightarrow> (string \<times> string \<times> string) option" where
  "output_base nstates nvectors bs = do {
     s0 \<leftarrow> rd bs 0;
     ss \<leftarrow> rds bs [1..<nstates];
     r0 \<leftarrow> rd bs nstates;
     rs \<leftarrow> rds bs [nstates + 1..<2 * nstates];
     g0 \<leftarrow> rd bs (2 * nstates);
     gs \<leftarrow> rds bs [2 * nstates + 1..<nvectors - 1];
     Some (output_body s0 ss, output_body r0 rs, output_body g0 gs) }"

definition output_table :: "pack \<Rightarrow> (int \<times> string) option" where
  "output_table P = do {
     t0 \<leftarrow> rd (table P) 0;
     ts \<leftarrow> rds (table P) [1..<high P + 1];
     Some (int (high P), output_body t0 ts) }"

definition output_check :: "pack \<Rightarrow> string option" where
  "output_check P = do {
     c0 \<leftarrow> rd (check P) 0;
     cs \<leftarrow> rds (check P) [1..<high P + 1];
     Some (output_body c0 cs) }"

text \<open>The default gotos are written while the columns are saved: the first one, then the others.\<close>

definition output_yydgoto :: "nat list \<Rightarrow> string option" where
  "output_yydgoto ks = (case ks of [] \<Rightarrow> None | k # ks \<Rightarrow> Some (output_body (int k) (map int ks)))"

definition output_transl :: "grammar \<Rightarrow> int list \<Rightarrow> bool list \<Rightarrow> bool list \<Rightarrow> (int list \<times> int list) option" where
  "output_transl G symbol_value true_token has_tag = do {
     sv \<leftarrow> rds symbol_value [0..<ntokens G];
     tt \<leftarrow> rds true_token [0..<ntokens G];
     tg \<leftarrow> rds has_tag [0..<ntokens G];
     Some ([v. (v, t, g) \<leftarrow> zip sv (zip tt tg), t \<and> \<not> g] @ [0], [v. (v, t, g) \<leftarrow> zip sv (zip tt tg), t \<and> g] @ [0]) }"

section \<open>Reading the literals back\<close>

text \<open>The body of an OCaml string literal made of decimal escapes and escaped line breaks.\<close>

fun ocaml_string :: "string \<Rightarrow> u8 list option" where
  "ocaml_string [] = Some []"
| "ocaml_string (b # c # cs) =
     (if b \<noteq> CHR 0x5C then None
      else if c = CHR 0x0A then ocaml_string cs
      else case cs of
        d # e # cs' \<Rightarrow>
          (let x = of_char c - 48; y = of_char d - 48; z = of_char e - 48 :: nat in
           if 48 \<le> (of_char c :: nat) \<and> x \<le> 9 \<and> 48 \<le> (of_char d :: nat) \<and> y \<le> 9 \<and> 48 \<le> (of_char e :: nat) \<and> z \<le> 9 \<and>
              100 * x + 10 * y + z \<le> 255
           then map_option (Cons (of_nat (100 * x + 10 * y + z))) (ocaml_string cs') else None)
      | _ \<Rightarrow> None)"
| "ocaml_string [b] = None"

lemma digits:
  fixes n :: nat
  assumes "n < 256"
  shows "100 * (n div 100) + 10 * (n div 10 mod 10) + n mod 10 = n"
proof -
  have "n div 100 = n div 10 div 10" using div_mult2_eq [of n 10 10] by simp
  moreover have "10 * (n div 10) + n mod 10 = n" "10 * (n div 10 div 10) + n div 10 mod 10 = n div 10" by (rule mult_div_mod_eq)+
  ultimately show ?thesis by linarith
qed

lemma ocaml_string_output_char:
  "ocaml_string (output_char n @ cs) = map_option (Cons (word_of_int n)) (ocaml_string cs)"
proof -
  define k where "k = nat (n mod 256)"
  have k: "k < 256" by (simp add: k_def nat_less_iff)
  have "int k = n mod 256" by (simp add: k_def)
  moreover have "(word_of_int (n mod 256) :: u8) = word_of_int n" by (simp add: word_of_int_eq_iff take_bit_eq_mod)
  ultimately have w: "(word_of_int n :: u8) = of_nat k" by (metis of_int_of_nat_eq)
  have "of_char (char_of (48 + k div 100) :: char) = 48 + k div 100" "of_char (char_of (48 + k div 10 mod 10) :: char) = 48 + k div 10 mod 10"
    "of_char (char_of (48 + k mod 10) :: char) = 48 + k mod 10" using k by (simp_all add: of_char_of)
  moreover have "char_of (48 + k div 100) \<noteq> (CHR 0x0A :: char)"
  proof
    assume "char_of (48 + k div 100) = (CHR 0x0A :: char)"
    then have "(of_char (char_of (48 + k div 100) :: char) :: nat) = of_char (CHR 0x0A)" by (rule arg_cong)
    with k show False by (simp add: of_char_of)
  qed
  moreover have "k div 10 mod 10 \<le> 9" "k mod 10 \<le> 9" by (simp_all add: less_Suc_eq_le [symmetric])
  ultimately show ?thesis using digits [OF k] k by (simp add: output_char_def k_def [symmetric] w Let_def)
qed


lemma ocaml_string_output_short:
  "ocaml_string (output_short n @ cs) = map_option (\<lambda>bs. word_of_int n # word_of_int (n div 256) # bs) (ocaml_string cs)"
  by (simp add: output_short_def ocaml_string_output_char option.map_comp comp_def)

text \<open>The loop of the output functions appends to what has been written; read from the front it is a recursion.\<close>

fun output_rest :: "int list \<Rightarrow> nat \<Rightarrow> string" where
  "output_rest [] j = []"
| "output_rest (n # ns) j = (if 8 \<le> j then [CHR 0x5C, CHR 0x0A] @ output_short n @ output_rest ns 1 else output_short n @ output_rest ns (j + 1))"

lemma output_next_rest: "fst (fold output_next ns (out, j)) = out @ output_rest ns j"
  by (induction ns arbitrary: out j) (simp_all add: output_next_def)

lemma ocaml_string_rest: "ocaml_string (output_rest ns j) = Some (shorts ns)"
  by (induction ns j rule: output_rest.induct) (simp_all add: ocaml_string_output_short shorts_Cons, simp add: shorts_def)

lemma ocaml_string_body: "ocaml_string (output_body n ns) = Some (shorts (n # ns))"
  by (simp add: output_body_def output_next_rest ocaml_string_output_short ocaml_string_rest shorts_Cons)

text \<open>
  C16. What the generator writes is what the engine reads: the body of a string literal that the output functions
  produce for a table, read back by the rules for OCaml string literals, is the table as a sequence of
  16-bit numbers, low byte first.
\<close>

theorem output_body_roundtrip: "ocaml_string (output_body n ns) = Some (shorts (n # ns))"
  by (rule ocaml_string_body)

end
