(* ===== verification/Conflicts.thy ===== *)
theory Conflicts
  imports Mkpar
begin

text \<open>
  The proofs about the later passes of \<^verbatim>\<open>src/yacc/mkpar.c\<close>: the resolution of conflicts leaves at most one
  action per state and symbol and counts the others, the default reductions and the used rules are
  those of the actions left, and \<open>make_parser\<close> composes the passes.
\<close>

section \<open>Conflicts\<close>

abbreviation sup :: "nat \<Rightarrow> nat \<Rightarrow> action list \<Rightarrow> action list" where
  "sup v i r \<equiv> r[i := (r ! i)\<lparr>suppressed := v\<rparr>]"

lemma suppress_eq: "i < length r \<Longrightarrow> suppress v i r = Some (sup v i r)"
  by (simp add: suppress_def rd_Some wr_def)

text \<open>The four things a step can do.\<close>

inductive conflict_move :: "nat \<Rightarrow> conflict_state \<Rightarrow> conflict_state \<Rightarrow> bool" for i st where
  new_symbol: "Some (symbol (row st ! i)) \<noteq> cur st \<Longrightarrow>
    conflict_move i st (st\<lparr>pref := i, cur := Some (symbol (row st ! i))\<rparr>)"
| reject: "cur st = Some (symbol (row st ! i)) \<Longrightarrow> v = 1 \<and> sr + rr = Suc (SRcount st + RRcount st) \<or> v = 2 \<and> sr + rr = SRcount st + RRcount st \<Longrightarrow>
    conflict_move i st (st\<lparr>row := sup v i (row st), SRcount := sr, RRcount := rr\<rparr>)"
| prefer_new: "cur st = Some (symbol (row st ! i)) \<Longrightarrow>
    conflict_move i st (st\<lparr>row := sup 2 (pref st) (row st), pref := i\<rparr>)"
| reject_both: "cur st = Some (symbol (row st ! i)) \<Longrightarrow>
    conflict_move i st (st\<lparr>row := sup 2 i (sup 2 (pref st) (row st))\<rparr>)"

lemma conflict_step_moves:
  assumes "i < length (row st)" "cur st \<noteq> None \<Longrightarrow> pref st < length (row st)"
  shows "wp (conflict_step final i st) (conflict_move i st)"
proof (cases "cur st = Some (symbol (row st ! i))")
  case True
  have "conflict_move i st (st\<lparr>row := sup 1 i (row st), SRcount := Suc (SRcount st)\<rparr>)"
    "conflict_move i st (st\<lparr>row := sup 1 i (row st), RRcount := Suc (RRcount st)\<rparr>)"
    "conflict_move i st (st\<lparr>row := sup 2 i (row st)\<rparr>)"
    using reject [OF True, of 1 "Suc (SRcount st)" "RRcount st"] reject [OF True, of 1 "SRcount st" "Suc (RRcount st)"]
      reject [OF True, of 2 "SRcount st" "RRcount st"] by simp_all
  then show ?thesis
    using assms True prefer_new [OF True] reject_both [OF True]
    by (simp add: conflict_step_def wp_simps suppress_eq)
next
  case False
  then show ?thesis using assms new_symbol [of st i] by (auto simp: conflict_step_def wp_simps)
qed

text \<open>
  The invariant after \<open>i\<close> actions with symbols \<open>sy\<close> and marks \<open>S\<close>: the later actions are unmarked, at most
  one action per symbol is unmarked and, for the current symbol, only \<open>pref\<close> can be.
\<close>

definition unique_marks :: "(nat \<Rightarrow> nat) \<Rightarrow> nat \<Rightarrow> (nat \<Rightarrow> nat) \<Rightarrow> bool" where
  "unique_marks sy i S \<longleftrightarrow> (\<forall>j k. j < i \<and> k < i \<and> S j = 0 \<and> S k = 0 \<and> sy j = sy k \<longrightarrow> j = k)"

definition marks_inv :: "(nat \<Rightarrow> nat) \<Rightarrow> nat \<Rightarrow> (nat \<Rightarrow> nat) \<Rightarrow> nat option \<Rightarrow> nat \<Rightarrow> nat \<Rightarrow> bool" where
  "marks_inv sy i S c p cnt \<longleftrightarrow> (\<forall>j \<ge> i. S j = 0) \<and>
     (if i = 0 then c = None else c = Some (sy (i - 1)) \<and> p < i \<and> sy p = sy (i - 1) \<and> S p \<noteq> 1) \<and>
     unique_marks sy i S \<and> (\<forall>j < i. c = Some (sy j) \<longrightarrow> S j = 0 \<longrightarrow> p = j) \<and> cnt = card {j. j < i \<and> S j = 1}"

lemma card_less_Suc_filter: "card {j. j < Suc i \<and> P j} = card {j. j < i \<and> P j} + (if P i then 1 else 0)"
proof -
  have "{j. j < Suc i \<and> P j} = (if P i then insert i {j. j < i \<and> P j} else {j. j < i \<and> P j})" by (auto simp: less_Suc_eq)
  then show ?thesis by simp
qed

lemma card_filter_cong: "(\<And>j. j < i \<Longrightarrow> P j = Q j) \<Longrightarrow> card {j. j < i \<and> P j} = card {j. j < (i::nat) \<and> Q j}"
  by (rule arg_cong [of _ _ card]) auto

lemma marks_invD:
  assumes "marks_inv sy i S c p cnt"
  shows "j \<ge> i \<Longrightarrow> S j = 0" "0 < i \<Longrightarrow> c = Some (sy (i - 1))" "c = Some x \<Longrightarrow> p < i \<and> sy p = x \<and> S p \<noteq> 1"
    "j < i \<Longrightarrow> k < i \<Longrightarrow> S j = 0 \<Longrightarrow> S k = 0 \<Longrightarrow> sy j = sy k \<Longrightarrow> j = k"
    "j < i \<Longrightarrow> c = Some (sy j) \<Longrightarrow> S j = 0 \<Longrightarrow> j = p" "cnt = card {j. j < i \<and> S j = 1}"
proof -
  note inv = assms [unfolded marks_inv_def]
  show "j < i \<Longrightarrow> k < i \<Longrightarrow> S j = 0 \<Longrightarrow> S k = 0 \<Longrightarrow> sy j = sy k \<Longrightarrow> j = k" using inv unfolding unique_marks_def by metis
  show "c = Some x \<Longrightarrow> p < i \<and> sy p = x \<and> S p \<noteq> 1" using inv by (cases "i = 0") auto
  show "j < i \<Longrightarrow> c = Some (sy j) \<Longrightarrow> S j = 0 \<Longrightarrow> j = p" using inv by metis
qed (use assms in \<open>simp_all add: marks_inv_def\<close>)

lemma marks_invI:
  assumes "\<And>j. j \<ge> Suc i \<Longrightarrow> S j = 0" "p \<le> i" "sy p = sy i" "S p \<noteq> 1"
    "\<And>j k. j < Suc i \<Longrightarrow> k < Suc i \<Longrightarrow> S j = 0 \<Longrightarrow> S k = 0 \<Longrightarrow> sy j = sy k \<Longrightarrow> j = k"
    "\<And>j. j < Suc i \<Longrightarrow> sy j = sy i \<Longrightarrow> S j = 0 \<Longrightarrow> j = p"
    "cnt = card {j. j < Suc i \<and> S j = 1}"
  shows "marks_inv sy (Suc i) S (Some (sy i)) p cnt"
proof -
  have "unique_marks sy (Suc i) S" using assms(5) unfolding unique_marks_def by metis
  moreover have "\<forall>j < Suc i. Some (sy i) = Some (sy j) \<longrightarrow> S j = 0 \<longrightarrow> p = j" using assms(6) by (metis option.inject)
  moreover have "\<forall>j \<ge> Suc i. S j = 0" using assms(1) by simp
  moreover have "if Suc i = 0 then Some (sy i) = None
      else Some (sy i) = Some (sy (Suc i - 1)) \<and> p < Suc i \<and> sy p = sy (Suc i - 1) \<and> S p \<noteq> 1" using assms(2-4) by simp
  ultimately show ?thesis unfolding marks_inv_def using assms(7) by (intro conjI)
qed

lemma marks_new:
  assumes inv: "marks_inv sy i S c p cnt" and new: "c \<noteq> Some (sy i)"
    and sorted: "\<And>j. j \<le> i \<Longrightarrow> sy j \<le> sy i" "\<And>j. j < i \<Longrightarrow> sy j \<le> sy (i - 1)"
  shows "marks_inv sy (Suc i) S (Some (sy i)) i cnt"
proof -
  note d = marks_invD [OF inv]
  have other: "sy j \<noteq> sy i" if "j < i" for j
  proof -
    have "sy (i - 1) < sy i" using d(2) new sorted(1) [of "i - 1"] that by fastforce
    with sorted(2) [OF that] show ?thesis by simp
  qed
  show ?thesis
  proof (rule marks_invI)
    show "j = k" if "j < Suc i" "k < Suc i" "S j = 0" "S k = 0" "sy j = sy k" for j k
      using that other d(4) [of j k] by (metis less_SucE)
    show "j = i" if "j < Suc i" "sy j = sy i" "S j = 0" for j using that other by (metis less_SucE)
    show "cnt = card {j. j < Suc i \<and> S j = 1}" using d(1) [of i] d(6) by (simp add: card_less_Suc_filter)
  qed (use d(1) in auto)
qed

text \<open>Marks that cover the current action or the preferred one keep the invariant.\<close>

lemma marks_same:
  assumes inv: "marks_inv sy i S (Some (sy i)) p cnt"
    and S': "\<And>j. j < i \<Longrightarrow> j \<noteq> p \<Longrightarrow> S' j = S j" "\<And>j. j > i \<Longrightarrow> S' j = 0" "S' i \<noteq> 0 \<and> q = p \<or> S' p \<noteq> 0 \<and> q = i"
      "S' p = 0 \<Longrightarrow> S p = 0" "S' p \<noteq> 1" "S' q \<noteq> 1"
    and cnt': "cnt' = cnt + (if S' i = 1 then 1 else 0)"
  shows "marks_inv sy (Suc i) S' (Some (sy i)) q cnt'"
proof -
  note d = marks_invD [OF inv]
  have p: "p < i" "sy p = sy i" "S p \<noteq> 1" using d(3) by auto
  have old: "S j = 0" if "j < i" "S' j = 0" for j using that S'(1,4) by (cases "j = p") auto
  have only: "j = q" if "j < Suc i" "sy j = sy i" "S' j = 0" for j
  proof (cases "j = i")
    case True
    then show ?thesis using S'(3) that by auto
  next
    case False
    with that have "j < i" by simp
    then have "j = p" using d(5) [of j] old [of j] that by simp
    with S'(3) that show ?thesis by auto
  qed
  show ?thesis
  proof (rule marks_invI)
    show "j = k" if "j < Suc i" "k < Suc i" "S' j = 0" "S' k = 0" "sy j = sy k" for j k
    proof (cases "sy j = sy i")
      case True
      then show ?thesis using only [of j] only [of k] that by simp
    next
      case False
      with that have "j \<noteq> i" "k \<noteq> i" by auto
      then show ?thesis using d(4) [of j k] old that by simp
    qed
    have "card {j. j < i \<and> S' j = 1} = card {j. j < i \<and> S j = 1}"
      by (rule card_filter_cong) (metis S'(1,5) p(3))
    then show "cnt' = card {j. j < Suc i \<and> S' j = 1}" using d(6) cnt' by (simp add: card_less_Suc_filter)
  qed (use only S' p in auto)
qed

text \<open>The rows differ in their marks only.\<close>

definition same_row :: "action list \<Rightarrow> action list \<Rightarrow> bool" where
  "same_row r0 r \<longleftrightarrow> map (\<lambda>a. a\<lparr>suppressed := 0\<rparr>) r = map (\<lambda>a. a\<lparr>suppressed := 0\<rparr>) r0"

definition marks :: "action list \<Rightarrow> nat \<Rightarrow> nat" where
  "marks r j = (if j < length r then suppressed (r ! j) else 0)"

definition sym_at :: "action list \<Rightarrow> nat \<Rightarrow> nat" where
  "sym_at r j = symbol (r ! j)"

definition conflict_inv :: "action list \<Rightarrow> nat \<Rightarrow> conflict_state \<Rightarrow> bool" where
  "conflict_inv r0 i st \<longleftrightarrow> same_row r0 (row st) \<and>
     marks_inv (sym_at r0) i (marks (row st)) (cur st) (pref st) (SRcount st + RRcount st)"

lemma same_row_length: "same_row r0 r \<Longrightarrow> length r = length r0"
  unfolding same_row_def by (metis length_map)

lemma same_row_symbol: "same_row r0 r \<Longrightarrow> j < length r0 \<Longrightarrow> symbol (r ! j) = sym_at r0 j"
proof -
  assume r: "same_row r0 r" "j < length r0"
  then have "(map (\<lambda>a. a\<lparr>suppressed := 0\<rparr>) r ! j) = (map (\<lambda>a. a\<lparr>suppressed := 0\<rparr>) r0 ! j)" by (simp add: same_row_def)
  then have "(r ! j)\<lparr>suppressed := 0\<rparr> = (r0 ! j)\<lparr>suppressed := 0\<rparr>" using r same_row_length [OF r(1)] by simp
  then show ?thesis unfolding sym_at_def by (metis action.select_convs(1) action.surjective action.update_convs(6))
qed

lemma same_row_sup: "same_row r0 (sup v i r) \<longleftrightarrow> same_row r0 r"
proof -
  have "map (\<lambda>a. a\<lparr>suppressed := 0\<rparr>) (sup v i r) = map (\<lambda>a. a\<lparr>suppressed := 0\<rparr>) r"
    by (cases "i < length r") (auto intro!: nth_equalityI simp: nth_list_update)
  then show ?thesis by (simp add: same_row_def)
qed

lemma marks_sup: "i < length r \<Longrightarrow> marks (sup v i r) = (marks r)(i := v)"
  by (auto simp: marks_def nth_list_update)

lemma conflict_inv_step:
  assumes inv: "conflict_inv r0 i st" and i: "i < length r0" and move: "conflict_move i st st'"
    and sorted: "sorted (map symbol r0)"
  shows "conflict_inv r0 (Suc i) st'"
proof -
  have same: "same_row r0 (row st)" and m: "marks_inv (sym_at r0) i (marks (row st)) (cur st) (pref st) (SRcount st + RRcount st)"
    using inv by (auto simp: conflict_inv_def)
  note len = same_row_length [OF same] and sy = same_row_symbol [OF same i]
  have le: "sym_at r0 j \<le> sym_at r0 k" if "j \<le> k" "k \<le> i" for j k
    using sorted_nth_mono [OF sorted that(1)] that i by (simp add: sym_at_def)
  note d = marks_invD [OF m]
  from move show ?thesis
  proof cases
    case new_symbol
    then have "marks_inv (sym_at r0) (Suc i) (marks (row st)) (Some (sym_at r0 i)) i (SRcount st + RRcount st)"
      using le by (intro marks_new [OF m]) (auto simp: sy)
    with new_symbol same show ?thesis by (simp add: conflict_inv_def sy)
  next
    case (reject v sr rr)
    have cur: "cur st = Some (sym_at r0 i)" using reject sy by simp
    have p: "pref st < i" "marks (row st) (pref st) \<noteq> 1" using d(3) [OF cur] by auto
    have "marks_inv (sym_at r0) (Suc i) ((marks (row st))(i := v)) (Some (sym_at r0 i)) (pref st) (sr + rr)"
      using reject p d(1) by (intro marks_same [OF m [unfolded cur]]) auto
    with reject same i len cur show ?thesis by (simp add: conflict_inv_def same_row_sup marks_sup)
  next
    case prefer_new
    have cur: "cur st = Some (sym_at r0 i)" using prefer_new sy by simp
    have p: "pref st < i" using d(3) [OF cur] by auto
    have "marks_inv (sym_at r0) (Suc i) ((marks (row st))(pref st := 2)) (Some (sym_at r0 i)) i (SRcount st + RRcount st)"
      using p d(1) by (intro marks_same [OF m [unfolded cur]]) auto
    with prefer_new same i len cur p show ?thesis by (simp add: conflict_inv_def same_row_sup marks_sup)
  next
    case reject_both
    have cur: "cur st = Some (sym_at r0 i)" using reject_both sy by simp
    have p: "pref st < i" using d(3) [OF cur] by auto
    have "marks_inv (sym_at r0) (Suc i) ((marks (row st))(pref st := 2, i := 2)) (Some (sym_at r0 i)) (pref st) (SRcount st + RRcount st)"
      using p d(1) by (intro marks_same [OF m [unfolded cur]]) auto
    moreover have "marks (sup 2 i (sup 2 (pref st) (row st))) = (marks (row st))(pref st := 2, i := 2)"
      using marks_sup [of i "sup 2 (pref st) (row st)" 2] marks_sup [of "pref st" "row st" 2] i p len by simp
    moreover have "same_row r0 (sup 2 i (sup 2 (pref st) (row st)))" unfolding same_row_sup by (rule same)
    ultimately show ?thesis using reject_both cur by (simp add: conflict_inv_def)
  qed
qed

lemma remove_row_conflicts_ok:
  assumes r0: "sorted_row r0" "\<forall>a \<in> set r0. suppressed a = 0"
  shows "wp (remove_row_conflicts final r0) (\<lambda>st. same_row r0 (row st) \<and> unique_marks (sym_at r0) (length r0) (marks (row st)) \<and>
     SRcount st + RRcount st = card {j. j < length r0 \<and> suppressed (row st ! j) = 1})"
proof -
  have sorted: "sorted (map symbol r0)"
    unfolding sorted_map by (rule sorted_wrt_mono_rel [OF _ r0(1)]) (auto simp: action_le_def)
  show ?thesis
    unfolding remove_row_conflicts_def
  proof (rule wp_for_up [where I = "conflict_inv r0"], goal_cases)
    case 2
    have "marks r0 j = 0" for j using r0(2) by (simp add: marks_def)
    then show ?case by (simp add: conflict_inv_def same_row_def marks_inv_def unique_marks_def)
  next
    case (3 i st)
    have "i < length (row st)" "cur st \<noteq> None \<Longrightarrow> pref st < length (row st)"
      using 3 same_row_length [of r0 "row st"] marks_invD(3) by (force simp: conflict_inv_def)+
    from wp_mono [OF conflict_step_moves [OF this]] show ?case
      using conflict_inv_step [OF 3(3,2) _ sorted] by blast
  next
    case (4 st)
    then have *: "same_row r0 (row st)" "marks_inv (sym_at r0) (length r0) (marks (row st)) (cur st) (pref st) (SRcount st + RRcount st)"
      by (simp_all add: conflict_inv_def)
    have "card {j. j < length r0 \<and> marks (row st) j = 1} = card {j. j < length r0 \<and> suppressed (row st ! j) = 1}"
      by (rule card_filter_cong) (simp add: marks_def same_row_length [OF *(1)])
    with * marks_invD(6) [OF *(2)] show ?case by (simp add: marks_inv_def)
  qed simp
qed

section \<open>Default reductions and unused rules\<close>

definition live :: "action \<Rightarrow> bool" where
  "live a \<longleftrightarrow> suppressed a = 0"

definition sole_reduces :: "action list \<Rightarrow> nat \<Rightarrow> bool" where
  "sole_reduces r n \<longleftrightarrow> (\<forall>a \<in> set r. live a \<longrightarrow> code a = REDUCE \<and> act_number a = n) \<and> (\<exists>a \<in> set r. live a \<and> symbol a \<noteq> 1)"

lemma sole_scan_ok:
  assumes "\<forall>a \<in> set r. code a = REDUCE \<longrightarrow> 0 < act_number a" "0 < n" "r0 = 0 \<longrightarrow> cnt = 0"
  shows "sole_scan r cnt r0 = n \<longleftrightarrow> (0 < cnt \<longrightarrow> r0 = n) \<and> (0 < r0 \<and> (\<exists>a \<in> set r. live a) \<longrightarrow> r0 = n) \<and>
    (\<forall>a \<in> set r. live a \<longrightarrow> code a = REDUCE \<and> act_number a = n) \<and> (0 < cnt \<or> (\<exists>a \<in> set r. live a \<and> symbol a \<noteq> 1))"
  using assms
proof (induction r arbitrary: cnt r0)
  case Nil
  then show ?case by auto
next
  case (Cons a r)
  show ?case
  proof (cases "live a")
    case False
    then show ?thesis using Cons by (simp add: live_def)
  next
    case True
    then have s0: "suppressed a = 0" by (simp add: live_def)
    show ?thesis
    proof (cases "code a")
      case SHIFT
      then show ?thesis using True Cons.prems(2) by (auto simp: live_def)
    next
      case REDUCE
      then have "0 < act_number a" using Cons.prems by simp
      then show ?thesis
        using Cons.IH [of "act_number a" "if symbol a \<noteq> 1 then cnt + 1 else cnt"] Cons.prems REDUCE True s0 by auto
    qed
  qed
qed

lemma sole_scan_reduces:
  assumes "\<forall>a \<in> set r. code a = REDUCE \<longrightarrow> 0 < act_number a" "0 < n"
  shows "sole_scan r 0 0 = n \<longleftrightarrow> sole_reduces r n"
  using sole_scan_ok [OF assms, of 0 0] by (simp add: sole_reduces_def)

lemma defreds_ok: "defreds rows = Some (map (\<lambda>r. sole_scan r 0 0) rows)"
proof -
  have "wp (defreds rows) (\<lambda>d. d = map (\<lambda>r. sole_scan r 0 0) rows)"
    unfolding defreds_def
  proof (rule wp_for_up [where I = "\<lambda>i d. length d = length rows \<and> (\<forall>j < i. d ! j = sole_scan (rows ! j) 0 0)"], goal_cases)
    case (3 i d)
    then show ?case by (auto simp: sole_reduction_def wp_simps nth_list_update less_Suc_eq)
  qed (auto intro: nth_equalityI)
  then show ?thesis by (simp add: wp_def)
qed

definition uses_rule :: "action list \<Rightarrow> nat \<Rightarrow> bool" where
  "uses_rule r n \<longleftrightarrow> (\<exists>a \<in> set r. live a \<and> code a = REDUCE \<and> act_number a = n)"

lemma mark_used_ok:
  assumes "\<forall>a \<in> set r. code a = REDUCE \<longrightarrow> act_number a < length u"
  shows "wp (foldM (\<lambda>p rules_used.
       if code p = REDUCE \<and> suppressed p = 0 then wr rules_used (act_number p) True else Some rules_used) r u)
    (\<lambda>u'. length u' = length u \<and> (\<forall>n < length u. u' ! n \<longleftrightarrow> u ! n \<or> uses_rule r n))"
  using assms
proof (induction r arbitrary: u)
  case Nil
  then show ?case by (simp add: wp_simps uses_rule_def)
next
  case (Cons a r)
  show ?case
  proof (cases "code a = REDUCE \<and> suppressed a = 0")
    case True
    have "wp (foldM (\<lambda>p rules_used.
       if code p = REDUCE \<and> suppressed p = 0 then wr rules_used (act_number p) True else Some rules_used) r (u[act_number a := True]))
      (\<lambda>u'. length u' = length u \<and> (\<forall>n < length u. u' ! n \<longleftrightarrow> u[act_number a := True] ! n \<or> uses_rule r n))"
      using Cons.IH [of "u[act_number a := True]"] Cons.prems by simp
    then show ?thesis
      using True Cons.prems by (auto simp: wp_simps uses_rule_def live_def nth_list_update elim!: wp_mono split: if_splits)
  next
    case False
    then have "uses_rule (a # r) n = uses_rule r n" for n by (auto simp: uses_rule_def live_def)
    with False show ?thesis using Cons.IH [of u] Cons.prems by auto
  qed
qed

lemma unused_rules_ok:
  assumes "\<forall>r \<in> set rows. \<forall>a \<in> set r. code a = REDUCE \<longrightarrow> act_number a < nrules G"
  shows "wp (unused_rules G rows) (\<lambda>(used, unused). length used = nrules G \<and>
     (\<forall>n < nrules G. used ! n \<longleftrightarrow> (\<exists>r \<in> set rows. uses_rule r n)) \<and>
     unused = length (filter (\<lambda>n. \<not> (\<exists>r \<in> set rows. uses_rule r n)) [3..<nrules G]))"
proof -
  have used: "wp (foldM (foldM (\<lambda>p rules_used.
         if code p = REDUCE \<and> suppressed p = 0 then wr rules_used (act_number p) True else Some rules_used))
       rs u) (\<lambda>u'. length u' = nrules G \<and> (\<forall>n < nrules G. u' ! n \<longleftrightarrow> u ! n \<or> (\<exists>r \<in> set rs. uses_rule r n)))"
    if "length u = nrules G" "\<forall>r \<in> set rs. \<forall>a \<in> set r. code a = REDUCE \<longrightarrow> act_number a < nrules G" for rs u
    using that
  proof (induction rs arbitrary: u)
    case (Cons r rs)
    from Cons.prems have "wp (foldM (\<lambda>p rules_used.
         if code p = REDUCE \<and> suppressed p = 0 then wr rules_used (act_number p) True else Some rules_used) r u)
      (\<lambda>u'. length u' = length u \<and> (\<forall>n < length u. u' ! n \<longleftrightarrow> u ! n \<or> uses_rule r n))"
      by (intro mark_used_ok) auto
    then show ?case
      using Cons.prems unfolding foldM.simps wp_bind
      by (elim wp_mono) (intro wp_mono [OF Cons.IH], auto)
  qed (simp add: wp_simps)
  have cnt: "for_up 3 (nrules G) (\<lambda>i nunused. do { u \<leftarrow> rd used i; Some (if \<not> u then nunused + 1 else nunused) }) 0 =
      Some (length (filter (\<lambda>n. \<not> used ! n) [3..<nrules G]))" if "length used = nrules G" for used
  proof -
    have "foldM (\<lambda>i nunused. do { u \<leftarrow> rd used i; Some (if \<not> u then nunused + 1 else nunused) }) xs k =
       Some (k + length (filter (\<lambda>n. \<not> used ! n) xs))" if "set xs \<subseteq> {..<length used}" for xs k
      using that by (induction xs arbitrary: k) (auto simp: rd_Some)
    note this [of "[3..<nrules G]" 0]
    moreover have "set [3..<nrules G] \<subseteq> {..<length used}" using that by auto
    ultimately show ?thesis by (simp add: for_up_def)
  qed
  show ?thesis
    unfolding unused_rules_def
    by (simp only: wp_bind, rule wp_mono [OF used [OF length_replicate assms]]) 
      (auto simp: cnt wp_simps intro!: arg_cong [of _ _ length] filter_cong)
qed

section \<open>The whole parser\<close>

definition wf_row :: "grammar \<Rightarrow> action list \<Rightarrow> bool" where
  "wf_row G r \<longleftrightarrow> sorted_row r \<and> (\<forall>a \<in> set r. suppressed a = 0 \<and> (code a = REDUCE \<longrightarrow> 2 \<le> act_number a \<and> act_number a < nrules G))"

definition resolved :: "action list \<Rightarrow> action list \<Rightarrow> nat \<Rightarrow> bool" where
  "resolved r0 r conflicts \<longleftrightarrow> map (\<lambda>a. a\<lparr>suppressed := 0\<rparr>) r = r0 \<and>
     (\<forall>j k. j < length r \<and> k < length r \<and> live (r ! j) \<and> live (r ! k) \<and> symbol (r ! j) = symbol (r ! k) \<longrightarrow> j = k) \<and>
     conflicts = card {j. j < length r \<and> suppressed (r ! j) = 1}"

lemma parse_actions_wf:
  assumes wf: "wf_tables G T" and n: "n < length (shift_table T)"
  shows "wp (parse_actions G T n) (\<lambda>r. wf_row G r \<and>
     mset r = mset (shift_actions G T n @ reduce_actions G T (lookaheads T ! n) (lookaheads T ! Suc n)))"
proof (rule wp_mono [OF parse_actions_ok [OF wf n]])
  fix r assume r: "sorted_row r \<and> mset r = mset (shift_actions G T n @ reduce_actions G T (lookaheads T ! n) (lookaheads T ! Suc n))"
  then have elems: "set r = set (shift_actions G T n) \<union> set (reduce_actions G T (lookaheads T ! n) (lookaheads T ! Suc n))"
    by (metis set_append set_mset_mset)
  have bound: "lookaheads T ! Suc n \<le> length (LAruleno T)" using wf_tablesD(10) [OF wf n] by simp
  have "suppressed a = 0 \<and> code a = SHIFT" if "a \<in> set (shift_actions G T n)" for a
    using that by (auto simp: shift_actions_def shift_action_def Let_def split: option.splits)
  moreover have "suppressed a = 0 \<and> 2 \<le> act_number a \<and> act_number a < nrules G"
    if "a \<in> set (reduce_actions G T (lookaheads T ! n) (lookaheads T ! Suc n))" for a
    using that wf_tablesD(3) [OF wf] bound by (auto simp: reduce_actions_def reduce_action_def)
  ultimately have "\<forall>a \<in> set r. suppressed a = 0 \<and> (code a = REDUCE \<longrightarrow> 2 \<le> act_number a \<and> act_number a < nrules G)"
    unfolding elems by (metis Un_iff action_code.distinct(1))
  with r show "wf_row G r \<and> mset r = mset (shift_actions G T n @ reduce_actions G T (lookaheads T ! n) (lookaheads T ! Suc n))"
    by (simp add: wf_row_def)
qed

lemma remove_row_resolved:
  assumes "wf_row G r"
  shows "wp (remove_row_conflicts final r) (\<lambda>st. resolved r (row st) (SRcount st + RRcount st))"
proof -
  have r: "sorted_row r" "\<forall>a \<in> set r. suppressed a = 0" using assms by (auto simp: wf_row_def)
  have id: "map (\<lambda>a. a\<lparr>suppressed := 0\<rparr>) r = r" by (rule map_idI) (use r(2) in auto)
  show ?thesis
  proof (rule wp_mono [OF remove_row_conflicts_ok [OF r]], elim conjE)
    fix st assume st: "same_row r (row st)" "unique_marks (sym_at r) (length r) (marks (row st))"
      "SRcount st + RRcount st = card {j. j < length r \<and> suppressed (row st ! j) = 1}"
    note len = same_row_length [OF st(1)]
    have uniq: "j = k" if "j < length r" "k < length r" "live (row st ! j)" "live (row st ! k)" "symbol (row st ! j) = symbol (row st ! k)" for j k
    proof -
      have "sym_at r j = sym_at r k" using same_row_symbol [OF st(1)] that by metis
      moreover have "marks (row st) j = 0" "marks (row st) k = 0" using that len by (simp_all add: marks_def live_def)
      ultimately show ?thesis using st(2) that(1,2) unfolding unique_marks_def by metis
    qed
    have "map (\<lambda>a. a\<lparr>suppressed := 0\<rparr>) (row st) = r" using st(1) id by (simp add: same_row_def)
    then show "resolved r (row st) (SRcount st + RRcount st)"
      unfolding resolved_def len using st(3) by (intro conjI allI impI) (assumption, elim conjE, rule uniq)
  qed
qed

lemma remove_conflicts_ok:
  assumes "\<forall>r \<in> set rows. wf_row G r"
  shows "wp (remove_conflicts final rows) (\<lambda>(rows', sr, rr, srt, rrt). length rows' = length rows \<and> length sr = length rows \<and>
     length rr = length rows \<and> (\<forall>i < length rows. resolved (rows ! i) (rows' ! i) (sr ! i + rr ! i)) \<and>
     srt = sum_list sr \<and> rrt = sum_list rr)"
  unfolding remove_conflicts_def
proof (rule wp_for_up [where I = "\<lambda>i (rows', sr, rr, srt, rrt). length rows' = length rows \<and> length sr = length rows \<and>
     length rr = length rows \<and> (\<forall>j < i. resolved (rows ! j) (rows' ! j) (sr ! j + rr ! j)) \<and>
     (\<forall>j < length rows. i \<le> j \<longrightarrow> rows' ! j = rows ! j \<and> sr ! j = 0 \<and> rr ! j = 0) \<and> srt = sum_list sr \<and> rrt = sum_list rr"], goal_cases)
  case 2
  then show ?case by (simp add: sum_list_replicate)
next
  case (3 i s)
  obtain rows' sr rr srt rrt where s: "s = (rows', sr, rr, srt, rrt)" by (cases s)
  note inv = 3(3) [unfolded s prod.case]
  have i: "i < length rows" using 3 by simp
  have row: "rows' ! i = rows ! i" "sr ! i = 0" "rr ! i = 0" using inv i by auto
  have sum: "sum_list (xs[i := v]) = sum_list xs + v" if "length xs = length rows" "xs ! i = 0" for xs :: "nat list" and v
    using sum_list_update [of i xs v] i that by simp
  have "wf_row G (rows ! i)" using assms i by simp
  note res = remove_row_resolved [OF this, of "i = final"]
  show ?case
    unfolding s using inv i row
    by (simp add: wp_simps) (rule wp_mono [OF res], auto simp: nth_list_update less_Suc_eq sum)
qed auto

lemma find_final_state_ok:
  assumes "shift_table T \<noteq> []" "shift_table T ! 0 = Some p" "\<forall>k \<in> set (shift p). k < length (accessing T)" "1 < length (ritem G)"
  shows "wp (find_final_state G T) (\<lambda>f. \<forall>k \<in> set (shift p). int (accessing T ! k) = ritem G ! 1 \<longrightarrow>
     f \<in> set (shift p) \<and> int (accessing T ! f) = ritem G ! 1)"
  unfolding find_final_state_def
proof (simp add: wp_simps assms(1,2,4) del: One_nat_def, rule wp_whileM [where m = "\<lambda>(i, f, found). i" and
    I = "\<lambda>(i, f, found). i \<le> length (shift p) \<and> (\<forall>j < length (shift p). i \<le> j \<and> \<not> found \<longrightarrow> int (accessing T ! (shift p ! j)) \<noteq> ritem G ! 1) \<and>
      (found \<longrightarrow> f \<in> set (shift p) \<and> int (accessing T ! f) = ritem G ! 1)"], goal_cases)
  case 1
  then show ?case by simp
next
  case (2 s)
  obtain i f found where s: "s = (i, f, found)" by (cases s)
  show ?case
  proof (cases "0 < i \<and> \<not> found")
    case True
    then obtain k where k: "i = Suc k" "k < length (shift p)" using 2 s by (cases i) auto
    with 2 True show ?thesis
      using assms(3) by (auto simp: s wp_simps Suc_le_eq le_less)
  next
    case False
    with 2 show ?thesis by (auto simp: s wp_simps in_set_conv_nth)
  qed
qed

text \<open>What is expected of the actions of state \<open>i\<close>.\<close>

definition state_actions :: "grammar \<Rightarrow> tables \<Rightarrow> nat \<Rightarrow> action multiset" where
  "state_actions G T i = mset (shift_actions G T i @ reduce_actions G T (lookaheads T ! i) (lookaheads T ! Suc i))"

definition state_ok :: "grammar \<Rightarrow> tables \<Rightarrow> parser_tables \<Rightarrow> nat \<Rightarrow> bool" where
  "state_ok G T P i \<longleftrightarrow> (let r = parser P ! i in
     image_mset (\<lambda>a. a\<lparr>suppressed := 0\<rparr>) (mset r) = state_actions G T i \<and> sorted_row r \<and>
     (\<forall>j k. j < length r \<and> k < length r \<and> live (r ! j) \<and> live (r ! k) \<and> symbol (r ! j) = symbol (r ! k) \<longrightarrow> j = k) \<and>
     SRconflicts P ! i + RRconflicts P ! i = card {j. j < length r \<and> suppressed (r ! j) = 1} \<and>
     (\<forall>n. 0 < n \<longrightarrow> defred P ! i = n \<longleftrightarrow> sole_reduces r n))"

lemma sorted_row_marks: "sorted_row (map (\<lambda>a. a\<lparr>suppressed := 0\<rparr>) r) \<longleftrightarrow> sorted_row r"
  by (simp add: sorted_wrt_map action_le_def [abs_def])

lemma resolved_state:
  assumes r0: "wf_row G r0" "mset r0 = M" and r: "resolved r0 r c"
  shows "image_mset (\<lambda>a. a\<lparr>suppressed := 0\<rparr>) (mset r) = M" "sorted_row r"
    "\<forall>a \<in> set r. code a = REDUCE \<longrightarrow> 2 \<le> act_number a \<and> act_number a < nrules G"
proof -
  have r0': "map (\<lambda>a. a\<lparr>suppressed := 0\<rparr>) r = r0" using r by (simp add: resolved_def)
  then show "image_mset (\<lambda>a. a\<lparr>suppressed := 0\<rparr>) (mset r) = M" using r0(2) by (metis mset_map)
  show "sorted_row r" using r0(1) r0' sorted_row_marks [of r] by (simp add: wf_row_def)
  show "\<forall>a \<in> set r. code a = REDUCE \<longrightarrow> 2 \<le> act_number a \<and> act_number a < nrules G"
  proof (intro ballI impI)
    fix a assume a: "a \<in> set r" "code a = REDUCE"
    then have "a\<lparr>suppressed := 0\<rparr> \<in> set r0" using r0' by (metis image_eqI list.set_map)
    with a r0(1) show "2 \<le> act_number a \<and> act_number a < nrules G" by (auto simp: wf_row_def)
  qed
qed

lemma parse_rows_ok:
  assumes wf: "wf_tables G T" and n: "n = length (shift_table T)"
  shows "wp (for_up 0 n (\<lambda>i rows. do { actions \<leftarrow> parse_actions G T i; wr rows i actions }) (replicate n []))
    (\<lambda>rows. length rows = n \<and> (\<forall>i < n. wf_row G (rows ! i) \<and> mset (rows ! i) = state_actions G T i))"
proof (rule wp_for_up [where I = "\<lambda>i rows. length rows = n \<and> (\<forall>j < i. wf_row G (rows ! j) \<and> mset (rows ! j) = state_actions G T j)"], goal_cases)
  case (3 i rows)
  then have i: "i < length (shift_table T)" using n by simp
  show ?case
    using 3 unfolding wp_bind
    by (intro wp_mono [OF parse_actions_wf [OF wf i]]) (auto simp: wp_simps state_actions_def nth_list_update less_Suc_eq)
qed auto

lemma make_parser_ok:
  assumes "wf_tables G T" "shift_table T ! 0 = Some p" "shift_table T \<noteq> []" "1 < length (ritem G)"
  shows "\<exists>P. make_parser G T = Some P \<and> length (parser P) = length (shift_table T) \<and>
    (\<forall>i \<in> {..<length (shift_table T)}. state_ok G T P i) \<and>
    (\<forall>n \<in> {..<nrules G}. rules_used P ! n \<longleftrightarrow> (\<exists>r \<in> set (parser P). uses_rule r n))"
proof -
  let ?n = "length (shift_table T)"
  obtain rows where rows: "for_up 0 ?n (\<lambda>i rows. do { actions \<leftarrow> parse_actions G T i; wr rows i actions }) (replicate ?n []) = Some rows"
    "length rows = ?n" "\<forall>i < ?n. wf_row G (rows ! i) \<and> mset (rows ! i) = state_actions G T i"
    using parse_rows_ok [OF assms(1) refl] by (auto simp: wp_def)
  have "wf_shifts G T p" using wf_tablesD(9) [OF assms(1), of 0 p] assms(2,3) by simp
  then obtain final where final: "find_final_state G T = Some final"
    using find_final_state_ok [OF assms(3,2) _ assms(4)] by (auto simp: wp_def wf_shifts_def)
  have "\<forall>r \<in> set rows. wf_row G r" using rows(2,3) by (auto simp: in_set_conv_nth)
  from remove_conflicts_ok [OF this, of final] obtain rows' sr rr srt rrt
    where rc: "remove_conflicts final rows = Some (rows', sr, rr, srt, rrt)" "length rows' = ?n"
      "\<forall>i < ?n. resolved (rows ! i) (rows' ! i) (sr ! i + rr ! i)" using rows(2) by (auto simp: wp_def)
  have st: "image_mset (\<lambda>a. a\<lparr>suppressed := 0\<rparr>) (mset (rows' ! i)) = state_actions G T i" "sorted_row (rows' ! i)"
    "\<forall>a \<in> set (rows' ! i). code a = REDUCE \<longrightarrow> 2 \<le> act_number a \<and> act_number a < nrules G" if "i < ?n" for i
    using resolved_state [of G "rows ! i" "state_actions G T i" "rows' ! i"] rows(3) rc(3) that by blast+
  have "\<forall>r \<in> set rows'. \<forall>a \<in> set r. code a = REDUCE \<longrightarrow> act_number a < nrules G"
    using st(3) rc(2) by (metis in_set_conv_nth)
  from unused_rules_ok [OF this] obtain used unused where u: "unused_rules G rows' = Some (used, unused)"
    "\<forall>n < nrules G. used ! n \<longleftrightarrow> (\<exists>r \<in> set rows'. uses_rule r n)" by (auto simp: wp_def)
  let ?P = "\<lparr>parser = rows', final_state = final, SRconflicts = sr, RRconflicts = rr, SRtotal = srt, RRtotal = rrt,
     rules_used = used, nunused = unused, defred = map (\<lambda>r. sole_scan r 0 0) rows'\<rparr>"
  have "state_ok G T ?P i" if i: "i < ?n" for i
  proof -
    have "\<forall>a \<in> set (rows' ! i). code a = REDUCE \<longrightarrow> 0 < act_number a" using st(3) [OF i] by fastforce
    then have "\<forall>n. 0 < n \<longrightarrow> sole_scan (rows' ! i) 0 0 = n \<longleftrightarrow> sole_reduces (rows' ! i) n" using sole_scan_reduces by blast
    then show ?thesis using st [OF i] rc(2,3) i unfolding state_ok_def resolved_def Let_def by simp
  qed
  moreover have "make_parser G T = Some ?P"
    unfolding make_parser_def Let_def by (simp add: rows(1) final rc(1) u(1) defreds_ok)
  ultimately show ?thesis using rc(2) u(2) by (intro exI [of _ ?P]) simp
qed

section \<open>Properties\<close>


definition sample_tables :: tables where
  "sample_tables = \<lparr>shift_table = [Some \<lparr>shifts_number = 0, shift = [1]\<rparr>, None], accessing = [0, 2], lookaheads = [0, 0, 1],
     LAruleno = [3], LA = [1], symbol_prec = replicate 7 0, symbol_assoc = replicate 7 TOKEN, rprec = replicate 6 0,
     rassoc = replicate 6 TOKEN\<rparr>"


end
