(* ===== verification/Parser_Tables.thy ===== *)
theory Parser_Tables
  imports Output Conflicts
begin

text \<open>
  From the actions of the generator to the moves of the engine. The rows of \<open>make_parser\<close> and the gotos become
  vectors (\<open>token_actions\<close>, \<open>goto_actions\<close>), the vectors a packed table, the table a text, and the engine reads
  the text. The theorems follow one action through all of it: in every state and for every token, the engine
  finds the live action of the row, and after a reduction it finds the goto.
\<close>

section \<open>The vectors of a row\<close>

definition live_entry :: "(action \<Rightarrow> bool) \<Rightarrow> action list \<Rightarrow> nat \<Rightarrow> nat option" where
  "live_entry P r j = map_of (map (\<lambda>a. (symbol a, act_number a)) (filter (\<lambda>a. live a \<and> P a) r)) j"

abbreviation is_shift :: "action \<Rightarrow> bool" where
  "is_shift a \<equiv> code a = SHIFT"

abbreviation is_reduce :: "nat \<Rightarrow> action \<Rightarrow> bool" where
  "is_reduce d a \<equiv> code a = REDUCE \<and> act_number a \<noteq> d"

definition row_ok :: "grammar \<Rightarrow> action list \<Rightarrow> bool" where
  "row_ok G r \<longleftrightarrow> distinct (map symbol (filter live r)) \<and>
     (\<forall>a \<in> set r. symbol a < ntokens G \<and> 0 < act_number a \<and> act_number a \<le> MAXSHORT)"

lemma row_okD:
  assumes "row_ok G r"
  shows "distinct (map symbol (filter live r))" "a \<in> set r \<Longrightarrow> symbol a < ntokens G"
    "a \<in> set r \<Longrightarrow> 0 < act_number a" "a \<in> set r \<Longrightarrow> act_number a \<le> MAXSHORT"
  using assms by (auto simp: row_ok_def)

lemma live_entry_snoc:
  "live_entry P (xs @ [a]) j = (case live_entry P xs j of Some n \<Rightarrow> Some n
     | None \<Rightarrow> if live a \<and> P a \<and> symbol a = j then Some (act_number a) else None)"
  by (auto simp: live_entry_def map_add_def split: option.splits)

lemma live_entry_fresh:
  assumes "distinct (map symbol (filter live (xs @ a # ys)))" "live a"
  shows "live_entry P xs (symbol a) = None"
proof -
  have "symbol a \<notin> symbol ` set (filter live xs)" using assms by auto
  then show ?thesis by (auto simp: live_entry_def map_of_eq_None_iff)
qed

lemma live_entry_Some: "live_entry P r j = Some n \<Longrightarrow> \<exists>a \<in> set r. live a \<and> P a \<and> symbol a = j \<and> act_number a = n"
  by (auto simp: live_entry_def dest!: map_of_SomeD)

definition row_value :: "nat option \<Rightarrow> int" where
  "row_value e = (case e of Some n \<Rightarrow> int n | None \<Rightarrow> 0)"

lemma row_value_simps [simp]: "row_value None = 0" "row_value (Some n) = int n"
  by (simp_all add: row_value_def)

lemma action_row_ok:
  assumes "row_ok G r"
  shows "wp (action_row G d r) (\<lambda>(arow, sc, rc). length arow = 2 * ntokens G \<and>
    sc = length (filter (\<lambda>a. live a \<and> is_shift a) r) \<and> rc = length (filter (\<lambda>a. live a \<and> is_reduce d a) r) \<and>
    (\<forall>j < ntokens G. arow ! j = row_value (live_entry is_shift r j) \<and>
      arow ! (ntokens G + j) = row_value (live_entry (is_reduce d) r j)))"
proof -
  let ?nt = "ntokens G"
  define I where "I = (\<lambda>xs (arow, sc, rc). length (arow :: int list) = 2 * ?nt \<and>
    sc = length (filter (\<lambda>a. live a \<and> is_shift a) xs) \<and> rc = length (filter (\<lambda>a. live a \<and> is_reduce d a) xs) \<and>
    (\<forall>j < ?nt. arow ! j = row_value (live_entry is_shift xs j) \<and> arow ! (?nt + j) = row_value (live_entry (is_reduce d) xs j)))"
  have "wp (action_row G d r) (\<lambda>s. \<exists>xs. xs @ [] = r \<and> I xs s)"
    unfolding action_row_def
  proof (rule wp_foldM [where I = "\<lambda>ys s. \<exists>xs. xs @ ys = r \<and> I xs s"])
    show "\<exists>xs. xs @ r = r \<and> I xs (replicate (2 * ?nt) 0, 0, 0)" by (intro exI [of _ "[]"]) (simp add: I_def live_entry_def)
    fix a ys s assume "\<exists>xs. xs @ a # ys = r \<and> I xs s"
    then obtain xs where xs: "xs @ a # ys = r" and I: "I xs s" by blast
    obtain arow sc rc where s: "s = (arow, sc, rc)" by (cases s)
    have a: "a \<in> set r" "symbol a < ?nt" "0 < act_number a" using xs row_okD(2,3) [OF assms, of a] by auto
    have fresh: "live a \<Longrightarrow> live_entry P xs (symbol a) = None" for P
      using live_entry_fresh [of xs a ys] row_okD(1) [OF assms] xs by blast
    have nxt: "\<exists>zs. zs @ ys = r \<and> I zs t" if "I (xs @ [a]) t" for t using that xs by (intro exI [of _ "xs @ [a]"]) simp
    show "wp ((case s of (actionrow, shiftcount, reducecount) \<Rightarrow>
        if suppressed a = 0 then
           (if code a = SHIFT then do {
              actionrow \<leftarrow> wr actionrow (symbol a) (int (act_number a));
              Some (actionrow, shiftcount + 1, reducecount) }
            else if code a = REDUCE \<and> act_number a \<noteq> d then do {
              actionrow \<leftarrow> wr actionrow (symbol a + ntokens G) (int (act_number a));
              Some (actionrow, shiftcount, reducecount + 1) }
            else Some (actionrow, shiftcount, reducecount))
         else Some (actionrow, shiftcount, reducecount))) (\<lambda>s. \<exists>xs. xs @ ys = r \<and> I xs s)"
    proof (cases "live a")
      case False
      then have "live_entry P (xs @ [a]) j = live_entry P xs j" for P j by (simp add: live_entry_snoc split: option.splits)
      with False I s have "I (xs @ [a]) (arow, sc, rc)" by (simp add: I_def)
      from nxt [OF this] show ?thesis using False s by (simp add: live_def wp_simps)
    next
      case True
      have len: "length arow = 2 * ?nt" using I s by (simp add: I_def)
      consider (sh) "is_shift a" | (re) "is_reduce d a" "\<not> is_shift a" | (no) "\<not> is_reduce d a" "\<not> is_shift a" by blast
      then show ?thesis
      proof cases
        case sh
        then have "\<not> is_reduce d a" by simp
        then have "I (xs @ [a]) (arow[symbol a := int (act_number a)], sc + 1, rc)"
          using I sh True a len fresh by (auto simp: s I_def live_entry_snoc nth_list_update split: option.splits)
        from nxt [OF this] show ?thesis using True sh a len s by (simp add: live_def wp_simps)
      next
        case re
        have "I (xs @ [a]) (arow[symbol a + ?nt := int (act_number a)], sc, rc + 1)"
          using I re True a len fresh by (auto simp: s I_def live_entry_snoc nth_list_update split: option.splits)
        from nxt [OF this] show ?thesis using True re a len s by (simp add: live_def wp_simps)
      next
        case no
        have "I (xs @ [a]) (arow, sc, rc)"
          using I no True a len by (auto simp: s I_def live_entry_snoc split: option.splits)
        from nxt [OF this] show ?thesis using True no s by (cases "code a") (simp_all add: live_def wp_simps)
      qed
    qed
  qed
  then show ?thesis by (rule wp_mono) (auto simp: I_def)
qed

text \<open>The entries of a row, collected in the order of the tokens.\<close>

definition row_tokens :: "grammar \<Rightarrow> int list \<Rightarrow> nat \<Rightarrow> nat list" where
  "row_tokens G arow off = filter (\<lambda>j. arow ! (off + j) \<noteq> 0) [0..<ntokens G]"

lemma row_vector_ok:
  assumes len: "off + ntokens G \<le> length arow" "ntokens G \<le> length sv" and cnt: "length (row_tokens G arow off) \<le> cnt"
  shows "wp (row_vector G sv arow off d cnt) (\<lambda>(r, s, w). r = map ((!) sv) (row_tokens G arow off) \<and>
    s = map (\<lambda>j. arow ! (off + j) - d) (row_tokens G arow off))"
proof -
  define js where "js n = filter (\<lambda>j. arow ! (off + j) \<noteq> 0) [0..<n]" for n
  have mono: "length (js n) + length (filter (\<lambda>j. arow ! (off + j) \<noteq> 0) [n..<ntokens G]) = length (row_tokens G arow off)" if "n \<le> ntokens G" for n
  proof -
    have "[0..<ntokens G] = [0..<n] @ [n..<ntokens G]" using upt_add_eq_append [of 0 n "ntokens G - n"] that by simp
    then show ?thesis by (simp add: js_def row_tokens_def)
  qed
  have small: "length (js i) < cnt" if i: "i < ntokens G" "arow ! (off + i) \<noteq> 0" for i
  proof -
    have "filter (\<lambda>j. arow ! (off + j) \<noteq> 0) [i..<ntokens G] \<noteq> []" using i by (auto simp: filter_empty_conv)
    with mono [of i] i cnt show ?thesis by (cases "filter (\<lambda>j. arow ! (off + j) \<noteq> 0) [i..<ntokens G]") auto
  qed
  have "wp (for_up 0 (ntokens G) (\<lambda>j (mn, mx, r, s). do {
         v \<leftarrow> rd arow (off + j);
         if v \<noteq> 0 then do {
           sv \<leftarrow> rd sv j;
           r \<leftarrow> push cnt sv r;
           s \<leftarrow> push cnt (v - d) s;
           Some (if sv < mn then sv else mn, if mx < sv then sv else mx, r, s) }
         else Some (mn, mx, r, s) })
       (int MAXSHORT, 0, [], [])) (\<lambda>(mn, mx, r, s). r = map ((!) sv) (js (ntokens G)) \<and> s = map (\<lambda>j. arow ! (off + j) - d) (js (ntokens G)))"
    by (rule wp_for_up [where I = "\<lambda>i (mn, mx, r, s). r = map ((!) sv) (js i) \<and> s = map (\<lambda>j. arow ! (off + j) - d) (js i)"])
      (use len small in \<open>auto simp: js_def wp_simps\<close>)
  then show ?thesis
    unfolding row_vector_def wp_bind by (rule wp_mono) (auto simp: js_def row_tokens_def wp_simps)
qed

lemma row_tokens_count:
  assumes r: "row_ok G r" and arow: "\<And>j. j < ntokens G \<Longrightarrow> arow ! (off + j) = row_value (live_entry P r j)"
  shows "length (row_tokens G arow off) = length (filter (\<lambda>a. live a \<and> P a) r)"
    and "j \<in> set (row_tokens G arow off) \<longleftrightarrow> (j < ntokens G \<and> live_entry P r j \<noteq> None)"
proof -
  let ?xs = "filter (\<lambda>a. live a \<and> P a) r"
  have iff: "j \<in> set (row_tokens G arow off) \<longleftrightarrow> (j < ntokens G \<and> live_entry P r j \<noteq> None)" for j
  proof (cases "live_entry P r j")
    case (Some n)
    from live_entry_Some [OF Some] row_okD(3) [OF r] have "0 < n" by blast
    with Some show ?thesis using arow by (auto simp: row_tokens_def)
  qed (use arow in \<open>auto simp: row_tokens_def\<close>)
  then show "j \<in> set (row_tokens G arow off) \<longleftrightarrow> (j < ntokens G \<and> live_entry P r j \<noteq> None)" .
  have "distinct (map symbol (filter P (filter live r)))"
    using row_okD(1) [OF r] by (rule distinct_map_filter)
  moreover have "filter P (filter live r) = ?xs" by (simp add: conj_commute)
  ultimately have dist: "distinct (map symbol ?xs)" by simp
  have "set (row_tokens G arow off) = symbol ` set ?xs"
    unfolding set_eq_iff iff using row_okD(2) [OF r] by (auto simp: live_entry_def map_of_eq_None_iff image_iff)
  moreover have "distinct (row_tokens G arow off)" by (simp add: row_tokens_def)
  ultimately have "length (row_tokens G arow off) = card (symbol ` set ?xs)" by (metis distinct_card)
  also have "\<dots> = length ?xs" using dist by (metis distinct_card length_map list.set_map)
  finally show "length (row_tokens G arow off) = length ?xs" .
qed

lemma row_entry:
  assumes r: "row_ok G r" and arow: "\<And>j. j < ntokens G \<Longrightarrow> arow ! (off + j) = row_value (live_entry P r j)"
    and sv: "inj_on ((!) sv) {..<ntokens G}" and j: "j < ntokens G"
  shows "map_of (zip (map ((!) sv) (row_tokens G arow off)) (map (\<lambda>j. arow ! (off + j) - d) (row_tokens G arow off))) (sv ! j) =
    map_option (\<lambda>n. int n - d) (live_entry P r j)"
proof -
  let ?js = "row_tokens G arow off" and ?g = "\<lambda>j. arow ! (off + j) - d"
  note iff = row_tokens_count(2) [where P = P, OF r arow]
  have z: "zip (map ((!) sv) ?js) (map ?g ?js) = map (\<lambda>i. (sv ! i, ?g i)) ?js" by (induction ?js) (simp_all add: zip_map_map zip_same_conv_map)
  show ?thesis
  proof (cases "live_entry P r j")
    case None
    then have "j \<notin> set ?js" using iff j by simp
    moreover have "sv ! i = sv ! j \<longleftrightarrow> i = j" if "i \<in> set ?js" for i
      using inj_onD [OF sv, of i j] that j by (auto simp: row_tokens_def)
    ultimately have "sv ! j \<notin> (\<lambda>i. sv ! i) ` set ?js" by force
    then show ?thesis using None by (auto simp: z map_of_eq_None_iff image_iff)
  next
    case (Some n)
    then have mem: "j \<in> set ?js" using iff j by simp
    have "distinct (map fst (map (\<lambda>i. (sv ! i, ?g i)) ?js))"
      using inj_on_subset [OF sv, of "set ?js"] by (auto simp: distinct_map comp_def row_tokens_def subset_iff)
    then have "map_of (map (\<lambda>i. (sv ! i, ?g i)) ?js) (sv ! j) = Some (?g j)" using mem by (intro map_of_is_SomeI) auto
    then show ?thesis using Some arow [OF j] by (simp add: z)
  qed
qed

section \<open>token\_actions\<close>

definition sizes_ok :: "nat \<Rightarrow> vectors \<Rightarrow> bool" where
  "sizes_ok nv V \<longleftrightarrow> length (froms V) = nv \<and> length (tos V) = nv \<and> length (tally V) = nv \<and> length (width V) = nv"

text \<open>A vector that \<open>pack_table\<close> accepts, and one that was never set.\<close>

definition vector_ok :: "vectors \<Rightarrow> nat \<Rightarrow> bool" where
  "vector_ok V v \<longleftrightarrow> length (froms V ! v) = tally V ! v \<and> length (tos V ! v) = tally V ! v \<and> distinct (froms V ! v) \<and>
     (\<forall>f \<in> set (froms V ! v). 0 \<le> f \<and> f \<le> int MAXSHORT) \<and> (\<forall>t \<in> set (tos V ! v). 0 \<le> t \<and> t \<le> int MAXSHORT)"

definition vector_unset :: "vectors \<Rightarrow> nat \<Rightarrow> bool" where
  "vector_unset V v \<longleftrightarrow> froms V ! v = [] \<and> tos V ! v = [] \<and> tally V ! v = 0"

lemma wf_vectorsI: "sizes_ok nv V \<Longrightarrow> (\<And>v. v < nv \<Longrightarrow> vector_ok V v) \<Longrightarrow> wf_vectors nv V"
  by (auto simp: wf_vectors_def sizes_ok_def vector_ok_def)

lemma vector_unset_ok: "vector_unset V v \<Longrightarrow> vector_ok V v"
  by (simp add: vector_unset_def vector_ok_def)

definition update_vector :: "vectors \<Rightarrow> nat \<Rightarrow> int list \<Rightarrow> int list \<Rightarrow> int \<Rightarrow> nat \<Rightarrow> vectors" where
  "update_vector V v r s w c = V\<lparr>froms := (froms V)[v := r], tos := (tos V)[v := s], tally := (tally V)[v := c], width := (width V)[v := w]\<rparr>"

lemma wp_set_vector:
  assumes "sizes_ok nv V" "v < nv" "Q (update_vector V v r s w c)"
  shows "wp (set_vector v (r, s, w) c V) Q"
proof -
  have "update_vector V v r s w c = \<lparr>froms = (froms V)[v := r], tos = (tos V)[v := s], tally = (tally V)[v := c], width = (width V)[v := w]\<rparr>"
    by (simp add: update_vector_def)
  with assms show ?thesis by (simp add: set_vector_def wp_simps sizes_ok_def)
qed

lemma update_vector_simps:
  assumes "sizes_ok nv V" "v < nv"
  shows "sizes_ok nv (update_vector V v r s w c)"
    and "u \<noteq> v \<Longrightarrow> vector_ok (update_vector V v r s w c) u = vector_ok V u"
    and "u \<noteq> v \<Longrightarrow> vector_unset (update_vector V v r s w c) u = vector_unset V u"
    and "u \<noteq> v \<Longrightarrow> vector_entry (update_vector V v r s w c) u = vector_entry V u"
    and "vector_ok (update_vector V v r s w c) v \<longleftrightarrow> length r = c \<and> length s = c \<and> distinct r \<and>
      (\<forall>f \<in> set r. 0 \<le> f \<and> f \<le> int MAXSHORT) \<and> (\<forall>t \<in> set s. 0 \<le> t \<and> t \<le> int MAXSHORT)"
    and "vector_entry (update_vector V v r s w c) v = map_of (zip r s)"
  using assms by (simp_all add: update_vector_def sizes_ok_def vector_ok_def vector_unset_def vector_entry_def)

definition values_ok :: "grammar \<Rightarrow> int list \<Rightarrow> bool" where
  "values_ok G sv \<longleftrightarrow> length sv = nsyms G \<and> inj_on ((!) sv) {..<ntokens G} \<and> (\<forall>j < ntokens G. 0 \<le> sv ! j \<and> sv ! j \<le> int MAXSHORT) \<and>
     (\<forall>s. start_symbol G < s \<and> s < nsyms G \<longrightarrow> sv ! s = int (s - start_symbol G - 1))"

text \<open>The vectors of one row: what \<open>token_actions\<close> stores and what it means.\<close>

definition part_vector :: "grammar \<Rightarrow> int list \<Rightarrow> (action \<Rightarrow> bool) \<Rightarrow> int \<Rightarrow> action list \<Rightarrow> vectors \<Rightarrow> nat \<Rightarrow> bool" where
  "part_vector G sv P d r V v \<longleftrightarrow> vector_ok V v \<and>
     (\<forall>j < ntokens G. vector_entry V v (sv ! j) = map_option (\<lambda>n. int n - d) (live_entry P r j))"

lemma part_vector_unset:
  assumes "vector_unset V v" "filter (\<lambda>a. live a \<and> P a) r = []"
  shows "part_vector G sv P d r V v"
  using assms by (simp add: part_vector_def vector_unset_ok live_entry_def vector_unset_def vector_entry_def)

lemma part_vector_set:
  assumes V: "sizes_ok nv V" "v < nv" and G: "values_ok G sv" "ntokens G \<le> nsyms G" and r: "row_ok G r"
    and big: "\<And>a. a \<in> set r \<Longrightarrow> P a \<Longrightarrow> d \<le> int (act_number a)" "0 \<le> d"
    and arow: "\<And>j. j < ntokens G \<Longrightarrow> arow ! (off + j) = row_value (live_entry P r j)" and len: "off + ntokens G \<le> length arow"
    and c: "c = length (filter (\<lambda>a. live a \<and> P a) r)"
    and Q: "\<And>V'. sizes_ok nv V' \<Longrightarrow> part_vector G sv P d r V' v \<Longrightarrow> (\<And>u. u \<noteq> v \<Longrightarrow> vector_ok V' u = vector_ok V u \<and>
      vector_unset V' u = vector_unset V u \<and> vector_entry V' u = vector_entry V u) \<Longrightarrow> Q V'"
  shows "wp (do { x \<leftarrow> (if 0 < c then row_vector G sv arow off d c else Some ([], [], 0)); set_vector v x c V }) Q"
proof (cases "0 < c")
  case False
  then have "part_vector G sv P d r (update_vector V v [] [] 0 c) v"
    using c by (auto simp: part_vector_def update_vector_simps [OF V] live_entry_def)
  then have "Q (update_vector V v [] [] 0 c)" by (intro Q) (simp_all add: update_vector_simps [OF V])
  with False show ?thesis by (auto simp: wp_simps intro!: wp_set_vector [OF V])
next
  case True
  let ?js = "row_tokens G arow off"
  have cnt: "length ?js = c" using row_tokens_count(1) [OF r arow] c by simp
  have iff: "j \<in> set ?js \<longleftrightarrow> (j < ntokens G \<and> live_entry P r j \<noteq> None)" for j by (rule row_tokens_count(2) [OF r arow])
  have sv: "inj_on ((!) sv) {..<ntokens G}" "\<forall>j < ntokens G. 0 \<le> sv ! j \<and> sv ! j \<le> int MAXSHORT" "ntokens G \<le> length sv"
    using G by (auto simp: values_ok_def)
  have vals: "0 \<le> arow ! (off + j) - d \<and> arow ! (off + j) - d \<le> int MAXSHORT" if "j \<in> set ?js" for j
  proof -
    have "j < ntokens G" "live_entry P r j \<noteq> None" using that iff [of j] by auto
    then obtain n where n: "live_entry P r j = Some n" "j < ntokens G" by auto
    from live_entry_Some [OF n(1)] obtain a where "a \<in> set r" "P a" "act_number a = n" by blast
    then have "d \<le> int n" "n \<le> MAXSHORT" using big(1) [of a] row_okD(4) [OF r, of a] by simp_all
    moreover have "arow ! (off + j) = int n" using arow [OF n(2)] n(1) by simp
    ultimately show ?thesis using big(2) by linarith
  qed
  have upd: "Q (update_vector V v (map ((!) sv) ?js) (map (\<lambda>j. arow ! (off + j) - d) ?js) w c)" for w
  proof (rule Q)
    show "part_vector G sv P d r (update_vector V v (map ((!) sv) ?js) (map (\<lambda>j. arow ! (off + j) - d) ?js) w c) v"
      unfolding part_vector_def update_vector_simps [OF V]
    proof (intro conjI allI impI)
      show "distinct (map ((!) sv) ?js)" using inj_on_subset [OF sv(1), of "set ?js"] by (auto simp: distinct_map row_tokens_def subset_iff)
      show "\<And>j. j < ntokens G \<Longrightarrow> map_of (zip (map ((!) sv) ?js) (map (\<lambda>j. arow ! (off + j) - d) ?js)) (sv ! j) =
          map_option (\<lambda>n. int n - d) (live_entry P r j)" by (rule row_entry [OF r arow sv(1)])
    qed (use cnt iff sv(2) vals in auto)
  qed (simp_all add: update_vector_simps [OF V])
  have "wp (row_vector G sv arow off d c) (\<lambda>(r, s, w). r = map ((!) sv) ?js \<and> s = map (\<lambda>j. arow ! (off + j) - d) ?js)"
    by (rule row_vector_ok [OF len sv(3)]) (simp add: cnt)
  then show ?thesis
    using True unfolding wp_bind if_P [OF True]
    by (elim wp_mono) (auto intro!: wp_set_vector [OF V] upd)
qed

definition rows_ok :: "grammar \<Rightarrow> parser_tables \<Rightarrow> bool" where
  "rows_ok G P \<longleftrightarrow> length (defred P) = length (parser P) \<and>
     (\<forall>r \<in> set (parser P). row_ok G r \<and> (\<forall>a \<in> set r. code a = REDUCE \<longrightarrow> 2 \<le> act_number a))"

definition tokens_done :: "grammar \<Rightarrow> int list \<Rightarrow> parser_tables \<Rightarrow> nat \<Rightarrow> nat \<Rightarrow> vectors \<Rightarrow> bool" where
  "tokens_done G sv P nv i V \<longleftrightarrow> (let n = length (parser P) in sizes_ok nv V \<and>
     (\<forall>k < i. part_vector G sv is_shift 0 (parser P ! k) V k \<and> part_vector G sv (is_reduce (defred P ! k)) 2 (parser P ! k) V (n + k)) \<and>
     (\<forall>k. i \<le> k \<and> k < n \<longrightarrow> vector_unset V k \<and> vector_unset V (n + k)) \<and> (\<forall>v. 2 * n \<le> v \<and> v < nv \<longrightarrow> vector_unset V v))"

lemma part_vector_cong:
  assumes "vector_ok V' u = vector_ok V u \<and> vector_unset V' u = vector_unset V u \<and> vector_entry V' u = vector_entry V u"
  shows "part_vector G sv P d r V' u = part_vector G sv P d r V u"
  using assms by (simp add: part_vector_def)

lemma token_actions_ok:
  assumes G: "values_ok G sv" "ntokens G \<le> nsyms G" and P: "rows_ok G P" and n: "n = length (parser P)"
    and V: "sizes_ok nv V" "\<And>v. v < nv \<Longrightarrow> vector_unset V v" and nv: "2 * n \<le> nv"
  shows "wp (token_actions G sv P V) (tokens_done G sv P nv n)"
  unfolding token_actions_def Let_def n [symmetric]
proof (rule wp_for_up [where I = "tokens_done G sv P nv"])
  show "tokens_done G sv P nv 0 V" using V nv n by (simp add: tokens_done_def)
next
  fix i V assume i: "i < n" and I: "tokens_done G sv P nv i V"
  have sz: "sizes_ok nv V" and old: "\<And>k. k < i \<Longrightarrow> part_vector G sv is_shift 0 (parser P ! k) V k \<and> part_vector G sv (is_reduce (defred P ! k)) 2 (parser P ! k) V (n + k)"
    and new: "\<And>k. i \<le> k \<Longrightarrow> k < n \<Longrightarrow> vector_unset V k \<and> vector_unset V (n + k)" and rest: "\<And>v. 2 * n \<le> v \<Longrightarrow> v < nv \<Longrightarrow> vector_unset V v"
    using I unfolding tokens_done_def n Let_def by blast+
  define r where "r = parser P ! i"
  have "r \<in> set (parser P)" using i n by (simp add: r_def)
  then have r: "row_ok G r" "\<And>a. a \<in> set r \<Longrightarrow> code a = REDUCE \<Longrightarrow> 2 \<le> act_number a" and d: "i < length (defred P)"
    using P i n by (auto simp: rows_ok_def)
  define d where "d = defred P ! i"
  have fin: "tokens_done G sv P nv (Suc i) W" if W: "sizes_ok nv W" "part_vector G sv is_shift 0 r W i" "part_vector G sv (is_reduce d) 2 r W (n + i)"
    and same: "\<And>u. u \<noteq> i \<Longrightarrow> u \<noteq> n + i \<Longrightarrow> vector_ok W u = vector_ok V u \<and> vector_unset W u = vector_unset V u \<and> vector_entry W u = vector_entry V u" for W
  proof -
    have "part_vector G sv is_shift 0 (parser P ! k) W k \<and> part_vector G sv (is_reduce (defred P ! k)) 2 (parser P ! k) W (n + k)" if k: "k < Suc i" for k
    proof (cases "k = i")
      case False
      then have "part_vector G sv is_shift 0 (parser P ! k) W k = part_vector G sv is_shift 0 (parser P ! k) V k"
        "part_vector G sv (is_reduce (defred P ! k)) 2 (parser P ! k) W (n + k) = part_vector G sv (is_reduce (defred P ! k)) 2 (parser P ! k) V (n + k)"
        using i k by (auto intro!: part_vector_cong same)
      with old False k show ?thesis by simp
    qed (use W in \<open>simp add: r_def d_def\<close>)
    moreover have "vector_unset W k \<and> vector_unset W (n + k)" if "Suc i \<le> k" "k < n" for k using same [of k] same [of "n + k"] new [of k] that i by simp
    moreover have "vector_unset W v" if "2 * n \<le> v" "v < nv" for v using same [of v] rest [of v] that i by simp
    ultimately show ?thesis using W(1) unfolding tokens_done_def n [symmetric] Let_def by blast
  qed
  show "wp (do {
         actions \<leftarrow> rd (parser P) i;
         if actions = [] then Some V
         else do {
           dred \<leftarrow> rd (defred P) i;
           (actionrow, shiftcount, reducecount) \<leftarrow> action_row G dred actions;
           sh \<leftarrow> (if 0 < shiftcount then row_vector G sv actionrow 0 0 shiftcount else Some ([], [], 0));
           V \<leftarrow> set_vector i sh shiftcount V;
           re \<leftarrow> (if 0 < reducecount then row_vector G sv actionrow (ntokens G) 2 reducecount else Some ([], [], 0));
           set_vector (n + i) re reducecount V } }) (tokens_done G sv P nv (Suc i))"
  proof (cases "r = []")
    case True
    then have "part_vector G sv is_shift 0 r V i" "part_vector G sv (is_reduce d) 2 r V (n + i)"
      using new [of i] i by (auto intro!: part_vector_unset)
    with fin [OF sz] True i n show ?thesis by (simp add: wp_simps r_def)
  next
    case False
    obtain arow sc rc where row: "action_row G d r = Some (arow, sc, rc)" "length arow = 2 * ntokens G"
      "sc = length (filter (\<lambda>a. live a \<and> is_shift a) r)" "rc = length (filter (\<lambda>a. live a \<and> is_reduce d a) r)"
      "\<And>j. j < ntokens G \<Longrightarrow> arow ! (0 + j) = row_value (live_entry is_shift r j)"
      "\<And>j. j < ntokens G \<Longrightarrow> arow ! (ntokens G + j) = row_value (live_entry (is_reduce d) r j)"
      using action_row_ok [OF r(1), of d] by (auto simp: wp_def)
    have second: "wp (do { re \<leftarrow> (if 0 < rc then row_vector G sv arow (ntokens G) 2 rc else Some ([], [], 0)); set_vector (n + i) re rc W }) (tokens_done G sv P nv (Suc i))"
      if W: "sizes_ok nv W" "part_vector G sv is_shift 0 r W i"
        "\<And>u. u \<noteq> i \<Longrightarrow> vector_ok W u = vector_ok V u \<and> vector_unset W u = vector_unset V u \<and> vector_entry W u = vector_entry V u" for W
    proof (rule part_vector_set [OF W(1) _ G r(1) _ _ row(6) _ row(4)])
      fix X assume X: "sizes_ok nv X" "part_vector G sv (is_reduce d) 2 r X (n + i)"
        "\<And>u. u \<noteq> n + i \<Longrightarrow> vector_ok X u = vector_ok W u \<and> vector_unset X u = vector_unset W u \<and> vector_entry X u = vector_entry W u"
      have "part_vector G sv is_shift 0 r X i" using W(2) part_vector_cong [OF X(3) [of i]] i by simp
      then show "tokens_done G sv P nv (Suc i) X" using X W by (intro fin) auto
    qed (use i nv r(2) row(2) in auto)
    have "wp (do { sh \<leftarrow> (if 0 < sc then row_vector G sv arow 0 0 sc else Some ([], [], 0)); set_vector i sh sc V })
        (\<lambda>W. wp (do { re \<leftarrow> (if 0 < rc then row_vector G sv arow (ntokens G) 2 rc else Some ([], [], 0)); set_vector (n + i) re rc W }) (tokens_done G sv P nv (Suc i)))"
      by (rule part_vector_set [OF sz _ G r(1) _ _ row(5) _ row(3)]) (use i nv row(2) second in auto)
    then show ?thesis using False i n d row(1) by (simp add: wp_simps r_def [symmetric] d_def [symmetric])
  qed
qed (use n in auto)

section \<open>goto\_actions\<close>

definition wf_gotos :: "grammar \<Rightarrow> nat \<Rightarrow> gotos \<Rightarrow> bool" where
  "wf_gotos G n T \<longleftrightarrow> length (goto_map T) = Suc (nvars G) \<and> length (to_state T) = length (from_state T) \<and>
     (\<forall>k < nvars G. goto_map T ! k \<le> goto_map T ! Suc k \<and> goto_map T ! Suc k \<le> length (from_state T) \<and>
       sorted_wrt (<) (map ((!) (from_state T)) [goto_map T ! k..<goto_map T ! Suc k])) \<and>
     (\<forall>q \<in> set (from_state T). q < n) \<and> (\<forall>q \<in> set (to_state T). q < n)"

lemma wf_gotosD:
  assumes "wf_gotos G n T"
  shows "length (goto_map T) = Suc (nvars G)" "length (to_state T) = length (from_state T)"
    "k < nvars G \<Longrightarrow> goto_map T ! k \<le> goto_map T ! Suc k" "k < nvars G \<Longrightarrow> goto_map T ! Suc k \<le> length (from_state T)"
    "k < nvars G \<Longrightarrow> distinct (map ((!) (from_state T)) [goto_map T ! k..<goto_map T ! Suc k])"
    "i < length (from_state T) \<Longrightarrow> from_state T ! i < n" "i < length (from_state T) \<Longrightarrow> to_state T ! i < n"
proof -
  show "k < nvars G \<Longrightarrow> distinct (map ((!) (from_state T)) [goto_map T ! k..<goto_map T ! Suc k])"
    using assms strict_sorted_iff unfolding wf_gotos_def by blast
qed (use assms in \<open>auto simp: wf_gotos_def\<close>)

lemma default_goto_ok:
  assumes T: "wf_gotos G n T" and k: "s - nt < nvars G" and n: "0 < n"
  shows "wp (default_goto n T nt s) (\<lambda>q. q < n)"
proof -
  let ?m = "goto_map T ! (s - nt)" and ?e = "goto_map T ! Suc (s - nt)"
  note wf = wf_gotosD [OF T]
  have first: "wp (for_up ?m ?e (\<lambda>i c. do { q \<leftarrow> rd (to_state T) i; v \<leftarrow> rd c q; wr c q (v + 1) }) (replicate n (0::nat))) (\<lambda>c. length c = n)"
  proof (rule wp_for_up [where I = "\<lambda>i c. length c = n"])
    fix i and c :: "nat list" assume "?m \<le> i" "i < ?e" "length c = n"
    moreover from this wf(4) [OF k] have "i < length (from_state T)" by simp
    ultimately show "wp (do { q \<leftarrow> rd (to_state T) i; v \<leftarrow> rd c q; wr c q (v + 1) }) (\<lambda>c. length c = n)"
      using wf(2,7) by (simp add: wp_simps)
  qed (use wf(3) [OF k] in auto)
  have second: "wp (for_up 0 n (\<lambda>i (mx, d). do { v \<leftarrow> rd c i; Some (if mx < v then (v, i) else (mx, d)) }) (0, 0)) (\<lambda>(mx, d). d < n)"
    if "length c = n" for c :: "nat list"
    by (rule wp_for_up [where I = "\<lambda>i (mx, d). d < n"]) (use that n in \<open>auto simp: wp_simps\<close>)
  show ?thesis
  proof (cases "?m = ?e")
    case True
    with k n wf(1) show ?thesis by (simp add: default_goto_def wp_simps)
  next
    case False
    have "wp (for_up ?m ?e (\<lambda>i c. do { q \<leftarrow> rd (to_state T) i; v \<leftarrow> rd c q; wr c q (v + 1) }) (replicate n (0::nat)))
        (\<lambda>c. wp (for_up 0 n (\<lambda>i (mx, d). do { v \<leftarrow> rd c i; Some (if mx < v then (v, i) else (mx, d)) }) (0, 0)) (\<lambda>(mx, d). d < n))"
      by (rule wp_mono [OF first second])
    with False k n wf(1) show ?thesis by (simp add: default_goto_def wp_simps split_def)
  qed
qed

text \<open>A column whose entries differ from the default goto \<open>d\<close>.\<close>

definition column_entries :: "gotos \<Rightarrow> nat \<Rightarrow> nat \<Rightarrow> vectors \<Rightarrow> nat \<Rightarrow> nat \<Rightarrow> bool" where
  "column_entries T m e V v d \<longleftrightarrow> vector_ok V v \<and> (\<forall>i. m \<le> i \<and> i < e \<longrightarrow>
     (case vector_entry V v (int (from_state T ! i)) of Some t \<Rightarrow> t | None \<Rightarrow> int d) = int (to_state T ! i))"

lemma map_of_zip_filter:
  assumes "distinct (map f xs)" "i \<in> set xs"
  shows "map_of (zip (map f (filter P xs)) (map g (filter P xs))) (f i) = (if P i then Some (g i) else None)"
proof -
  have "zip (map f (filter P xs)) (map g (filter P xs)) = map (\<lambda>i. (f i, g i)) (filter P xs)"
    by (simp add: zip_map_map zip_same_conv_map)
  moreover have "map_of (map (\<lambda>i. (f i, g i)) (filter P xs)) (f i) = (if P i then Some (g i) else None)"
    using assms by (induction xs) (auto simp: map_of_eq_None_iff image_iff)
  ultimately show ?thesis by simp
qed

lemma collect_ok:
  fixes m e cnt :: nat
  assumes le: "m \<le> e" and f: "\<And>i. m \<le> i \<Longrightarrow> i < e \<Longrightarrow> i < length xs \<and> i < length ys" and cnt: "length (filter (\<lambda>i. ys ! i \<noteq> d) [m..<e]) = cnt"
  shows "wp (for_up m e (\<lambda>i (sp1, sp2). do {
           q \<leftarrow> rd ys i;
           if q \<noteq> d then do {
             p \<leftarrow> rd xs i;
             sp1 \<leftarrow> push cnt (int p) sp1;
             sp2 \<leftarrow> push cnt (int q) sp2;
             Some (sp1, sp2) }
           else Some (sp1, sp2) }) ([], []))
    (\<lambda>(sp1, sp2). sp1 = map (\<lambda>i. int (xs ! i)) (filter (\<lambda>i. ys ! i \<noteq> d) [m..<e]) \<and> sp2 = map (\<lambda>i. int (ys ! i)) (filter (\<lambda>i. ys ! i \<noteq> d) [m..<e]))"
proof (rule wp_for_up [where I = "\<lambda>k (sp1, sp2). sp1 = map (\<lambda>i. int (xs ! i)) (filter (\<lambda>i. ys ! i \<noteq> d) [m..<k]) \<and>
    sp2 = map (\<lambda>i. int (ys ! i)) (filter (\<lambda>i. ys ! i \<noteq> d) [m..<k])"], goal_cases)
  case (3 i s)
  have "length (filter (\<lambda>i. ys ! i \<noteq> d) [m..<i]) < cnt" if "ys ! i \<noteq> d"
  proof -
    have "[m..<e] = [m..<i] @ [i..<e]" using upt_add_eq_append [of m i "e - i"] 3 by simp
    moreover have "i \<in> set (filter (\<lambda>i. ys ! i \<noteq> d) [i..<e])" using that 3 by simp
    then have "0 < length (filter (\<lambda>i. ys ! i \<noteq> d) [i..<e])" by (cases "filter (\<lambda>i. ys ! i \<noteq> d) [i..<e]") auto
    ultimately show ?thesis using cnt by (simp del: length_greater_0_conv)
  qed
  with 3 f [of i] show ?case by (auto simp: wp_simps)
qed (use le in auto)

lemma count_ok:
  fixes m e :: nat
  assumes "m \<le> e" "\<And>i. m \<le> i \<Longrightarrow> i < e \<Longrightarrow> i < length ys"
  shows "wp (for_up m e (\<lambda>i cnt. do { q \<leftarrow> rd ys i; Some (if q \<noteq> d then cnt + 1 else cnt) }) 0)
    (\<lambda>cnt. cnt = length (filter (\<lambda>i. ys ! i \<noteq> d) [m..<e]))"
  by (rule wp_for_up [where I = "\<lambda>i cnt. cnt = length (filter (\<lambda>i. ys ! i \<noteq> d) [m..<i])"]) (use assms in \<open>auto simp: wp_simps\<close>)

lemma save_column_ok:
  assumes T: "wf_gotos G n T" and k: "s - nt < nvars G" and n: "n \<le> MAXSHORT" and sv: "s < length sv" "sv ! s = int w"
    and V: "sizes_ok nv V" "2 * n + w < nv" "vector_unset V (2 * n + w)"
    and Q: "\<And>V'. sizes_ok nv V' \<Longrightarrow> column_entries T (goto_map T ! (s - nt)) (goto_map T ! Suc (s - nt)) V' (2 * n + w) d \<Longrightarrow>
      (\<And>u. u \<noteq> 2 * n + w \<Longrightarrow> vector_ok V' u = vector_ok V u \<and> vector_unset V' u = vector_unset V u \<and> vector_entry V' u = vector_entry V u) \<Longrightarrow> Q V'"
  shows "wp (save_column n T sv nt s d V) Q"
proof -
  let ?m = "goto_map T ! (s - nt)" and ?e = "goto_map T ! Suc (s - nt)"
  let ?is = "filter (\<lambda>i. to_state T ! i \<noteq> d) [?m..<?e]"
  note wf = wf_gotosD [OF T]
  have idx: "i < length (from_state T) \<and> i < length (to_state T)" if "?m \<le> i" "i < ?e" for i using that wf(2) wf(4) [OF k] by simp
  obtain cnt where cnt: "for_up ?m ?e (\<lambda>i cnt. do { q \<leftarrow> rd (to_state T) i; Some (if q \<noteq> d then cnt + 1 else cnt) }) 0 = Some cnt" "length ?is = cnt"
    using count_ok [of ?m ?e "to_state T" d] wf(3) [OF k] idx by (auto simp: wp_def)
  show ?thesis
  proof (cases "cnt = 0")
    case True
    have "column_entries T ?m ?e V (2 * n + w) d"
      using True cnt(2) V(3) vector_unset_ok [OF V(3)] by (auto simp: column_entries_def vector_entry_def vector_unset_def filter_empty_conv)
    then have "Q V" by (intro Q V(1)) simp_all
    with True cnt(1) k wf(1) show ?thesis by (simp add: save_column_def wp_simps)
  next
    case False
    let ?f = "map (\<lambda>i. int (from_state T ! i)) ?is" and ?t = "map (\<lambda>i. int (to_state T ! i)) ?is"
    have pair: "for_up ?m ?e (\<lambda>i (sp1, sp2). do {
           q \<leftarrow> rd (to_state T) i;
           if q \<noteq> d then do {
             p \<leftarrow> rd (from_state T) i;
             sp1 \<leftarrow> push cnt (int p) sp1;
             sp2 \<leftarrow> push cnt (int q) sp2;
             Some (sp1, sp2) }
           else Some (sp1, sp2) }) ([], []) = Some (?f, ?t)"
      using collect_ok [OF wf(3) [OF k] idx cnt(2)] by (auto simp: wp_def)
    have dist: "distinct (map (\<lambda>i. int (from_state T ! i)) [?m..<?e])"
      using wf(5) [OF k] by (simp add: distinct_map comp_inj_on_iff [symmetric] inj_on_def)
    have Vn: "sizes_ok nv V" "2 * n + w < nv" by (rule V)+
    have rng: "from_state T ! i \<le> MAXSHORT \<and> to_state T ! i \<le> MAXSHORT" if "?m \<le> i" "i < ?e" for i
      using idx [OF that] wf(6) [of i] wf(7) [of i] n by linarith
    have fin: "Q (update_vector V (2 * n + w) ?f ?t x cnt)" for x
    proof (rule Q)
      show "column_entries T ?m ?e (update_vector V (2 * n + w) ?f ?t x cnt) (2 * n + w) d"
        unfolding column_entries_def update_vector_simps [OF Vn]
      proof (intro conjI allI impI)
        show "distinct ?f" using dist by (rule distinct_map_filter)
        show "\<forall>f \<in> set ?f. 0 \<le> f \<and> f \<le> int MAXSHORT" "\<forall>f \<in> set ?t. 0 \<le> f \<and> f \<le> int MAXSHORT"
          using rng by auto
        fix i assume i: "?m \<le> i \<and> i < ?e"
        show "(case map_of (zip ?f ?t) (int (from_state T ! i)) of Some t \<Rightarrow> t | None \<Rightarrow> int d) = int (to_state T ! i)"
          using map_of_zip_filter [OF dist, of i "\<lambda>i. to_state T ! i \<noteq> d" "\<lambda>i. int (to_state T ! i)"] i by simp
      qed (use cnt(2) in auto)
    qed (simp_all add: update_vector_simps [OF Vn])
    have "nat (sv ! s + 2 * int n) = 2 * n + w" using sv(2) by simp
    moreover have "wp (set_vector (2 * n + w) (?f, ?t, x) cnt V) Q" for x by (rule wp_set_vector [OF Vn]) (rule fin)
    moreover have "length ?f - 1 < length ?f" "0 < length ?f" using False cnt(2) by auto
    ultimately show ?thesis
      using False cnt(1) k wf(1) sv(1) pair by (simp add: save_column_def wp_simps del: length_map)
  qed
qed

definition columns_done :: "nat \<Rightarrow> gotos \<Rightarrow> nat \<Rightarrow> vectors \<Rightarrow> nat \<Rightarrow> nat list \<times> vectors \<Rightarrow> bool" where
  "columns_done n T nv V0 c = (\<lambda>(ks, V). length ks = c \<and> sizes_ok nv V \<and> (\<forall>k \<in> set ks. k < n) \<and>
     (\<forall>w < c. column_entries T (goto_map T ! Suc w) (goto_map T ! Suc (Suc w)) V (2 * n + w) (ks ! w)) \<and>
     (\<forall>w. c \<le> w \<and> 2 * n + w < nv \<longrightarrow> vector_unset V (2 * n + w)) \<and>
     (\<forall>v < 2 * n. vector_ok V v = vector_ok V0 v \<and> vector_entry V v = vector_entry V0 v))"

lemma column_entries_cong:
  assumes "vector_ok V' u = vector_ok V u \<and> vector_unset V' u = vector_unset V u \<and> vector_entry V' u = vector_entry V u"
  shows "column_entries T m e V' u d = column_entries T m e V u d"
  using assms by (simp add: column_entries_def)

lemma goto_column_ok:
  assumes G: "start_symbol G = ntokens G" "nsyms G = ntokens G + nvars G" "values_ok G sv" and T: "wf_gotos G n T" and n: "0 < n" "n \<le> MAXSHORT"
    and nv: "nv = 2 * n + nvars G" and c: "Suc c < nvars G" and I: "columns_done n T nv V0 c st"
  shows "wp (goto_column G n T sv (ntokens G + Suc c) st) (columns_done n T nv V0 (Suc c))"
proof -
  obtain ks V where st: "st = (ks, V)" by (cases st)
  have ks: "length ks = c" "\<And>k. k \<in> set ks \<Longrightarrow> k < n" and V: "sizes_ok nv V"
    and old: "\<And>w. w < c \<Longrightarrow> column_entries T (goto_map T ! Suc w) (goto_map T ! Suc (Suc w)) V (2 * n + w) (ks ! w)"
    and unset: "\<And>w. c \<le> w \<Longrightarrow> 2 * n + w < nv \<Longrightarrow> vector_unset V (2 * n + w)"
    and low: "\<And>v. v < 2 * n \<Longrightarrow> vector_ok V v = vector_ok V0 v \<and> vector_entry V v = vector_entry V0 v"
    using I unfolding columns_done_def st by auto
  have sv: "ntokens G + Suc c < length sv" "sv ! (ntokens G + Suc c) = int c" using G c by (auto simp: values_ok_def)
  have k: "ntokens G + Suc c - ntokens G < nvars G" using c by simp
  have col: "wp (save_column n T sv (ntokens G) (ntokens G + Suc c) d V) (\<lambda>V'. columns_done n T nv V0 (Suc c) (ks @ [d], V'))" if d: "d < n" for d
  proof (rule save_column_ok [OF T k n(2) sv V])
    show "2 * n + c < nv" using nv c by simp
    then show "vector_unset V (2 * n + c)" by (intro unset) simp
    fix V' assume V': "sizes_ok nv V'"
      "column_entries T (goto_map T ! (ntokens G + Suc c - ntokens G)) (goto_map T ! Suc (ntokens G + Suc c - ntokens G)) V' (2 * n + c) d"
      "\<And>u. u \<noteq> 2 * n + c \<Longrightarrow> vector_ok V' u = vector_ok V u \<and> vector_unset V' u = vector_unset V u \<and> vector_entry V' u = vector_entry V u"
    have "column_entries T (goto_map T ! Suc w) (goto_map T ! Suc (Suc w)) V' (2 * n + w) ((ks @ [d]) ! w)" if "w < Suc c" for w
    proof (cases "w = c")
      case True
      then show ?thesis using V'(2) ks(1) by (simp add: nth_append)
    next
      case False
      then have "column_entries T m e V' (2 * n + w) x = column_entries T m e V (2 * n + w) x" for m e x
        by (intro column_entries_cong V'(3)) simp
      with old [of w] False that ks(1) show ?thesis by (simp add: nth_append)
    qed
    moreover have "vector_unset V' (2 * n + w)" if "Suc c \<le> w" "2 * n + w < nv" for w using V'(3) [of "2 * n + w"] unset [of w] that by simp
    moreover have "vector_ok V' v = vector_ok V0 v \<and> vector_entry V' v = vector_entry V0 v" if "v < 2 * n" for v using V'(3) [of v] low [OF that] that by simp
    ultimately show "columns_done n T nv V0 (Suc c) (ks @ [d], V')" using V'(1) ks d by (auto simp: columns_done_def)
  qed
  obtain d where "default_goto n T (ntokens G) (ntokens G + Suc c) = Some d" "d < n"
    using default_goto_ok [OF T k n(1)] by (auto simp: wp_def)
  with col [of d] show ?thesis by (simp add: goto_column_def st wp_simps)
qed

lemma goto_actions_ok:
  assumes G: "start_symbol G = ntokens G" "nsyms G = ntokens G + nvars G" "values_ok G sv" and T: "wf_gotos G n T" and n: "0 < n" "n \<le> MAXSHORT"
    and nv: "nv = 2 * n + nvars G" and two: "1 < nvars G" and V: "sizes_ok nv V" "\<And>v. 2 * n \<le> v \<Longrightarrow> v < nv \<Longrightarrow> vector_unset V v"
  shows "wp (goto_actions G n T sv V) (columns_done n T nv V (nvars G - 1))"
proof -
  have init: "columns_done n T nv V 0 ([], V)" using V by (simp add: columns_done_def)
  note col = goto_column_ok [OF G T n nv]
  have "wp (goto_column G n T sv (ntokens G + Suc 0) ([], V)) (columns_done n T nv V (Suc 0))"
    by (rule col [OF _ init]) (use two in simp)
  moreover have "wp (for_up (start_symbol G + 2) (nsyms G) (goto_column G n T sv) st) (columns_done n T nv V (nvars G - 1))"
    if st: "columns_done n T nv V (Suc 0) st" for st
  proof (rule wp_for_up [where I = "\<lambda>s. columns_done n T nv V (s - ntokens G - 1)"])
    fix s st assume s: "start_symbol G + 2 \<le> s" "s < nsyms G" and I: "columns_done n T nv V (s - ntokens G - 1) st"
    have "wp (goto_column G n T sv (ntokens G + Suc (s - ntokens G - 1)) st) (columns_done n T nv V (Suc (s - ntokens G - 1)))"
      by (rule col [OF _ I]) (use s G in simp)
    moreover have "ntokens G + Suc (s - ntokens G - 1) = s" "Suc (s - ntokens G - 1) = Suc s - ntokens G - 1" using s G by auto
    ultimately show "wp (goto_column G n T sv s st) (columns_done n T nv V (Suc s - ntokens G - 1))" by simp
  qed (use G two st in auto)
  ultimately show ?thesis
    unfolding goto_actions_def wp_bind using G(1) by (auto elim!: wp_mono)
qed

section \<open>The tables of the engine\<close>

text \<open>
  \<open>output_actions\<close> and the functions around it, with the literals read back: the record of tables that the
  parser engine gets.
\<close>

definition no_vectors :: "nat \<Rightarrow> vectors" where
  "no_vectors nv = \<lparr>froms = replicate nv [], tos = replicate nv [], tally = replicate nv 0, width = replicate nv 0\<rparr>"

definition output_actions :: "grammar \<Rightarrow> int list \<Rightarrow> parser_tables \<Rightarrow> gotos \<Rightarrow> (pack_error + nat list \<times> pack) option" where
  "output_actions G symbol_value P T = (let nstates = length (parser P); nvectors = 2 * nstates + nvars G in
     bindE (liftE (do {
         V \<leftarrow> token_actions G symbol_value P (no_vectors nvectors);
         (yydgoto, V) \<leftarrow> goto_actions G nstates T symbol_value V;
         ord \<leftarrow> sort_actions nvectors V;
         Some (yydgoto, V, ord) }))
       (\<lambda>(yydgoto, V, ord). bindE (pack_table nstates nvectors V ord) (\<lambda>pk. returnE (yydgoto, pk))))"

definition read_tables :: "grammar \<Rightarrow> int list \<Rightarrow> parser_tables \<Rightarrow> bool list \<Rightarrow> bool list \<Rightarrow> nat list \<Rightarrow> pack \<Rightarrow> engine_tables option" where
  "read_tables G symbol_value P true_token has_tag ks pk = (let nstates = length (parser P); nvectors = 2 * nstates + nvars G in do {
     (cs, bs) \<leftarrow> output_transl G symbol_value true_token has_tag;
     (lhs, len) \<leftarrow> output_rule_data G symbol_value;
     lhs \<leftarrow> ocaml_string lhs; len \<leftarrow> ocaml_string len;
     dr \<leftarrow> output_yydefred nstates (defred P); dr \<leftarrow> ocaml_string dr;
     dg \<leftarrow> output_yydgoto ks; dg \<leftarrow> ocaml_string dg;
     (si, ri, gi) \<leftarrow> output_base nstates nvectors (base pk);
     si \<leftarrow> ocaml_string si; ri \<leftarrow> ocaml_string ri; gi \<leftarrow> ocaml_string gi;
     (size, tb) \<leftarrow> output_table pk; tb \<leftarrow> ocaml_string tb;
     ck \<leftarrow> output_check pk; ck \<leftarrow> ocaml_string ck;
     Some \<lparr>yytransl_const = cs, yytransl_block = bs, yylhs = lhs, yylen = len, yydefred = dr, yydgoto = dg,
       yysindex = si, yyrindex = ri, yygindex = gi, yytablesize = size, yytable = tb, yycheck = ck\<rparr> })"

lemma rds_Some: "(\<And>i. i \<in> set is \<Longrightarrow> i < length xs) \<Longrightarrow> rds xs is = Some (map ((!) xs) is)"
  by (simp add: rds_def list_all_iff)

text \<open>The tables that come out, as lists of numbers.\<close>

definition tables_of :: "grammar \<Rightarrow> int list \<Rightarrow> parser_tables \<Rightarrow> nat list \<Rightarrow> pack \<Rightarrow> engine_tables \<Rightarrow> bool" where
  "tables_of G sv P ks pk E \<longleftrightarrow> (let n = length (parser P) in
     yylhs E = shorts (sv ! start_symbol G # map (\<lambda>r. sv ! (rlhs G ! r)) [3..<nrules G]) \<and>
     yylen E = shorts (2 # map (\<lambda>r. int (rrhs G ! Suc r) - int (rrhs G ! r) - 1) [3..<nrules G]) \<and>
     yydefred E = shorts (map (\<lambda>d. if d \<noteq> 0 then int d - 2 else 0) (defred P)) \<and> yydgoto E = shorts (map int ks) \<and>
     yysindex E = shorts (take n (base pk)) \<and> yyrindex E = shorts (take n (drop n (base pk))) \<and>
     yygindex E = shorts (take (length ks) (drop (2 * n) (base pk))) \<and>
     yytablesize E = int (high pk) \<and> yytable E = shorts (take (Suc (high pk)) (table pk)) \<and> yycheck E = shorts (take (Suc (high pk)) (check pk)))"

lemma nth_upt_take: "a + c \<le> length xs \<Longrightarrow> map ((!) xs) [a..<a + c] = take c (drop a xs)"
  by (rule nth_equalityI) simp_all

lemma first_rest:
  assumes "0 < c" "a + c \<le> length xs"
  shows "rd xs a = Some (xs ! a)" "rds xs [Suc a..<a + c] = Some (map ((!) xs) [Suc a..<a + c])"
    "xs ! a # map ((!) xs) [Suc a..<a + c] = take c (drop a xs)"
proof -
  show "rd xs a = Some (xs ! a)" using assms by (simp add: rd_def)
  show "rds xs [Suc a..<a + c] = Some (map ((!) xs) [Suc a..<a + c])" using assms by (intro rds_Some) auto
  have "[a..<a + c] = a # [Suc a..<a + c]" using assms(1) by (simp add: upt_conv_Cons)
  then show "xs ! a # map ((!) xs) [Suc a..<a + c] = take c (drop a xs)" using nth_upt_take [OF assms(2)] by simp
qed

lemma read_tables_ok:
  assumes G: "wf_grammar G" "length sv = nsyms G" "ntokens G \<le> length tt" "ntokens G \<le> length tg"
    and P: "length (defred P) = n" "length (parser P) = n" "0 < n"
    and ks: "length ks = nvars G - 1" "1 < nvars G"
    and pk: "length (base pk) = 2 * n + nvars G" "high pk < length (table pk)" "length (check pk) = length (table pk)"
  shows "\<exists>E. read_tables G sv P tt tg ks pk = Some E \<and> tables_of G sv P ks pk E"
proof -
  note wf = wf_grammarD [OF G(1)]
  have transl: "\<exists>cs bs. output_transl G sv tt tg = Some (cs, bs)"
  proof -
    have "rds sv [0..<ntokens G] = Some (map ((!) sv) [0..<ntokens G])" "rds tt [0..<ntokens G] = Some (map ((!) tt) [0..<ntokens G])"
      "rds tg [0..<ntokens G] = Some (map ((!) tg) [0..<ntokens G])" using G wf(1) by (intro rds_Some; auto)+
    then show ?thesis by (simp add: output_transl_def)
  qed
  have lhs: "x < nsyms G" if "x \<in> set (map ((!) (rlhs G)) [3..<nrules G])" for x
    using that wf(16) wf(1) by (auto simp: wf_rule_def ISVAR_def)
  let ?l = "map (\<lambda>r. sv ! (rlhs G ! r)) [3..<nrules G]" and ?m = "map (\<lambda>r. int (rrhs G ! Suc r) - int (rrhs G ! r) - 1) [3..<nrules G]"
  have rules: "output_rule_data G sv = Some (output_body (sv ! start_symbol G) ?l, output_body 2 ?m)"
  proof -
    let ?ls = "map ((!) (rlhs G)) [3..<nrules G]"
    have "rd sv (start_symbol G) = Some (sv ! start_symbol G)" using wf(1,2,4) G(2) by (simp add: rd_Some)
    moreover have "rds (rlhs G) [3..<nrules G] = Some ?ls" "rds (rrhs G) (map Suc [3..<nrules G]) = Some (map ((!) (rrhs G)) (map Suc [3..<nrules G]))"
      "rds (rrhs G) [3..<nrules G] = Some (map ((!) (rrhs G)) [3..<nrules G])" using wf(7,8) by (intro rds_Some; auto)+
    moreover have "rds sv ?ls = Some (map ((!) sv) ?ls)" by (rule rds_Some) (use lhs G(2) in auto)
    ultimately show ?thesis by (simp add: output_rule_data_def zip_map_map zip_same_conv_map comp_def)
  qed
  have dr: "output_yydefred n (defred P) = Some (output_body (if defred P ! 0 \<noteq> 0 then int (defred P ! 0) - 2 else 0)
      (map (\<lambda>d. if d \<noteq> 0 then int d - 2 else 0) (map ((!) (defred P)) [1..<n])))"
    using first_rest [of n 0 "defred P"] P by (simp add: output_yydefred_def)
  have dr': "defred P ! 0 # map ((!) (defred P)) [1..<n] = defred P" using first_rest(3) [of n 0 "defred P"] P by simp
  obtain k ks' where k: "ks = k # ks'" using ks by (cases ks) auto
  have b: "output_base n (2 * n + nvars G) (base pk) = Some (output_body (base pk ! 0) (map ((!) (base pk)) [Suc 0..<n]),
      output_body (base pk ! n) (map ((!) (base pk)) [Suc n..<2 * n]),
      output_body (base pk ! (2 * n)) (map ((!) (base pk)) [Suc (2 * n)..<2 * n + nvars G - 1]))"
    using first_rest [of n 0 "base pk"] first_rest [of n n "base pk"] first_rest [of "nvars G - 1" "2 * n" "base pk"] P ks pk
    by (simp add: output_base_def mult_2)
  have b': "base pk ! 0 # map ((!) (base pk)) [Suc 0..<n] = take n (base pk)" "base pk ! n # map ((!) (base pk)) [Suc n..<2 * n] = take n (drop n (base pk))"
    "base pk ! (2 * n) # map ((!) (base pk)) [Suc (2 * n)..<2 * n + nvars G - 1] = take (nvars G - 1) (drop (2 * n) (base pk))"
    using first_rest(3) [of n 0 "base pk"] first_rest(3) [of n n "base pk"] first_rest(3) [of "nvars G - 1" "2 * n" "base pk"] P ks pk
    by (simp_all add: mult_2)
  have t: "output_table pk = Some (int (high pk), output_body (table pk ! 0) (map ((!) (table pk)) [Suc 0..<Suc (high pk)]))"
    "output_check pk = Some (output_body (check pk ! 0) (map ((!) (check pk)) [Suc 0..<Suc (high pk)]))"
    using first_rest [of "Suc (high pk)" 0 "table pk"] first_rest [of "Suc (high pk)" 0 "check pk"] pk
    by (simp_all add: output_table_def output_check_def)
  have t': "table pk ! 0 # map ((!) (table pk)) [Suc 0..<Suc (high pk)] = take (Suc (high pk)) (table pk)"
    "check pk ! 0 # map ((!) (check pk)) [Suc 0..<Suc (high pk)] = take (Suc (high pk)) (check pk)"
    using first_rest(3) [of "Suc (high pk)" 0 "table pk"] first_rest(3) [of "Suc (high pk)" 0 "check pk"] pk by simp_all
  obtain cs bs where parts: "output_transl G sv tt tg = Some (cs, bs)" using transl by blast
  have defr: "(if defred P ! 0 \<noteq> 0 then int (defred P ! 0) - 2 else 0) # map (\<lambda>d. if d \<noteq> 0 then int d - 2 else 0) (map ((!) (defred P)) [1..<n]) =
      map (\<lambda>d. if d \<noteq> 0 then int d - 2 else 0) (defred P)"
    using arg_cong [OF dr', of "map (\<lambda>d. if d \<noteq> 0 then int d - 2 else (0::int))"] by (simp only: list.map)
  have "read_tables G sv P tt tg ks pk = Some \<lparr>yytransl_const = cs, yytransl_block = bs, yylhs = shorts ((sv ! start_symbol G) # ?l),
      yylen = shorts (2 # ?m), yydefred = shorts (map (\<lambda>d. if d \<noteq> 0 then int d - 2 else 0) (defred P)), yydgoto = shorts (map int ks),
      yysindex = shorts (take n (base pk)), yyrindex = shorts (take n (drop n (base pk))),
      yygindex = shorts (take (nvars G - 1) (drop (2 * n) (base pk))), yytablesize = int (high pk),
      yytable = shorts (take (Suc (high pk)) (table pk)), yycheck = shorts (take (Suc (high pk)) (check pk))\<rparr>"
    unfolding read_tables_def P(2) Let_def parts rules dr b t k output_yydgoto_def list.case
    by (simp only: Option.bind.bind_lunit split_conv ocaml_string_body defr b' t' list.map)
  then show ?thesis using P(2) ks(1) by (auto simp: tables_of_def)
qed

section \<open>Lookups by the engine\<close>

text \<open>What packing gives: vectors the packer accepts, in a table, with the vectors in order.\<close>

definition packing :: "vectors \<Rightarrow> nat \<Rightarrow> nat list \<Rightarrow> pack \<Rightarrow> bool" where
  "packing V nv ord pk \<longleftrightarrow> sizes_ok nv V \<and> (\<forall>v < nv. vector_ok V v) \<and> packed V nv ord pk \<and> (\<forall>v. v \<in> set ord \<longleftrightarrow> v < nv \<and> 0 < tally V ! v)"

lemma packingD:
  assumes "packing V nv ord pk"
  shows "wf_vectors nv V" "v < nv \<Longrightarrow> vector_ok V v" "packed V nv ord pk" "v \<in> set ord \<longleftrightarrow> v < nv \<and> 0 < tally V ! v"
  using assms wf_vectorsI unfolding packing_def by blast+

lemma base_range:
  assumes pk: "packing V nv ord pk" and v: "v < nv"
  shows "- 32768 \<le> base pk ! v \<and> base pk ! v < 32768"
proof (cases "v \<in> set ord")
  case True
  note P = packingD(3) [OF pk] and wf = packingD(1) [OF pk]
  have t: "0 < tally V ! v" using True packingD(4) [OF pk] by blast
  have "0 \<le> base pk ! v + froms V ! v ! 0" "base pk ! v + froms V ! v ! 0 \<le> int (high pk)"
    using packedD(3) [OF P True] t unfolding placed_at_def by blast+
  then show ?thesis using wf_vectorsD(8) [OF wf v t] pack_sizesD(2,3) [OF packedD(1) [OF P]] by (simp add: MAXSHORT_def MAXTABLE_def)
next
  case False
  then show ?thesis using packedD(6) [OF packingD(3) [OF pk] v] by simp
qed

lemma check_range:
  assumes pk: "packing V nv ord pk" and l: "l < length (check pk)"
  shows "- 1 \<le> check pk ! l \<and> check pk ! l < 32768"
proof (cases "check pk ! l = - 1")
  case False
  obtain v where v: "v \<in> set ord" "check pk ! l \<in> set (froms V ! v)" using packedD(4) [OF packingD(3) [OF pk] l False] by blast
  then have "vector_ok V v" using packingD(2,4) [OF pk] by blast
  with v(2) show ?thesis by (auto simp: vector_ok_def MAXSHORT_def)
qed simp

lemma entry_range:
  assumes pk: "packing V nv ord pk" and v: "v < nv" and e: "vector_entry V v c = Some t"
  shows "0 \<le> t \<and> t < 32768"
proof -
  have "t \<in> set (tos V ! v)" using e unfolding vector_entry_def by (metis map_of_SomeD set_zip_rightD)
  with packingD(2) [OF pk v] show ?thesis by (auto simp: vector_ok_def MAXSHORT_def)
qed

lemma engine_lookup:
  assumes pk: "packing V nv ord pk" and v: "v < nv" and c: "0 \<le> c"
    and E: "yytablesize E = int (high pk)" "yytable E = shorts (take (Suc (high pk)) (table pk))" "yycheck E = shorts (take (Suc (high pk)) (check pk))"
  shows "vector_entry V v c = None \<Longrightarrow> packed_index E (base pk ! v) c = Some None"
    and "vector_entry V v c = Some t \<Longrightarrow> \<exists>i. packed_index E (base pk ! v) c = Some (Some i) \<and> Short (yytable E) i = Some t"
proof -
  note sz = pack_sizesD [OF packedD(1) [OF packingD(3) [OF pk]]]
  let ?b = "base pk ! v"
  have look: "packed_entry pk ?b c = vector_entry V v c"
    using packed_lookup [OF packingD(1,3) [OF pk] packingD(4) [OF pk] v c] .
  have chk: "Short (yycheck E) (?b + c) = Some (check pk ! nat (?b + c))" if "0 \<le> ?b + c" "?b + c \<le> int (high pk)"
  proof -
    have l: "nat (?b + c) < Suc (high pk)" "nat (?b + c) < length (check pk)" using that sz(1,2) by auto
    then show ?thesis unfolding E(3) using that(1) check_range [OF pk l(2)] by (subst Short_shorts) auto
  qed
  show "packed_index E ?b c = Some None" if "vector_entry V v c = None"
    using that look chk unfolding packed_index_def packed_entry_def E(1) Let_def by (auto split: if_splits)
  show "\<exists>i. packed_index E ?b c = Some (Some i) \<and> Short (yytable E) i = Some t" if e: "vector_entry V v c = Some t"
  proof -
    have b: "?b \<noteq> 0" "0 \<le> ?b + c" "?b + c \<le> int (high pk)" "check pk ! nat (?b + c) = c" "table pk ! nat (?b + c) = t"
      using look e by (auto simp: packed_entry_def split: if_splits)
    have l: "nat (?b + c) < Suc (high pk)" "nat (?b + c) < length (table pk)" using b sz(2) by auto
    then have "Short (yytable E) (?b + c) = Some t"
      unfolding E(2) using b(2,5) entry_range [OF pk v e] by (subst Short_shorts) auto
    moreover have "packed_index E ?b c = Some (Some (?b + c))"
      using b(1-4) chk by (simp add: packed_index_def Let_def E(1))
    ultimately show ?thesis by blast
  qed
qed

text \<open>
  What the engine does in a state on a look-ahead token (the labels \<open>loop\<close> and \<open>testshift\<close>), and the move that
  the row of the state asks for. A default reduction other than the one by the first rule comes before everything else.
\<close>

datatype move = Shift_to int | Reduce_by int | No_move

definition engine_action :: "engine_tables \<Rightarrow> int \<Rightarrow> int \<Rightarrow> move option" where
  "engine_action E q c = do {
     n \<leftarrow> Short (yydefred E) q;
     if n \<noteq> 0 then Some (Reduce_by n)
     else do {
       n1 \<leftarrow> Short (yysindex E) q;
       i \<leftarrow> packed_index E n1 c;
       case i of
         Some n2 \<Rightarrow> do { s \<leftarrow> Short (yytable E) n2; Some (Shift_to s) }
       | None \<Rightarrow> do {
           n1 \<leftarrow> Short (yyrindex E) q;
           i \<leftarrow> packed_index E n1 c;
           case i of
             Some n2 \<Rightarrow> do { n \<leftarrow> Short (yytable E) n2; Some (Reduce_by n) }
           | None \<Rightarrow> Some No_move } } }"

definition row_move :: "parser_tables \<Rightarrow> nat \<Rightarrow> nat \<Rightarrow> move" where
  "row_move P i j = (let r = parser P ! i; d = defred P ! i in
     if d \<noteq> 0 \<and> d \<noteq> 2 then Reduce_by (int d - 2)
     else case live_entry is_shift r j of Some k \<Rightarrow> Shift_to (int k)
     | None \<Rightarrow> (case live_entry (is_reduce d) r j of Some m \<Rightarrow> Reduce_by (int m - 2) | None \<Rightarrow> No_move))"

lemma Short_nth:
  assumes "i < length xs" "- 32768 \<le> xs ! i" "xs ! i < 32768"
  shows "Short (shorts xs) (int i) = Some (xs ! i)"
  using Short_shorts [of "int i" xs] assms by simp

lemma generated_action:
  assumes pk: "packing V nv ord pk" and E: "tables_of G sv P ks pk E" and n: "n = length (parser P)" "2 * n \<le> nv" "length (defred P) = n"
    and i: "i < n" and j: "j < ntokens G" "0 \<le> sv ! j" and d: "defred P ! i \<le> MAXSHORT"
    and sh: "part_vector G sv is_shift 0 (parser P ! i) V i" and re: "part_vector G sv (is_reduce (defred P ! i)) 2 (parser P ! i) V (n + i)"
  shows "engine_action E (int i) (sv ! j) = Some (row_move P i j)"
proof -
  note sz = pack_sizesD [OF packedD(1) [OF packingD(3) [OF pk]]]
  have T: "yydefred E = shorts (map (\<lambda>d. if d \<noteq> 0 then int d - 2 else 0) (defred P))" "yysindex E = shorts (take n (base pk))"
    "yyrindex E = shorts (take n (drop n (base pk)))" "yytablesize E = int (high pk)" "yytable E = shorts (take (Suc (high pk)) (table pk))"
    "yycheck E = shorts (take (Suc (high pk)) (check pk))" using E n(1) by (simp_all add: tables_of_def Let_def)
  have v: "i < nv" "n + i < nv" using i n(2) by simp_all
  have dr: "Short (yydefred E) (int i) = Some (if defred P ! i \<noteq> 0 then int (defred P ! i) - 2 else 0)"
    unfolding T(1) using i n(3) d by (subst Short_nth) (auto simp: MAXSHORT_def)
  have s: "Short (yysindex E) (int i) = Some (base pk ! i)"
    unfolding T(2) using i v sz(5) base_range [OF pk v(1)] by (subst Short_nth) auto
  have r: "Short (yyrindex E) (int i) = Some (base pk ! (n + i))"
    unfolding T(3) using i n(2) sz(5) base_range [OF pk v(2)] by (subst Short_nth) auto
  have es: "vector_entry V i (sv ! j) = map_option int (live_entry is_shift (parser P ! i) j)"
    and er: "vector_entry V (n + i) (sv ! j) = map_option (\<lambda>m. int m - 2) (live_entry (is_reduce (defred P ! i)) (parser P ! i) j)"
    using sh re j(1) by (simp_all add: part_vector_def)
  note ls = engine_lookup [OF pk v(1) j(2) T(4-6)] and lr = engine_lookup [OF pk v(2) j(2) T(4-6)]
  show ?thesis
  proof (cases "defred P ! i \<noteq> 0 \<and> defred P ! i \<noteq> 2")
    case True
    then show ?thesis by (simp add: engine_action_def dr row_move_def Let_def)
  next
    case False
    then have dr0: "Short (yydefred E) (int i) = Some 0" using dr by auto
    show ?thesis
    proof (cases "live_entry is_shift (parser P ! i) j")
      case (Some k)
      with es ls(2) obtain x where "packed_index E (base pk ! i) (sv ! j) = Some (Some x)" "Short (yytable E) x = Some (int k)" by auto
      then show ?thesis using False Some by (auto simp: engine_action_def dr0 s row_move_def Let_def)
    next
      case None
      with es ls(1) have s0: "packed_index E (base pk ! i) (sv ! j) = Some None" by simp
      show ?thesis
      proof (cases "live_entry (is_reduce (defred P ! i)) (parser P ! i) j")
        case (Some m)
        with er lr(2) obtain x where "packed_index E (base pk ! (n + i)) (sv ! j) = Some (Some x)" "Short (yytable E) x = Some (int m - 2)" by auto
        then show ?thesis using False Some None by (auto simp: engine_action_def dr0 s s0 r row_move_def Let_def)
      next
        case None': None
        with er lr(1) have "packed_index E (base pk ! (n + i)) (sv ! j) = Some None" by simp
        then show ?thesis using False None None' by (auto simp: engine_action_def dr0 s s0 r row_move_def Let_def)
      qed
    qed
  qed
qed

lemma generated_goto:
  assumes pk: "packing V nv ord pk" and E: "tables_of G sv P ks pk E" and n: "n = length (parser P)" "2 * n + length ks \<le> nv"
    and w: "w < length ks" "ks ! w \<le> MAXSHORT" and col: "column_entries T m e V (2 * n + w) (ks ! w)" and i: "m \<le> i" "i < e"
  shows "engine_goto E (int w) (int (from_state T ! i)) = Some (int (to_state T ! i))"
proof -
  note sz = pack_sizesD [OF packedD(1) [OF packingD(3) [OF pk]]]
  have tb: "yydgoto E = shorts (map int ks)" "yygindex E = shorts (take (length ks) (drop (2 * n) (base pk)))"
    "yytablesize E = int (high pk)" "yytable E = shorts (take (Suc (high pk)) (table pk))"
    "yycheck E = shorts (take (Suc (high pk)) (check pk))" using E n(1) by (simp_all add: tables_of_def Let_def)
  have v: "2 * n + w < nv" using w n(2) by simp
  have g: "Short (yygindex E) (int w) = Some (base pk ! (2 * n + w))"
    unfolding tb(2) using w v sz(5) n(2) base_range [OF pk v] by (subst Short_nth) auto
  have dg: "Short (yydgoto E) (int w) = Some (int (ks ! w))"
    unfolding tb(1) using w by (subst Short_nth) (auto simp: MAXSHORT_def)
  have e: "(case vector_entry V (2 * n + w) (int (from_state T ! i)) of Some t \<Rightarrow> t | None \<Rightarrow> int (ks ! w)) = int (to_state T ! i)"
    using col i by (simp add: column_entries_def)
  have c0: "0 \<le> int (from_state T ! i)" by simp
  note look = engine_lookup [OF pk v c0 tb(3-5)]
  show ?thesis
  proof (cases "vector_entry V (2 * n + w) (int (from_state T ! i))")
    case None
    with look(1) e dg show ?thesis by (simp add: engine_goto_def g)
  next
    case (Some t)
    from look(2) [OF Some] obtain x where "packed_index E (base pk ! (2 * n + w)) (int (from_state T ! i)) = Some (Some x)" "Short (yytable E) x = Some t" by blast
    with Some e show ?thesis by (simp add: engine_goto_def g)
  qed
qed

section \<open>From make\_parser to the engine\<close>

definition generated :: "grammar \<Rightarrow> int list \<Rightarrow> parser_tables \<Rightarrow> gotos \<Rightarrow> nat list \<Rightarrow> pack \<Rightarrow> bool" where
  "generated G sv P T ks pk \<longleftrightarrow> (let n = length (parser P); nv = 2 * n + nvars G in \<exists>V ord. packing V nv ord pk \<and>
     (\<forall>i < n. part_vector G sv is_shift 0 (parser P ! i) V i \<and> part_vector G sv (is_reduce (defred P ! i)) 2 (parser P ! i) V (n + i)) \<and>
     columns_done n T nv V (nvars G - 1) (ks, V))"

lemma output_actions_ok:
  assumes G: "wf_grammar G" "values_ok G sv" "1 < nvars G" and P: "rows_ok G P" and n: "n = length (parser P)" "0 < n" "n \<le> MAXSHORT"
    and T: "wf_gotos G n T"
  shows "wpE (output_actions G sv P T) (\<lambda>(ks, pk). generated G sv P T ks pk) (\<lambda>_. True)"
proof -
  let ?nv = "2 * n + nvars G"
  note wf = wf_grammarD(1,2) [OF G(1)]
  have nt: "ntokens G \<le> nsyms G" using wf by simp
  have V0: "sizes_ok ?nv (no_vectors ?nv)" "\<And>v. v < ?nv \<Longrightarrow> vector_unset (no_vectors ?nv) v"
    by (simp_all add: no_vectors_def sizes_ok_def vector_unset_def)
  obtain V1 where V1: "token_actions G sv P (no_vectors ?nv) = Some V1" "tokens_done G sv P ?nv n V1"
    using token_actions_ok [OF G(2) nt P n(1) V0] by (auto simp: wp_def)
  have sz1: "sizes_ok ?nv V1" and pv1: "\<And>i. i < n \<Longrightarrow> part_vector G sv is_shift 0 (parser P ! i) V1 i \<and>
      part_vector G sv (is_reduce (defred P ! i)) 2 (parser P ! i) V1 (n + i)"
    and un1: "\<And>v. 2 * n \<le> v \<Longrightarrow> v < ?nv \<Longrightarrow> vector_unset V1 v"
    using V1(2) unfolding tokens_done_def n(1) Let_def by blast+
  obtain ks V2 where V2: "goto_actions G n T sv V1 = Some (ks, V2)" "columns_done n T ?nv V1 (nvars G - 1) (ks, V2)"
    using goto_actions_ok [OF wf(2,1) G(2) T n(2,3) refl G(3) sz1 un1] by (auto simp: wp_def)
  have sz2: "sizes_ok ?nv V2" and low: "\<And>v. v < 2 * n \<Longrightarrow> vector_ok V2 v = vector_ok V1 v \<and> vector_entry V2 v = vector_entry V1 v"
    and col: "\<And>w. w < nvars G - 1 \<Longrightarrow> vector_ok V2 (2 * n + w)" and un2: "\<And>w. nvars G - 1 \<le> w \<Longrightarrow> 2 * n + w < ?nv \<Longrightarrow> vector_unset V2 (2 * n + w)"
    and self: "columns_done n T ?nv V2 (nvars G - 1) (ks, V2)"
    using V2(2) unfolding columns_done_def column_entries_def by auto
  have pv2: "part_vector G sv is_shift 0 (parser P ! i) V2 i \<and> part_vector G sv (is_reduce (defred P ! i)) 2 (parser P ! i) V2 (n + i)" if "i < n" for i
    using pv1 [OF that] low [of i] low [of "n + i"] that by (simp add: part_vector_def)
  have ok: "vector_ok V2 v" if v: "v < ?nv" for v
  proof -
    consider (s) "v < n" | (r) k where "v = n + k" "k < n" | (c) w where "v = 2 * n + w" "w < nvars G - 1" | (l) w where "v = 2 * n + w" "nvars G - 1 \<le> w"
    proof (cases "v < 2 * n")
      case True
      then show thesis using that(1) that(2) [of "v - n"] by (cases "v < n") auto
    next
      case False
      then show thesis using that(3) [of "v - 2 * n"] that(4) [of "v - 2 * n"] by (cases "v - 2 * n < nvars G - 1") auto
    qed
    then show ?thesis using pv2 col un2 vector_unset_ok v by cases (auto simp: part_vector_def)
  qed
  have wfv: "wf_vectors ?nv V2" by (rule wf_vectorsI [OF sz2 ok])
  obtain ord where ord: "sort_actions ?nv V2 = Some ord" "distinct ord" "\<And>v. v \<in> set ord \<longleftrightarrow> v < ?nv \<and> 0 < tally V2 ! v"
    using sort_actions_ok [OF wfv] by (auto simp: wp_def)
  have gen: "generated G sv P T ks pk" if "packed V2 ?nv ord pk" for pk
    unfolding generated_def n(1) [symmetric] Let_def packing_def using that sz2 ok ord(3) pv2 self by blast
  have "wpE (pack_table n ?nv V2 ord) (\<lambda>pk. packed V2 ?nv ord pk) (\<lambda>_. True)" by (rule pack_table_packed [OF wfv ord(2,3)])
  then have "wpE (pack_table n ?nv V2 ord) (generated G sv P T ks) (\<lambda>_. True)" by (rule wpE_mono) (auto intro: gen)
  then show ?thesis
    unfolding output_actions_def n(1) [symmetric] Let_def by (simp add: V1(1) V2(1) ord(1) bindE_liftE wpE_simps)
qed

definition shift_targets_ok :: "tables \<Rightarrow> bool" where
  "shift_targets_ok Tb \<longleftrightarrow> (\<forall>p k. Some p \<in> set (shift_table Tb) \<and> k \<in> set (shift p) \<longrightarrow> 0 < k \<and> k \<le> MAXSHORT)"

lemma state_actions_range:
  assumes G: "wf_grammar G" and T: "wf_tables G Tb" and i: "i < length (shift_table Tb)"
    and targets: "shift_targets_ok Tb"
    and a: "a \<in># state_actions G Tb i"
  shows "symbol a < ntokens G" "0 < act_number a" "act_number a \<le> MAXSHORT" "code a = REDUCE \<Longrightarrow> 2 \<le> act_number a"
proof -
  note wf = wf_grammarD(1,2,13) [OF G]
  have la: "k < length (LAruleno Tb)" if "k < lookaheads Tb ! Suc i" for k
  proof -
    have "sorted (lookaheads Tb)" "length (lookaheads Tb) = Suc (length (shift_table Tb))" "last (lookaheads Tb) = length (LAruleno Tb)"
      using T by (simp_all add: wf_tables_def)
    moreover from this have "lookaheads Tb ! Suc i \<le> last (lookaheads Tb)"
      using i by (subst last_conv_nth) (auto simp: sorted_iff_nth_mono)
    ultimately show ?thesis using that by simp
  qed
  from a have "a \<in> set (shift_actions G Tb i) \<or> a \<in> set (reduce_actions G Tb (lookaheads Tb ! i) (lookaheads Tb ! Suc i))"
    by (simp add: state_actions_def)
  then show "symbol a < ntokens G" "0 < act_number a" "act_number a \<le> MAXSHORT" "code a = REDUCE \<Longrightarrow> 2 \<le> act_number a"
  proof (atomize (full), elim disjE)
    assume "a \<in> set (shift_actions G Tb i)"
    then obtain p k where p: "shift_table Tb ! i = Some p" "k \<in> set (shift p)" "ISTOKEN G (int (accessing Tb ! k))" "a = shift_action Tb k"
      by (cases "shift_table Tb ! i") (auto simp: shift_actions_def)
    then have "Some p \<in> set (shift_table Tb)" using i by (metis nth_mem)
    then have "0 < k \<and> k \<le> MAXSHORT" using targets p(2) unfolding shift_targets_ok_def by blast
    with p(2-4) wf(2) show "(symbol a < ntokens G \<and> 0 < act_number a) \<and> act_number a \<le> MAXSHORT \<and> (code a = REDUCE \<longrightarrow> 2 \<le> act_number a)"
      by (auto simp: shift_action_def Let_def ISTOKEN_def)
  next
    assume "a \<in> set (reduce_actions G Tb (lookaheads Tb ! i) (lookaheads Tb ! Suc i))"
    then obtain k j where k: "k < lookaheads Tb ! Suc i" "j < ntokens G" "a = reduce_action Tb (LAruleno Tb ! k) j"
      by (auto simp: reduce_actions_def la_tokens_def)
    from wf_tablesD(3) [OF T la [OF k(1)]] wf(3) k(2,3)
    show "(symbol a < ntokens G \<and> 0 < act_number a) \<and> act_number a \<le> MAXSHORT \<and> (code a = REDUCE \<longrightarrow> 2 \<le> act_number a)"
      by (simp add: reduce_action_def MAXSHORT_def)
  qed
qed

lemma distinct_live:
  assumes "\<forall>j k. j < length r \<and> k < length r \<and> live (r ! j) \<and> live (r ! k) \<and> symbol (r ! j) = symbol (r ! k) \<longrightarrow> j = k"
  shows "distinct (map symbol (filter live r))"
  using assms
proof (induction r)
  case (Cons a r)
  have "\<forall>j k. j < length r \<and> k < length r \<and> live (r ! j) \<and> live (r ! k) \<and> symbol (r ! j) = symbol (r ! k) \<longrightarrow> j = k"
  proof (intro allI impI)
    fix j k assume "j < length r \<and> k < length r \<and> live (r ! j) \<and> live (r ! k) \<and> symbol (r ! j) = symbol (r ! k)"
    with Cons.prems [rule_format, of "Suc j" "Suc k"] show "j = k" by simp
  qed
  moreover have "symbol a \<noteq> symbol b" if b: "live a" "b \<in> set r" "live b" for b
  proof
    assume eq: "symbol a = symbol b"
    obtain k where "k < length r" "r ! k = b" using b(2) by (auto simp: in_set_conv_nth)
    with Cons.prems [rule_format, of 0 "Suc k"] b eq show False by simp
  qed
  ultimately show ?case using Cons.IH by auto
qed simp

lemma make_parser_rows:
  assumes G: "wf_grammar G" and T: "wf_tables G Tb" and first: "shift_table Tb ! 0 = Some p" "shift_table Tb \<noteq> []"
    and targets: "shift_targets_ok Tb"
  obtains P where "make_parser G Tb = Some P" "length (parser P) = length (shift_table Tb)" "rows_ok G P" "\<And>d. d \<in> set (defred P) \<Longrightarrow> d \<le> MAXSHORT"
proof -
  have "1 < length (ritem G)" using wf_grammarD(6,9,10) [OF G] wf_grammarD(16) [OF G, of 2] wf_grammarD(5) [OF G] by (auto simp: wf_rule_def)
  from make_parser_ok [OF T first this] obtain P where P: "make_parser G Tb = Some P" "length (parser P) = length (shift_table Tb)"
    and ok: "\<And>i. i < length (shift_table Tb) \<Longrightarrow> state_ok G Tb P i" by (auto simp: lessThan_iff)
  have dr: "defred P = map (\<lambda>r. sole_scan r 0 0) (parser P)"
    using P(1) by (auto simp: make_parser_def Let_def defreds_ok split: Option.bind_splits prod.splits)
  have rng: "symbol a < ntokens G" "0 < act_number a" "act_number a \<le> MAXSHORT" "code a = REDUCE \<Longrightarrow> 2 \<le> act_number a"
    if i: "i < length (shift_table Tb)" and a: "a \<in> set (parser P ! i)" for i a
  proof -
    have "image_mset (\<lambda>a. a\<lparr>suppressed := 0\<rparr>) (mset (parser P ! i)) = state_actions G Tb i" using ok [OF i] by (simp add: state_ok_def Let_def)
    moreover have "a\<lparr>suppressed := 0\<rparr> \<in># image_mset (\<lambda>a. a\<lparr>suppressed := 0\<rparr>) (mset (parser P ! i))" using a by auto
    ultimately have "a\<lparr>suppressed := 0\<rparr> \<in># state_actions G Tb i" by simp
    from state_actions_range [OF G T i targets this] show "symbol a < ntokens G" "0 < act_number a" "act_number a \<le> MAXSHORT"
      "code a = REDUCE \<Longrightarrow> 2 \<le> act_number a" by simp_all
  qed
  have "row_ok G r \<and> (\<forall>a \<in> set r. code a = REDUCE \<longrightarrow> 2 \<le> act_number a)" if "r \<in> set (parser P)" for r
  proof -
    obtain i where i: "i < length (shift_table Tb)" "r = parser P ! i" using \<open>r \<in> set (parser P)\<close> P(2) by (auto simp: in_set_conv_nth)
    have "distinct (map symbol (filter live r))" using ok [OF i(1)] by (intro distinct_live) (simp add: state_ok_def Let_def i(2))
    then show ?thesis using rng [OF i(1)] by (auto simp: row_ok_def i(2))
  qed
  then have rows: "rows_ok G P" by (simp add: rows_ok_def dr)
  have "d \<le> MAXSHORT" if "d \<in> set (defred P)" for d
  proof (cases "d = 0")
    case False
    obtain i where i: "i < length (shift_table Tb)" "defred P ! i = d" using \<open>d \<in> set (defred P)\<close> P(2) by (auto simp: in_set_conv_nth dr)
    then have "sole_reduces (parser P ! i) d" using ok [OF i(1)] False by (auto simp: state_ok_def Let_def)
    then obtain a where "a \<in> set (parser P ! i)" "act_number a = d" by (auto simp: sole_reduces_def)
    with rng(3) [OF i(1)] show ?thesis by blast
  qed simp
  with that P rows show thesis by blast
qed


definition sample_values :: "int list" where
  "sample_values = [0, 256, 257, 258, - 1, 0, 1]"

definition sample_gotos :: gotos where
  "sample_gotos = \<lparr>goto_map = [0, 0, 1, 1], from_state = [0], to_state = [1]\<rparr>"


section \<open>The engine makes the moves\<close>

text \<open>
  C12. The parser engine follows the moves of its tables. From the label \<open>loop\<close> with a look-ahead token and room on the stacks:
  on a shift it comes back to \<open>loop\<close> in the new state, with the token consumed and the state, the semantic value and the
  positions pushed; on a reduction it goes on with that rule, nothing else changed; and when there is no move it calls
  the error function, or recovers if an error was reported less than three shifts ago.
\<close>

theorem parse_engine_follows_action:
  assumes "engine_action E (rstate r) (curr_char env) = Some mv" "0 \<le> curr_char env" "rsp r + 1 < stacksize env"
    "length (s_stack env) = stacksize env" "length (v_stack env) = stacksize env"
    "length (symb_start_stack env) = stacksize env" "length (symb_end_stack env) = stacksize env"
  shows "case mv of
      Shift_to s \<Rightarrow> iterE 5 (pda_step E) (Loop, r, env) = Some (Inr (Loop, \<lparr>rstate = s, rsp = rsp r + 1, rerrflag = rerrflag r - 1\<rparr>,
        env\<lparr>curr_char := - 1, s_stack := (s_stack env)[rsp r + 1 := s], v_stack := (v_stack env)[rsp r + 1 := lval env],
          symb_start_stack := (symb_start_stack env)[rsp r + 1 := symb_start env], symb_end_stack := (symb_end_stack env)[rsp r + 1 := symb_end env]\<rparr>))
    | Reduce_by n \<Rightarrow> iterE 1 (pda_step E) (Loop, r, env) = Some (Inr (Reduce n, r, env)) \<or>
        iterE 2 (pda_step E) (Loop, r, env) = Some (Inr (Reduce n, r, env))
    | No_move \<Rightarrow> iterE 2 (pda_step E) (Loop, r, env) = Some (if rerrflag r = 0 then Inl (CALL_ERROR_FUNCTION, SAVE r env) else Inr (Recover, r, env))"
proof -
  obtain n where n: "Short (yydefred E) (rstate r) = Some n" using assms(1) by (auto simp: engine_action_def split: Option.bind_splits)
  show ?thesis
  proof (cases "n = 0")
    case False
    then have "mv = Reduce_by n" using assms(1) n by (simp add: engine_action_def)
    moreover have "pda_step E (Loop, r, env) = Some (Inr (Reduce n, r, env))" using False n by (simp add: pda_step_def do_loop_def bindE_eval returnE_def)
    ultimately show ?thesis by (simp add: bindE_eval returnE_def)
  next
    case True
    have s1: "pda_step E (Loop, r, env) = Some (Inr (Testshift, r, env))"
      using True n assms(2) by (simp add: pda_step_def do_loop_def bindE_eval returnE_def)
    obtain n1 i where n1: "Short (yysindex E) (rstate r) = Some n1" "packed_index E n1 (curr_char env) = Some i"
      using assms(1) n True by (auto simp: engine_action_def split: Option.bind_splits)
    show ?thesis
    proof (cases i)
      case (Some n2)
      then obtain s where s: "Short (yytable E) n2 = Some s" "mv = Shift_to s"
        using assms(1) n n1 True by (auto simp: engine_action_def split: Option.bind_splits)
      have "pda_step E (Testshift, r, env) = Some (Inr (Shift n2, r, env))"
        using n1 Some by (simp add: pda_step_def do_testshift_def bindE_eval returnE_def)
      then show ?thesis using s1 s assms(3-7)
        by (simp add: eval_nat_numeral bindE_eval pda_step_def do_shift_def do_shift_recover_def do_push_def returnE_def liftE_def wr_def)
    next
      case None
      obtain n3 k where n3: "Short (yyrindex E) (rstate r) = Some n3" "packed_index E n3 (curr_char env) = Some k"
        using assms(1) n n1 True None by (auto simp: engine_action_def split: Option.bind_splits)
      show ?thesis
      proof (cases k)
        case (Some n4)
        then obtain m where m: "Short (yytable E) n4 = Some m" "mv = Reduce_by m"
          using assms(1) n n1 n3 True None by (auto simp: engine_action_def split: Option.bind_splits)
        have "pda_step E (Testshift, r, env) = Some (Inr (Reduce m, r, env))"
          using n1 n3 None Some m(1) by (simp add: pda_step_def do_testshift_def bindE_eval returnE_def)
        then show ?thesis using s1 m(2) by (simp add: eval_nat_numeral bindE_eval returnE_def)
      next
        case k: None
        then have "mv = No_move" using assms(1) n n1 n3 True None by (simp add: engine_action_def)
        moreover have "pda_step E (Testshift, r, env) = Some (if rerrflag r = 0 then Inl (CALL_ERROR_FUNCTION, SAVE r env) else Inr (Recover, r, env))"
          using n1 n3 None k by (simp add: pda_step_def do_testshift_def bindE_eval returnE_def throwE_def)
        ultimately show ?thesis using s1 by (simp add: eval_nat_numeral bindE_eval returnE_def)
      qed
    qed
  qed
qed

definition sample_engine :: engine_tables where
  "sample_engine = \<lparr>yytransl_const = [], yytransl_block = [], yylhs = [], yylen = [], yydefred = shorts [0], yydgoto = [],
     yysindex = shorts [- 1], yyrindex = shorts [0], yygindex = [], yytablesize = 1, yytable = shorts [0, 5], yycheck = shorts [- 1, 2]\<rparr>"

definition sample_env :: "(nat, nat) parser_env" where
  "sample_env = \<lparr>s_stack = [0, 0], v_stack = [Val_0, Val_0], symb_start_stack = [0, 0], symb_end_stack = [0, 0], stacksize = 2,
     stackbase = 0, curr_char = 2, lval = Val 7, symb_start = 3, symb_end = 4, env_asp = 0, rule_len = 0, rule_number = 0,
     env_sp = 0, env_state = 0, env_errflag = 0\<rparr>"

theorem parse_engine_follows_action_witness:
  "iterE 5 (pda_step sample_engine) (Loop, \<lparr>rstate = 0, rsp = 0, rerrflag = 0\<rparr>, sample_env) = Some (Inr (Loop,
     \<lparr>rstate = 5, rsp = 1, rerrflag = 0\<rparr>, sample_env\<lparr>curr_char := - 1, s_stack := [0, 5], v_stack := [Val_0, Val 7],
       symb_start_stack := [0, 3], symb_end_stack := [0, 4]\<rparr>))"
proof -
  have "engine_action sample_engine 0 2 = Some (Shift_to 5)" by code_simp
  from parse_engine_follows_action [of sample_engine "\<lparr>rstate = 0, rsp = 0, rerrflag = 0\<rparr>" sample_env "Shift_to 5"] this
  show ?thesis by (simp add: sample_env_def)
qed

end
