(* ===== verification/Machine.thy ===== *)
theory Machine
  imports Prelude
begin

text \<open>
  The state of the bytecode machine (\<^verbatim>\<open>src/runtime/interp.c\<close>, with the layout of values and stacks from
  \<^verbatim>\<open>caml/mlvalues.h\<close> and \<^verbatim>\<open>caml/fiber.h\<close>). An immediate value keeps its 64-bit word, tag bit included; a
  pointer is a block with a field offset (for infix pointers); code pointers and pointers to stacks
  are values of their own, so that using one as another kind of value faults. The stack that \<open>sp\<close>
  points into is a list whose head is \<open>sp[0]\<close>: it is empty when \<open>sp\<close> is at \<open>Stack_high\<close>, and the offset
  of a trap frame from \<open>Stack_high\<close> is minus the number of words below it. Allocation takes a fresh
  block; the garbage collector and signal handlers do not change what the program sees and are left
  out, as is the debugger.
\<close>

unbundle bit_operations_syntax

section \<open>Values\<close>

datatype val = Imm u64 | Ptr nat nat | Atom nat | Code nat | Stk nat

datatype block = Fields nat "val list" | Bytes "u8 list" | Double u64 | Double_array "u64 list"

definition Val_long :: "int \<Rightarrow> val" where
  "Val_long n = Imm (push_bit 1 (word_of_int n) + 1)"

definition Long_val :: "val \<Rightarrow> int option" where
  "Long_val v = (case v of Imm w \<Rightarrow> Some (sint (signed_drop_bit 1 w)) | _ \<Rightarrow> None)"

abbreviation Val_unit :: val where
  "Val_unit \<equiv> Val_long 0"

abbreviation Val_false :: val where
  "Val_false \<equiv> Val_long 0"

definition Val_bool :: "bool \<Rightarrow> val" where
  "Val_bool b = Val_long (if b then 1 else 0)"

definition Closure_tag :: nat where "Closure_tag = 247"

definition Infix_tag :: nat where "Infix_tag = 249"

definition Cont_tag :: nat where "Cont_tag = 245"

definition Double_tag :: nat where "Double_tag = 253"

definition Double_array_tag :: nat where "Double_array_tag = 254"

definition String_tag :: nat where "String_tag = 252"

definition Make_closinfo :: "nat \<Rightarrow> nat \<Rightarrow> val" where
  "Make_closinfo arity delta = Imm (push_bit 56 (of_nat arity) + push_bit 1 (of_nat delta) + 1)"

definition Make_header :: "nat \<Rightarrow> nat \<Rightarrow> val" where
  "Make_header wosize tag = Imm (push_bit 10 (of_nat wosize) + of_nat tag)"

section \<open>The machine\<close>

record fiber =
  slots :: "val list"
  parent :: "nat option"
  handle_value :: val
  handle_exception :: val
  handle_effect :: val

record machine =
  pc :: nat
  accu :: val
  env :: val
  extra_args :: int
  sp :: "val list"
  trap_sp_off :: int
  current :: nat
  fibers :: "nat \<Rightarrow> fiber option"
  heap :: "nat \<Rightarrow> block option"
  next_addr :: nat
  code :: "int list"
  global_data :: val

text \<open>Where the interpreter goes on: the next instruction, one of its labels, or a return to the caller.\<close>

datatype control =
    Next machine
  | Check_stacks machine
  | Raise_notrace machine
  | Return_value val machine
  | Return_exception val machine

datatype prim_result = Returns val "nat \<Rightarrow> block option" nat | Raises val "nat \<Rightarrow> block option" nat

text \<open>
  What the interpreter gets from outside: the table of C primitives, the test whether the stack can
  hold so many words, and the exceptions that the runtime raises itself.
\<close>

record world =
  prim :: "nat \<Rightarrow> val list \<Rightarrow> (nat \<Rightarrow> block option) \<Rightarrow> nat \<Rightarrow> prim_result"
  stack_fits :: "nat \<Rightarrow> bool"
  backtrace_active :: bool
  exn_stack_overflow :: val
  exn_zero_divide :: val
  exn_already_resumed :: val
  unhandled_effect_exn :: "val \<Rightarrow> (nat \<Rightarrow> block option) \<Rightarrow> nat \<Rightarrow> val \<times> (nat \<Rightarrow> block option) \<times> nat"
  raise_unhandled_effect :: val
  initial_trap_sp_off :: int
  initial_stack_words :: nat

section \<open>Access\<close>

text \<open>\<open>Ptr_val\<close>: a stack, or \<open>NULL\<close>, which has the representation of \<open>Val_long(0)\<close>.\<close>

definition Ptr_val :: "val \<Rightarrow> nat option option" where
  "Ptr_val v = (case v of Stk k \<Rightarrow> Some (Some k) | Imm w \<Rightarrow> (if w = 1 then Some None else None) | _ \<Rightarrow> None)"

definition Int_val :: "val \<Rightarrow> int option" where
  "Int_val v = do { n \<leftarrow> Long_val v; Some (sint (word_of_int n :: 32 word)) }"

definition is_block :: "val \<Rightarrow> bool" where
  "is_block v = (case v of Imm w \<Rightarrow> even w | Stk k \<Rightarrow> False | _ \<Rightarrow> True)"

definition imm :: "val \<Rightarrow> u64 option" where
  "imm v = (case v of Imm w \<Rightarrow> Some w | _ \<Rightarrow> None)"

definition field :: "machine \<Rightarrow> val \<Rightarrow> nat \<Rightarrow> val option" where
  "field m v i = (case v of
     Ptr a ofs \<Rightarrow> (case heap m a of Some (Fields tag fs) \<Rightarrow> rd fs (ofs + i) | _ \<Rightarrow> None)
   | _ \<Rightarrow> None)"

definition set_field :: "machine \<Rightarrow> val \<Rightarrow> nat \<Rightarrow> val \<Rightarrow> machine option" where
  "set_field m v i x = (case v of
     Ptr a ofs \<Rightarrow> (case heap m a of
         Some (Fields tag fs) \<Rightarrow> do { fs \<leftarrow> wr fs (ofs + i) x; Some (m\<lparr>heap := (heap m)(a := Some (Fields tag fs))\<rparr>) }
       | _ \<Rightarrow> None)
   | _ \<Rightarrow> None)"

definition alloc :: "block \<Rightarrow> machine \<Rightarrow> machine" where
  "alloc b m = m\<lparr>accu := Ptr (next_addr m) 0, heap := (heap m)(next_addr m := Some b), next_addr := next_addr m + 1\<rparr>"

definition code_val :: "machine \<Rightarrow> val \<Rightarrow> nat option" where
  "code_val m v = do { c \<leftarrow> field m v 0; case c of Code p \<Rightarrow> Some p | _ \<Rightarrow> None }"

definition tag_val :: "machine \<Rightarrow> val \<Rightarrow> nat option" where
  "tag_val m v = (case v of
     Ptr a ofs \<Rightarrow> (if ofs = 0 then (case heap m a of
         Some (Fields tag fs) \<Rightarrow> Some tag
       | Some (Bytes bs) \<Rightarrow> Some String_tag
       | Some (Double d) \<Rightarrow> Some Double_tag
       | Some (Double_array ds) \<Rightarrow> Some Double_array_tag
       | None \<Rightarrow> None) else Some Infix_tag)
   | Atom tag \<Rightarrow> Some tag
   | _ \<Rightarrow> None)"

definition wosize_val :: "machine \<Rightarrow> val \<Rightarrow> nat option" where
  "wosize_val m v = (case v of
     Ptr a ofs \<Rightarrow> (case heap m a of
         Some (Fields tag fs) \<Rightarrow> Some (if ofs = 0 then length fs else ofs)
       | Some (Double d) \<Rightarrow> Some 1
       | Some (Double_array ds) \<Rightarrow> Some (length ds)
       | Some (Bytes bs) \<Rightarrow> Some ((length bs + 8) div 8)
       | None \<Rightarrow> None)
   | Atom tag \<Rightarrow> Some 0
   | _ \<Rightarrow> None)"

definition opnd :: "machine \<Rightarrow> nat \<Rightarrow> int option" where
  "opnd m k = rd (code m) (pc m + k)"

definition opnd_nat :: "machine \<Rightarrow> nat \<Rightarrow> nat option" where
  "opnd_nat m k = do { n \<leftarrow> opnd m k; guard (0 \<le> n); Some (nat n) }"

text \<open>The code address \<open>pc + pc[k]\<close>.\<close>

definition target :: "machine \<Rightarrow> nat \<Rightarrow> nat option" where
  "target m k = do { n \<leftarrow> opnd m k; guard (0 \<le> int (pc m) + n); Some (nat (int (pc m) + n)) }"

definition top :: "machine \<Rightarrow> nat \<Rightarrow> val option" where
  "top m i = rd (sp m) i"

definition pop :: "nat \<Rightarrow> machine \<Rightarrow> machine option" where
  "pop n m = do { guard (n \<le> length (sp m)); Some (m\<lparr>sp := drop n (sp m)\<rparr>) }"

definition pushv :: "val \<Rightarrow> machine \<Rightarrow> machine" where
  "pushv v m = m\<lparr>sp := v # sp m\<rparr>"

abbreviation push_accu :: "machine \<Rightarrow> machine" where
  "push_accu m \<equiv> pushv (accu m) m"

abbreviation skip :: "nat \<Rightarrow> machine \<Rightarrow> machine" where
  "skip n m \<equiv> m\<lparr>pc := pc m + n\<rparr>"

text \<open>\<open>pc = Code_val(accu); env = accu;\<close>\<close>

definition enter_accu :: "machine \<Rightarrow> machine option" where
  "enter_accu m = do { p \<leftarrow> code_val m (accu m); Some (m\<lparr>pc := p, env := accu m\<rparr>) }"

definition setup_for_c_call :: "machine \<Rightarrow> machine" where
  "setup_for_c_call m = m\<lparr>sp := env m # Code (pc m + 1) # sp m\<rparr>"

definition restore_after_c_call :: "machine \<Rightarrow> machine option" where
  "restore_after_c_call m = do { e \<leftarrow> top m 0; m \<leftarrow> pop 2 m; Some (m\<lparr>env := e\<rparr>) }"

text \<open>A C function raises: control comes back through \<open>sigsetjmp\<close> with the exception in \<open>accu\<close>.\<close>

definition c_raise :: "val \<Rightarrow> machine \<Rightarrow> control" where
  "c_raise exn m = Raise_notrace (m\<lparr>accu := exn\<rparr>)"

section \<open>The labels\<close>

text \<open>Back to the parent stack: the handler closure \<open>h\<close> is applied to \<open>accu\<close>.\<close>

definition to_parent :: "val \<Rightarrow> nat \<Rightarrow> machine \<Rightarrow> control option" where
  "to_parent h p m = do {
     f \<leftarrow> fibers m p;
     t \<leftarrow> rd (slots f) 0;
     ta \<leftarrow> Long_val t;
     x \<leftarrow> rd (slots f) 1;
     ea \<leftarrow> Long_val x;
     m \<leftarrow> enter_accu (m\<lparr>fibers := (fibers m)(current m := None), current := p, trap_sp_off := ta, extra_args := ea,
             sp := accu m # drop 2 (slots f), accu := h\<rparr>);
     Some (Check_stacks m) }"

definition do_return :: "machine \<Rightarrow> control option" where
  "do_return m =
     (if sp m = [] then do {
        f \<leftarrow> fibers m (current m);
        p \<leftarrow> parent f;
        to_parent (handle_value f) p m }
      else do {
        a \<leftarrow> top m 0;
        e \<leftarrow> top m 1;
        x \<leftarrow> top m 2;
        ea \<leftarrow> Long_val x;
        m \<leftarrow> pop 3 m;
        case a of Code p \<Rightarrow> Some (Next (m\<lparr>pc := p, env := e, extra_args := ea\<rparr>)) | _ \<Rightarrow> None })"

definition raise_notrace :: "world \<Rightarrow> machine \<Rightarrow> control option" where
  "raise_notrace W m =
     (if 0 < trap_sp_off m then do {
        f \<leftarrow> fibers m (current m);
        case parent f of
          None \<Rightarrow> do {
            guard (initial_stack_words W \<le> length (sp m));
            Some (Return_exception (accu m) (m\<lparr>trap_sp_off := initial_trap_sp_off W,
                sp := drop (length (sp m) - initial_stack_words W) (sp m)\<rparr>)) }
        | Some p \<Rightarrow> to_parent (handle_exception f) p m }
      else do {
        let depth = nat (- trap_sp_off m);
        guard (depth \<le> length (sp m));
        m \<leftarrow> pop (length (sp m) - depth) m;
        a \<leftarrow> top m 0;
        l \<leftarrow> top m 1;
        t \<leftarrow> Long_val l;
        e \<leftarrow> top m 2;
        x \<leftarrow> top m 3;
        ea \<leftarrow> Long_val x;
        m \<leftarrow> pop 4 m;
        case a of Code p \<Rightarrow> Some (Next (m\<lparr>pc := p, trap_sp_off := t, env := e, extra_args := ea\<rparr>)) | _ \<Rightarrow> None })"

definition raise_exception :: "world \<Rightarrow> machine \<Rightarrow> control" where
  "raise_exception W m = Raise_notrace (if backtrace_active W then pushv (Code (pc m - 1)) m else m)"

definition check_stacks :: "world \<Rightarrow> machine \<Rightarrow> control" where
  "check_stacks W m =
     (if stack_fits W (length (sp m)) then Next m
      else c_raise (exn_stack_overflow W) (setup_for_c_call m))"

end
