(* ===== verification/Interp.thy ===== *)
theory Interp
  imports Machine "HOL-Library.Signed_Division"
begin

text \<open>
  The instructions of the bytecode interpreter (\<^verbatim>\<open>src/runtime/interp.c\<close>, \<open>caml_interprete\<close>, with the opcodes of
  \<^verbatim>\<open>caml/instruct.h\<close>): one definition for each group of instructions in the order of the source, the decoding
  of opcodes, and \<open>step\<close>, which executes one instruction or one label. An opcode whose index is part of
  its name (\<open>ACC3\<close>) takes it as \<open>Const 3\<close>; \<open>Operand\<close> is an index in the code (\<open>*pc++\<close>).
\<close>

unbundle bit_operations_syntax

section \<open>The instruction set\<close>

datatype arg = Const nat | Operand

datatype stack_op = ACC arg | PUSH | PUSHACC arg | POP | ASSIGN
datatype env_op = ENVACC arg | PUSHENVACC arg
datatype apply_op = PUSH_RETADDR | APPLY | APPLY1 | APPLY2 | APPLY3 | APPTERM | APPTERM1 | APPTERM2 | APPTERM3
datatype return_op = RETURN | RESTART | GRAB
datatype closure_op = CLOSURE | CLOSUREREC | OFFSETCLOSURE "int option" | PUSHOFFSETCLOSURE "int option"
datatype global_op = GETGLOBAL | PUSHGETGLOBAL | GETGLOBALFIELD | PUSHGETGLOBALFIELD | SETGLOBAL
datatype block_op = ATOM arg | PUSHATOM arg | MAKEBLOCK | MAKEBLOCK1 | MAKEBLOCK2 | MAKEBLOCK3 | MAKEFLOATBLOCK
datatype field_op = GETFIELD arg | GETFLOATFIELD | SETFIELD arg | SETFLOATFIELD
datatype array_op = VECTLENGTH | GETVECTITEM | SETVECTITEM | GETBYTESCHAR | SETBYTESCHAR | GETSTRINGCHAR
datatype branch_op = BRANCH | BRANCHIF | BRANCHIFNOT | SWITCH | BOOLNOT
datatype trap_op = PUSHTRAP | POPTRAP | RAISE | RERAISE | RAISE_NOTRACE
datatype c_call_op = CHECK_SIGNALS | C_CALL1 | C_CALL2 | C_CALL3 | C_CALL4 | C_CALL5 | C_CALLN
datatype const_op = CONSTINT arg | PUSHCONSTINT arg
datatype arith_op = NEGINT | ADDINT | SUBINT | MULINT | DIVINT | MODINT | ANDINT | ORINT | XORINT | LSLINT | LSRINT | ASRINT
datatype compare_op = EQ | NEQ | LTINT | LEINT | GTINT | GEINT | ULTINT | UGEINT
datatype offset_op = OFFSETINT | OFFSETREF | ISINT
datatype object_op = GETMETHOD | GETPUBMET | GETDYNMET
datatype control_op = STOP | EVENT | BREAK | PERFORM | RESUME | RESUMETERM | REPERFORMTERM

datatype instr =
    Stack_op stack_op | Env_op env_op | Apply_op apply_op | Return_op return_op | Closure_op closure_op
  | Global_op global_op | Block_op block_op | Field_op field_op | Array_op array_op | Branch_op branch_op
  | Trap_op trap_op | C_call_op c_call_op | Const_op const_op | Arith_op arith_op | Compare_op compare_op
  | Branch_compare_op compare_op | Offset_op offset_op | Object_op object_op | Control_op control_op

text \<open>The opcodes, in the order of the enumeration.\<close>

definition instructions :: "instr list" where
  "instructions =
     [Stack_op (ACC (Const 0)), Stack_op (ACC (Const 1)), Stack_op (ACC (Const 2)), Stack_op (ACC (Const 3)),
      Stack_op (ACC (Const 4)), Stack_op (ACC (Const 5)), Stack_op (ACC (Const 6)), Stack_op (ACC (Const 7)),
      Stack_op (ACC Operand), Stack_op PUSH,
      Stack_op PUSH, Stack_op (PUSHACC (Const 1)), Stack_op (PUSHACC (Const 2)), Stack_op (PUSHACC (Const 3)),
      Stack_op (PUSHACC (Const 4)), Stack_op (PUSHACC (Const 5)), Stack_op (PUSHACC (Const 6)), Stack_op (PUSHACC (Const 7)),
      Stack_op (PUSHACC Operand), Stack_op POP, Stack_op ASSIGN,
      Env_op (ENVACC (Const 1)), Env_op (ENVACC (Const 2)), Env_op (ENVACC (Const 3)), Env_op (ENVACC (Const 4)),
      Env_op (ENVACC Operand),
      Env_op (PUSHENVACC (Const 1)), Env_op (PUSHENVACC (Const 2)), Env_op (PUSHENVACC (Const 3)),
      Env_op (PUSHENVACC (Const 4)), Env_op (PUSHENVACC Operand),
      Apply_op PUSH_RETADDR, Apply_op APPLY, Apply_op APPLY1, Apply_op APPLY2, Apply_op APPLY3,
      Apply_op APPTERM, Apply_op APPTERM1, Apply_op APPTERM2, Apply_op APPTERM3,
      Return_op RETURN, Return_op RESTART, Return_op GRAB,
      Closure_op CLOSURE, Closure_op CLOSUREREC,
      Closure_op (OFFSETCLOSURE (Some (-3))), Closure_op (OFFSETCLOSURE (Some 0)), Closure_op (OFFSETCLOSURE (Some 3)),
      Closure_op (OFFSETCLOSURE None),
      Closure_op (PUSHOFFSETCLOSURE (Some (-3))), Closure_op (PUSHOFFSETCLOSURE (Some 0)),
      Closure_op (PUSHOFFSETCLOSURE (Some 3)), Closure_op (PUSHOFFSETCLOSURE None),
      Global_op GETGLOBAL, Global_op PUSHGETGLOBAL, Global_op GETGLOBALFIELD, Global_op PUSHGETGLOBALFIELD,
      Global_op SETGLOBAL,
      Block_op (ATOM (Const 0)), Block_op (ATOM Operand), Block_op (PUSHATOM (Const 0)), Block_op (PUSHATOM Operand),
      Block_op MAKEBLOCK, Block_op MAKEBLOCK1, Block_op MAKEBLOCK2, Block_op MAKEBLOCK3, Block_op MAKEFLOATBLOCK,
      Field_op (GETFIELD (Const 0)), Field_op (GETFIELD (Const 1)), Field_op (GETFIELD (Const 2)),
      Field_op (GETFIELD (Const 3)), Field_op (GETFIELD Operand), Field_op GETFLOATFIELD,
      Field_op (SETFIELD (Const 0)), Field_op (SETFIELD (Const 1)), Field_op (SETFIELD (Const 2)),
      Field_op (SETFIELD (Const 3)), Field_op (SETFIELD Operand), Field_op SETFLOATFIELD,
      Array_op VECTLENGTH, Array_op GETVECTITEM, Array_op SETVECTITEM,
      Array_op GETBYTESCHAR, Array_op SETBYTESCHAR,
      Branch_op BRANCH, Branch_op BRANCHIF, Branch_op BRANCHIFNOT, Branch_op SWITCH, Branch_op BOOLNOT,
      Trap_op PUSHTRAP, Trap_op POPTRAP, Trap_op RAISE,
      C_call_op CHECK_SIGNALS,
      C_call_op C_CALL1, C_call_op C_CALL2, C_call_op C_CALL3, C_call_op C_CALL4, C_call_op C_CALL5, C_call_op C_CALLN,
      Const_op (CONSTINT (Const 0)), Const_op (CONSTINT (Const 1)), Const_op (CONSTINT (Const 2)), Const_op (CONSTINT (Const 3)),
      Const_op (CONSTINT Operand),
      Const_op (PUSHCONSTINT (Const 0)), Const_op (PUSHCONSTINT (Const 1)), Const_op (PUSHCONSTINT (Const 2)),
      Const_op (PUSHCONSTINT (Const 3)), Const_op (PUSHCONSTINT Operand),
      Arith_op NEGINT, Arith_op ADDINT, Arith_op SUBINT, Arith_op MULINT, Arith_op DIVINT, Arith_op MODINT,
      Arith_op ANDINT, Arith_op ORINT, Arith_op XORINT, Arith_op LSLINT, Arith_op LSRINT, Arith_op ASRINT,
      Compare_op EQ, Compare_op NEQ, Compare_op LTINT, Compare_op LEINT, Compare_op GTINT, Compare_op GEINT,
      Offset_op OFFSETINT, Offset_op OFFSETREF, Offset_op ISINT,
      Object_op GETMETHOD,
      Branch_compare_op EQ, Branch_compare_op NEQ, Branch_compare_op LTINT, Branch_compare_op LEINT,
      Branch_compare_op GTINT, Branch_compare_op GEINT,
      Compare_op ULTINT, Compare_op UGEINT,
      Branch_compare_op ULTINT, Branch_compare_op UGEINT,
      Object_op GETPUBMET, Object_op GETDYNMET,
      Control_op STOP,
      Control_op EVENT, Control_op BREAK,
      Trap_op RERAISE, Trap_op RAISE_NOTRACE,
      Array_op GETSTRINGCHAR,
      Control_op PERFORM, Control_op RESUME, Control_op RESUMETERM, Control_op REPERFORMTERM]"

definition decode :: "int \<Rightarrow> instr option" where
  "decode n = do { guard (0 \<le> n); rd instructions (nat n) }"

definition fetch_arg :: "arg \<Rightarrow> machine \<Rightarrow> (int \<times> machine) option" where
  "fetch_arg a m = (case a of
     Const n \<Rightarrow> Some (int n, m)
   | Operand \<Rightarrow> do { n \<leftarrow> opnd m 0; Some (n, skip 1 m) })"

definition fetch_index :: "arg \<Rightarrow> machine \<Rightarrow> (nat \<times> machine) option" where
  "fetch_index a m = do { (n, m) \<leftarrow> fetch_arg a m; guard (0 \<le> n); Some (nat n, m) }"

definition long_index :: "val \<Rightarrow> nat option" where
  "long_index v = do { n \<leftarrow> Long_val v; guard (0 \<le> n); Some (nat n) }"

section \<open>Basic stack operations and the environment\<close>

definition acc :: "arg \<Rightarrow> machine \<Rightarrow> control option" where
  "acc a m = do { (n, m) \<leftarrow> fetch_index a m; v \<leftarrow> top m n; Some (Next (m\<lparr>accu := v\<rparr>)) }"

definition exec_stack :: "stack_op \<Rightarrow> machine \<Rightarrow> control option" where
  "exec_stack i m = (case i of
     ACC a \<Rightarrow> acc a m
   | PUSH \<Rightarrow> Some (Next (push_accu m))
   | PUSHACC a \<Rightarrow> acc a (push_accu m)
   | POP \<Rightarrow> do { n \<leftarrow> opnd_nat m 0; m \<leftarrow> pop n (skip 1 m); Some (Next m) }
   | ASSIGN \<Rightarrow> do {
       n \<leftarrow> opnd_nat m 0;
       s \<leftarrow> wr (sp m) n (accu m);
       Some (Next (skip 1 m\<lparr>sp := s, accu := Val_unit\<rparr>)) })"

definition envacc :: "arg \<Rightarrow> machine \<Rightarrow> control option" where
  "envacc a m = do { (n, m) \<leftarrow> fetch_index a m; v \<leftarrow> field m (env m) n; Some (Next (m\<lparr>accu := v\<rparr>)) }"

definition exec_env :: "env_op \<Rightarrow> machine \<Rightarrow> control option" where
  "exec_env i m = (case i of ENVACC a \<Rightarrow> envacc a m | PUSHENVACC a \<Rightarrow> envacc a (push_accu m))"

section \<open>Function application\<close>

text \<open>\<open>pc = Code_val(accu); env = accu; goto check_stacks\<close>.\<close>

definition call_accu :: "machine \<Rightarrow> control option" where
  "call_accu m = do { m \<leftarrow> enter_accu m; Some (Check_stacks m) }"

definition applyn :: "nat \<Rightarrow> machine \<Rightarrow> control option" where
  "applyn n m = do {
     guard (n \<le> length (sp m));
     call_accu (m\<lparr>sp := take n (sp m) @ [Code (pc m), env m, Val_long (extra_args m)] @ drop n (sp m),
                  extra_args := int n - 1\<rparr>) }"

text \<open>The loop of \<open>APPTERM\<close>: the arguments are moved \<open>d\<close> words up, the last one first.\<close>

definition slide :: "nat \<Rightarrow> nat \<Rightarrow> val list \<Rightarrow> val list option" where
  "slide nargs d s = do {
     s \<leftarrow> for_down 0 nargs (\<lambda>i s. do { v \<leftarrow> rd s i; wr s (d + i) v }) s;
     guard (d \<le> length s);
     Some (drop d s) }"

definition apptermn :: "nat \<Rightarrow> int \<Rightarrow> machine \<Rightarrow> control option" where
  "apptermn n slotsize m = do {
     guard (int n \<le> slotsize \<and> slotsize \<le> int (length (sp m)));
     call_accu (m\<lparr>sp := take n (sp m) @ drop (nat slotsize) (sp m), extra_args := extra_args m + int n - 1\<rparr>) }"

definition exec_apply :: "apply_op \<Rightarrow> machine \<Rightarrow> control option" where
  "exec_apply i m = (case i of
     PUSH_RETADDR \<Rightarrow> do {
       a \<leftarrow> target m 0;
       Some (Next (skip 1 m\<lparr>sp := Code a # env m # Val_long (extra_args m) # sp m\<rparr>)) }
   | APPLY \<Rightarrow> do { n \<leftarrow> opnd m 0; call_accu (m\<lparr>extra_args := n - 1\<rparr>) }
   | APPLY1 \<Rightarrow> applyn 1 m
   | APPLY2 \<Rightarrow> applyn 2 m
   | APPLY3 \<Rightarrow> applyn 3 m
   | APPTERM \<Rightarrow> do {
       nargs \<leftarrow> opnd_nat m 0;
       slotsize \<leftarrow> opnd_nat m 1;
       guard (nargs \<le> slotsize);
       s \<leftarrow> slide nargs (slotsize - nargs) (sp m);
       call_accu (m\<lparr>sp := s, extra_args := extra_args m + (int nargs - 1)\<rparr>) }
   | APPTERM1 \<Rightarrow> do { n \<leftarrow> opnd m 0; apptermn 1 n m }
   | APPTERM2 \<Rightarrow> do { n \<leftarrow> opnd m 0; apptermn 2 n m }
   | APPTERM3 \<Rightarrow> do { n \<leftarrow> opnd m 0; apptermn 3 n m })"

definition exec_return :: "return_op \<Rightarrow> machine \<Rightarrow> control option" where
  "exec_return i m = (case i of
     RETURN \<Rightarrow> do {
       n \<leftarrow> opnd_nat m 0;
       m \<leftarrow> pop n (skip 1 m);
       if 0 < extra_args m then do { m \<leftarrow> enter_accu (m\<lparr>extra_args := extra_args m - 1\<rparr>); Some (Next m) }
       else do_return m }
   | RESTART \<Rightarrow> do {
       n \<leftarrow> wosize_val m (env m);
       guard (3 \<le> n);
       let num_args = n - 3;
       args \<leftarrow> those (map (\<lambda>i. field m (env m) (i + 3)) [0..<num_args]);
       e \<leftarrow> field m (env m) 2;
       Some (Next (m\<lparr>sp := args @ sp m, env := e, extra_args := extra_args m + int num_args\<rparr>)) }
   | GRAB \<Rightarrow> do {
       required \<leftarrow> opnd m 0;
       let m = skip 1 m;
       if required \<le> extra_args m then Some (Next (m\<lparr>extra_args := extra_args m - required\<rparr>))
       else do {
         guard (0 \<le> 1 + extra_args m \<and> 3 \<le> pc m);
         let num_args = nat (1 + extra_args m);
         guard (num_args \<le> length (sp m));
         m \<leftarrow> pop num_args (alloc (Fields Closure_tag
                (Code (pc m - 3) # Make_closinfo 0 2 # env m # take num_args (sp m))) m);
         do_return m } })"

definition closure_block :: "machine \<Rightarrow> nat \<Rightarrow> nat \<Rightarrow> val list \<Rightarrow> block option" where
  "closure_block m nfuncs envofs vars = do {
     a \<leftarrow> target m 0;
     infixes \<leftarrow> foldM (\<lambda>i fs. do {
         n \<leftarrow> opnd m i;
         guard (0 \<le> int (pc m) + n);
         Some (fs @ [Make_header (i * 3) Infix_tag, Code (nat (int (pc m) + n)), Make_closinfo 0 (envofs - 3 * i)]) })
       [1..<nfuncs] [];
     Some (Fields Closure_tag (Code a # Make_closinfo 0 envofs # infixes @ vars)) }"

definition offset_closure :: "int option \<Rightarrow> machine \<Rightarrow> control option" where
  "offset_closure ofs m = do {
     (n, m) \<leftarrow> (case ofs of Some n \<Rightarrow> Some (n, m) | None \<Rightarrow> do { n \<leftarrow> opnd m 0; Some (n, skip 1 m) });
     case env m of
       Ptr a k \<Rightarrow> do { guard (0 \<le> int k + n); Some (Next (m\<lparr>accu := Ptr a (nat (int k + n))\<rparr>)) }
     | _ \<Rightarrow> None }"

definition exec_closure :: "closure_op \<Rightarrow> machine \<Rightarrow> control option" where
  "exec_closure i m = (case i of
     CLOSURE \<Rightarrow> do {
       nvars \<leftarrow> opnd_nat m 0;
       let m = skip 1 m;
       let m = (if 0 < nvars then push_accu m else m);
       a \<leftarrow> target m 0;
       guard (nvars \<le> length (sp m));
       m \<leftarrow> pop nvars (alloc (Fields Closure_tag (Code a # Make_closinfo 0 2 # take nvars (sp m))) m);
       Some (Next (skip 1 m)) }
   | CLOSUREREC \<Rightarrow> do {
       nfuncs \<leftarrow> opnd_nat m 0;
       nvars \<leftarrow> opnd_nat m 1;
       guard (0 < nfuncs);
       let m = skip 2 m;
       let m = (if 0 < nvars then push_accu m else m);
       guard (nvars \<le> length (sp m));
       b \<leftarrow> closure_block m nfuncs (nfuncs * 3 - 1) (take nvars (sp m));
       m \<leftarrow> pop nvars (alloc b m);
       let a = next_addr m - 1;
       Some (Next (skip nfuncs m\<lparr>sp := rev (map (\<lambda>i. Ptr a (3 * i)) [0..<nfuncs]) @ sp m\<rparr>)) }
   | OFFSETCLOSURE ofs \<Rightarrow> offset_closure ofs m
   | PUSHOFFSETCLOSURE ofs \<Rightarrow> offset_closure ofs (push_accu m))"

section \<open>Global variables, blocks and their components\<close>

definition get_global :: "machine \<Rightarrow> control option" where
  "get_global m = do { n \<leftarrow> opnd_nat m 0; v \<leftarrow> field m (global_data m) n; Some (Next (skip 1 m\<lparr>accu := v\<rparr>)) }"

definition get_global_field :: "machine \<Rightarrow> control option" where
  "get_global_field m = do {
     n \<leftarrow> opnd_nat m 0;
     v \<leftarrow> field m (global_data m) n;
     k \<leftarrow> opnd_nat m 1;
     x \<leftarrow> field m v k;
     Some (Next (skip 2 m\<lparr>accu := x\<rparr>)) }"

definition exec_global :: "global_op \<Rightarrow> machine \<Rightarrow> control option" where
  "exec_global i m = (case i of
     GETGLOBAL \<Rightarrow> get_global m
   | PUSHGETGLOBAL \<Rightarrow> get_global (push_accu m)
   | GETGLOBALFIELD \<Rightarrow> get_global_field m
   | PUSHGETGLOBALFIELD \<Rightarrow> get_global_field (push_accu m)
   | SETGLOBAL \<Rightarrow> do {
       n \<leftarrow> opnd_nat m 0;
       m \<leftarrow> set_field m (global_data m) n (accu m);
       Some (Next (skip 1 m\<lparr>accu := Val_unit\<rparr>)) })"

definition double_val :: "machine \<Rightarrow> val \<Rightarrow> u64 option" where
  "double_val m v = (case v of
     Ptr a ofs \<Rightarrow> (case heap m a of Some (Double d) \<Rightarrow> if ofs = 0 then Some d else None | _ \<Rightarrow> None)
   | _ \<Rightarrow> None)"

text \<open>A block of \<open>n\<close> fields: \<open>accu\<close> and \<open>n - 1\<close> words of the stack.\<close>

definition make_block :: "nat \<Rightarrow> nat \<Rightarrow> machine \<Rightarrow> control option" where
  "make_block n tag m = do {
     guard (0 < n \<and> n - 1 \<le> length (sp m));
     m \<leftarrow> pop (n - 1) (alloc (Fields tag (accu m # take (n - 1) (sp m))) m);
     Some (Next m) }"

definition atom :: "arg \<Rightarrow> machine \<Rightarrow> control option" where
  "atom a m = do { (n, m) \<leftarrow> fetch_index a m; Some (Next (m\<lparr>accu := Atom n\<rparr>)) }"

definition exec_block :: "block_op \<Rightarrow> machine \<Rightarrow> control option" where
  "exec_block i m = (case i of
     ATOM a \<Rightarrow> atom a m
   | PUSHATOM a \<Rightarrow> atom a (push_accu m)
   | MAKEBLOCK \<Rightarrow> do { n \<leftarrow> opnd_nat m 0; tag \<leftarrow> opnd_nat m 1; make_block n tag (skip 2 m) }
   | MAKEBLOCK1 \<Rightarrow> do { tag \<leftarrow> opnd_nat m 0; make_block 1 tag (skip 1 m) }
   | MAKEBLOCK2 \<Rightarrow> do { tag \<leftarrow> opnd_nat m 0; make_block 2 tag (skip 1 m) }
   | MAKEBLOCK3 \<Rightarrow> do { tag \<leftarrow> opnd_nat m 0; make_block 3 tag (skip 1 m) }
   | MAKEFLOATBLOCK \<Rightarrow> do {
       n \<leftarrow> opnd_nat m 0;
       guard (0 < n \<and> n - 1 \<le> length (sp m));
       ds \<leftarrow> those (map (double_val m) (accu m # take (n - 1) (sp m)));
       m \<leftarrow> pop (n - 1) (alloc (Double_array ds) (skip 1 m));
       Some (Next m) })"

definition set_accu_field :: "nat \<Rightarrow> machine \<Rightarrow> control option" where
  "set_accu_field n m = do {
     v \<leftarrow> top m 0;
     m \<leftarrow> set_field m (accu m) n v;
     m \<leftarrow> pop 1 m;
     Some (Next (m\<lparr>accu := Val_unit\<rparr>)) }"

definition double_array :: "machine \<Rightarrow> val \<Rightarrow> (nat \<times> u64 list) option" where
  "double_array m v = (case v of
     Ptr a ofs \<Rightarrow> (case heap m a of Some (Double_array ds) \<Rightarrow> if ofs = 0 then Some (a, ds) else None | _ \<Rightarrow> None)
   | _ \<Rightarrow> None)"

definition exec_field :: "field_op \<Rightarrow> machine \<Rightarrow> control option" where
  "exec_field i m = (case i of
     GETFIELD a \<Rightarrow> do { (n, m) \<leftarrow> fetch_index a m; v \<leftarrow> field m (accu m) n; Some (Next (m\<lparr>accu := v\<rparr>)) }
   | GETFLOATFIELD \<Rightarrow> do {
       n \<leftarrow> opnd_nat m 0;
       (a, ds) \<leftarrow> double_array m (accu m);
       d \<leftarrow> rd ds n;
       Some (Next (alloc (Double d) (skip 1 m))) }
   | SETFIELD a \<Rightarrow> do { (n, m) \<leftarrow> fetch_index a m; set_accu_field n m }
   | SETFLOATFIELD \<Rightarrow> do {
       n \<leftarrow> opnd_nat m 0;
       (a, ds) \<leftarrow> double_array m (accu m);
       v \<leftarrow> top m 0;
       d \<leftarrow> double_val m v;
       ds \<leftarrow> wr ds n d;
       m \<leftarrow> pop 1 (skip 1 m);
       Some (Next (m\<lparr>heap := (heap m)(a := Some (Double_array ds)), accu := Val_unit\<rparr>)) })"

definition bytes_of :: "machine \<Rightarrow> val \<Rightarrow> (nat \<times> u8 list) option" where
  "bytes_of m v = (case v of
     Ptr a ofs \<Rightarrow> (case heap m a of Some (Bytes bs) \<Rightarrow> if ofs = 0 then Some (a, bs) else None | _ \<Rightarrow> None)
   | _ \<Rightarrow> None)"

definition get_byte :: "machine \<Rightarrow> control option" where
  "get_byte m = do {
     x \<leftarrow> top m 0;
     n \<leftarrow> long_index x;
     (a, bs) \<leftarrow> bytes_of m (accu m);
     b \<leftarrow> rd bs n;
     m \<leftarrow> pop 1 m;
     Some (Next (m\<lparr>accu := Val_long (uint b)\<rparr>)) }"

definition exec_array :: "array_op \<Rightarrow> machine \<Rightarrow> control option" where
  "exec_array i m = (case i of
     VECTLENGTH \<Rightarrow> do { n \<leftarrow> wosize_val m (accu m); Some (Next (m\<lparr>accu := Val_long (int n)\<rparr>)) }
   | GETVECTITEM \<Rightarrow> do {
       x \<leftarrow> top m 0;
       n \<leftarrow> long_index x;
       v \<leftarrow> field m (accu m) n;
       m \<leftarrow> pop 1 m;
       Some (Next (m\<lparr>accu := v\<rparr>)) }
   | SETVECTITEM \<Rightarrow> do {
       x \<leftarrow> top m 0;
       n \<leftarrow> long_index x;
       v \<leftarrow> top m 1;
       m \<leftarrow> set_field m (accu m) n v;
       m \<leftarrow> pop 2 m;
       Some (Next (m\<lparr>accu := Val_unit\<rparr>)) }
   | GETSTRINGCHAR \<Rightarrow> get_byte m
   | GETBYTESCHAR \<Rightarrow> get_byte m
   | SETBYTESCHAR \<Rightarrow> do {
       x \<leftarrow> top m 0;
       n \<leftarrow> long_index x;
       v \<leftarrow> top m 1;
       b \<leftarrow> Int_val v;
       (a, bs) \<leftarrow> bytes_of m (accu m);
       bs \<leftarrow> wr bs n (word_of_int b);
       m \<leftarrow> pop 2 m;
       Some (Next (m\<lparr>heap := (heap m)(a := Some (Bytes bs)), accu := Val_unit\<rparr>)) })"

section \<open>Branches\<close>

definition branch :: "bool \<Rightarrow> machine \<Rightarrow> control option" where
  "branch b m = (if b then do { a \<leftarrow> target m 0; Some (Next (m\<lparr>pc := a\<rparr>)) } else Some (Next (skip 1 m)))"

definition exec_branch :: "branch_op \<Rightarrow> machine \<Rightarrow> control option" where
  "exec_branch i m = (case i of
     BRANCH \<Rightarrow> branch True m
   | BRANCHIF \<Rightarrow> branch (accu m \<noteq> Val_false) m
   | BRANCHIFNOT \<Rightarrow> branch (accu m = Val_false) m
   | SWITCH \<Rightarrow> do {
       n \<leftarrow> opnd m 0;
       let sizes = (word_of_int n :: u32);
       let m = skip 1 m;
       k \<leftarrow> (if is_block (accu m) then do { tag \<leftarrow> tag_val m (accu m); Some (unat (sizes AND 0xFFFF) + tag) }
            else long_index (accu m));
       d \<leftarrow> opnd m k;
       guard (0 \<le> int (pc m) + d);
       Some (Next (m\<lparr>pc := nat (int (pc m) + d)\<rparr>)) }
   | BOOLNOT \<Rightarrow> do { w \<leftarrow> imm (accu m); Some (Next (m\<lparr>accu := Imm (1 + 3 - w)\<rparr>)) })"

section \<open>Exceptions and calls of C functions\<close>

definition exec_trap :: "world \<Rightarrow> trap_op \<Rightarrow> machine \<Rightarrow> control option" where
  "exec_trap W i m = (case i of
     PUSHTRAP \<Rightarrow> do {
       a \<leftarrow> target m 0;
       let s = Code a # Val_long (trap_sp_off m) # env m # Val_long (extra_args m) # sp m;
       Some (Next (skip 1 m\<lparr>sp := s, trap_sp_off := - int (length s)\<rparr>)) }
   | POPTRAP \<Rightarrow> do {
       l \<leftarrow> top m 1;
       t \<leftarrow> Long_val l;
       m \<leftarrow> pop 4 m;
       Some (Next (m\<lparr>trap_sp_off := t\<rparr>)) }
   | RAISE \<Rightarrow> Some (raise_exception W m)
   | RERAISE \<Rightarrow> Some (raise_exception W m)
   | RAISE_NOTRACE \<Rightarrow> Some (Raise_notrace m))"

text \<open>A call with the given arguments; \<open>n\<close> words of the stack are released after it.\<close>

definition c_call :: "world \<Rightarrow> val list \<Rightarrow> nat \<Rightarrow> machine \<Rightarrow> control option" where
  "c_call W args n m = do {
     p \<leftarrow> opnd_nat m 0;
     let m = setup_for_c_call m;
     case prim W p args (heap m) (next_addr m) of
       Returns v h a \<Rightarrow> do {
         m \<leftarrow> restore_after_c_call (m\<lparr>accu := v, heap := h, next_addr := a\<rparr>);
         m \<leftarrow> pop n m;
         Some (Next (skip 1 m)) }
     | Raises exn h a \<Rightarrow> Some (c_raise exn (m\<lparr>heap := h, next_addr := a\<rparr>)) }"

definition c_calln :: "world \<Rightarrow> nat \<Rightarrow> machine \<Rightarrow> control option" where
  "c_calln W n m = do { guard (n - 1 \<le> length (sp m)); c_call W (accu m # take (n - 1) (sp m)) (n - 1) m }"

definition exec_c_call :: "world \<Rightarrow> c_call_op \<Rightarrow> machine \<Rightarrow> control option" where
  "exec_c_call W i m = (case i of
     CHECK_SIGNALS \<Rightarrow> Some (Next m)
   | C_CALL1 \<Rightarrow> c_calln W 1 m
   | C_CALL2 \<Rightarrow> c_calln W 2 m
   | C_CALL3 \<Rightarrow> c_calln W 3 m
   | C_CALL4 \<Rightarrow> c_calln W 4 m
   | C_CALL5 \<Rightarrow> c_calln W 5 m
   | C_CALLN \<Rightarrow> do {
       nargs \<leftarrow> opnd_nat m 0;
       let m = push_accu (skip 1 m);
       guard (nargs \<le> length (sp m));
       c_call W (take nargs (sp m)) nargs m })"

section \<open>Constants, arithmetic and comparisons\<close>

definition const :: "arg \<Rightarrow> machine \<Rightarrow> control option" where
  "const a m = do { (n, m) \<leftarrow> fetch_arg a m; Some (Next (m\<lparr>accu := Val_long n\<rparr>)) }"

definition exec_const :: "const_op \<Rightarrow> machine \<Rightarrow> control option" where
  "exec_const i m = (case i of CONSTINT a \<Rightarrow> const a m | PUSHCONSTINT a \<Rightarrow> const a (push_accu m))"

definition binary :: "(u64 \<Rightarrow> u64 \<Rightarrow> val option) \<Rightarrow> machine \<Rightarrow> control option" where
  "binary f m = do {
     x \<leftarrow> imm (accu m);
     v \<leftarrow> top m 0;
     y \<leftarrow> imm v;
     m \<leftarrow> pop 1 m;
     r \<leftarrow> f x y;
     Some (Next (m\<lparr>accu := r\<rparr>)) }"

definition long :: "u64 \<Rightarrow> int" where
  "long w = sint (signed_drop_bit 1 w)"

definition shift :: "(nat \<Rightarrow> u64 \<Rightarrow> u64) \<Rightarrow> u64 \<Rightarrow> u64 \<Rightarrow> val option" where
  "shift f x y = do { guard (0 \<le> long y \<and> long y < 64); Some (Imm (f (nat (long y)) x)) }"

definition division :: "world \<Rightarrow> (int \<Rightarrow> int \<Rightarrow> int) \<Rightarrow> machine \<Rightarrow> control option" where
  "division W f m = do {
     v \<leftarrow> top m 0;
     divisor \<leftarrow> Long_val v;
     m \<leftarrow> pop 1 m;
     if divisor = 0 then Some (c_raise (exn_zero_divide W) (setup_for_c_call m))
     else do { x \<leftarrow> Long_val (accu m); Some (Next (m\<lparr>accu := Val_long (f x divisor)\<rparr>)) } }"

definition exec_arith :: "world \<Rightarrow> arith_op \<Rightarrow> machine \<Rightarrow> control option" where
  "exec_arith W i m = (case i of
     NEGINT \<Rightarrow> do { x \<leftarrow> imm (accu m); Some (Next (m\<lparr>accu := Imm (2 - x)\<rparr>)) }
   | ADDINT \<Rightarrow> binary (\<lambda>x y. Some (Imm (x + y - 1))) m
   | SUBINT \<Rightarrow> binary (\<lambda>x y. Some (Imm (x - y + 1))) m
   | MULINT \<Rightarrow> binary (\<lambda>x y. Some (Val_long (long x * long y))) m
   | DIVINT \<Rightarrow> division W (\<lambda>x y. x sdiv y) m
   | MODINT \<Rightarrow> division W (\<lambda>x y. x smod y) m
   | ANDINT \<Rightarrow> binary (\<lambda>x y. Some (Imm (x AND y))) m
   | ORINT \<Rightarrow> binary (\<lambda>x y. Some (Imm (x OR y))) m
   | XORINT \<Rightarrow> binary (\<lambda>x y. Some (Imm ((x XOR y) OR 1))) m
   | LSLINT \<Rightarrow> binary (shift (\<lambda>n x. push_bit n (x - 1) + 1)) m
   | LSRINT \<Rightarrow> binary (shift (\<lambda>n x. drop_bit n x OR 1)) m
   | ASRINT \<Rightarrow> binary (shift (\<lambda>n x. signed_drop_bit n x OR 1)) m)"

definition compare :: "compare_op \<Rightarrow> val \<Rightarrow> val \<Rightarrow> bool option" where
  "compare i v v' = (case i of
     EQ \<Rightarrow> Some (v = v')
   | NEQ \<Rightarrow> Some (v \<noteq> v')
   | _ \<Rightarrow> do {
       x \<leftarrow> imm v;
       y \<leftarrow> imm v';
       Some (case i of
         LTINT \<Rightarrow> x <s y
       | LEINT \<Rightarrow> x \<le>s y
       | GTINT \<Rightarrow> y <s x
       | GEINT \<Rightarrow> y \<le>s x
       | ULTINT \<Rightarrow> x < y
       | _ \<Rightarrow> y \<le> x) })"

definition exec_compare :: "compare_op \<Rightarrow> machine \<Rightarrow> control option" where
  "exec_compare i m = do {
     v \<leftarrow> top m 0;
     m \<leftarrow> pop 1 m;
     b \<leftarrow> compare i (accu m) v;
     Some (Next (m\<lparr>accu := Val_bool b\<rparr>)) }"

definition exec_branch_compare :: "compare_op \<Rightarrow> machine \<Rightarrow> control option" where
  "exec_branch_compare i m = do {
     n \<leftarrow> opnd m 0;
     x \<leftarrow> Long_val (accu m);
     branch (case i of
         EQ \<Rightarrow> n = x
       | NEQ \<Rightarrow> n \<noteq> x
       | LTINT \<Rightarrow> n < x
       | LEINT \<Rightarrow> n \<le> x
       | GTINT \<Rightarrow> x < n
       | GEINT \<Rightarrow> x \<le> n
       | ULTINT \<Rightarrow> (word_of_int n :: u64) < word_of_int x
       | UGEINT \<Rightarrow> (word_of_int x :: u64) \<le> word_of_int n) (skip 1 m) }"

text \<open>\<open>*pc << 1\<close>, computed in an \<open>int\<close> of 32 bits.\<close>

definition offset_word :: "int \<Rightarrow> u64" where
  "offset_word n = word_of_int (sint (push_bit 1 (word_of_int n :: 32 word)))"

definition exec_offset :: "offset_op \<Rightarrow> machine \<Rightarrow> control option" where
  "exec_offset i m = (case i of
     OFFSETINT \<Rightarrow> do {
       n \<leftarrow> opnd m 0;
       x \<leftarrow> imm (accu m);
       Some (Next (skip 1 m\<lparr>accu := Imm (x + offset_word n)\<rparr>)) }
   | OFFSETREF \<Rightarrow> do {
       n \<leftarrow> opnd m 0;
       v \<leftarrow> field m (accu m) 0;
       x \<leftarrow> imm v;
       m \<leftarrow> set_field m (accu m) 0 (Imm (x + offset_word n));
       Some (Next (skip 1 m\<lparr>accu := Val_unit\<rparr>)) }
   | ISINT \<Rightarrow> Some (Next (m\<lparr>accu := Val_long (if is_block (accu m) then 0 else 1)\<rparr>)))"

section \<open>Object-oriented operations\<close>

text \<open>The search for the method \<open>tag\<close> in a table: the tags are in the odd fields from 3 on.\<close>

definition search_step :: "machine \<Rightarrow> val \<Rightarrow> val \<Rightarrow> int \<times> int \<Rightarrow> (int \<times> int) option" where
  "search_step m meths tag lh = (case lh of (li, hi) \<Rightarrow> do {
     let mi = ((li + hi) div 2) OR 1;
     guard (0 \<le> mi);
     v \<leftarrow> field m meths (nat mi);
     b \<leftarrow> compare LTINT tag v;
     Some (if b then (li, mi - 2) else (mi, hi)) })"

definition search_method :: "machine \<Rightarrow> val \<Rightarrow> val \<Rightarrow> nat option" where
  "search_method m meths tag = do {
     n \<leftarrow> field m meths 0;
     w \<leftarrow> imm n;
     (li, hi) \<leftarrow> whileM (\<lambda>(li, hi). Some (li < hi)) (search_step m meths tag) (3, sint (ucast w :: 32 word));
     Some (nat li) }"

definition exec_object :: "object_op \<Rightarrow> machine \<Rightarrow> control option" where
  "exec_object i m = (case i of
     GETMETHOD \<Rightarrow> do {
       obj \<leftarrow> top m 0;
       meths \<leftarrow> field m obj 0;
       n \<leftarrow> Int_val (accu m);
       guard (0 \<le> n);
       v \<leftarrow> field m meths (nat n);
       Some (Next (m\<lparr>accu := v\<rparr>)) }
   | GETPUBMET \<Rightarrow> do {
       meths \<leftarrow> field m (accu m) 0;
       let m = push_accu m;
       n \<leftarrow> opnd m 0;
       let tag = Val_long n;
       cache \<leftarrow> opnd m 1;
       v \<leftarrow> field m meths 1;
       mask \<leftarrow> imm v;
       let ofs = unat ((word_of_int cache :: u64) AND mask);
       guard (ofs mod 8 = 0);
       t \<leftarrow> field m meths (3 + ofs div 8);
       if t = tag then do {
         v \<leftarrow> field m meths (2 + ofs div 8);
         Some (Next (skip 2 m\<lparr>accu := v\<rparr>)) }
       else do {
         li \<leftarrow> search_method m meths tag;
         c \<leftarrow> wr (code m) (pc m + 1) ((int li - 3) * 8);
         v \<leftarrow> field m meths (li - 1);
         Some (Next (skip 2 m\<lparr>code := c, accu := v\<rparr>)) } }
   | GETDYNMET \<Rightarrow> do {
       obj \<leftarrow> top m 0;
       meths \<leftarrow> field m obj 0;
       li \<leftarrow> search_method m meths (accu m);
       v \<leftarrow> field m meths (li - 1);
       Some (Next (m\<lparr>accu := v\<rparr>)) })"

section \<open>Machine control and effects\<close>

definition do_resume :: "world \<Rightarrow> val \<Rightarrow> val \<Rightarrow> nat option \<Rightarrow> machine \<Rightarrow> control option" where
  "do_resume W resume_fn resume_arg resume_tail m = do {
     p \<leftarrow> Ptr_val (accu m);
     case p of
       None \<Rightarrow> Some (c_raise (exn_already_resumed W) (setup_for_c_call m))
     | Some stk \<Rightarrow> do {
         let tail = (case resume_tail of None \<Rightarrow> stk | Some t \<Rightarrow> t);
         ft \<leftarrow> fibers m tail;
         let fs = (fibers m)(tail := Some (ft\<lparr>parent := Some (current m)\<rparr>));
         fc \<leftarrow> fs (current m);
         let fs = fs(current m := Some (fc\<lparr>slots := sp m\<rparr>));
         f \<leftarrow> fs stk;
         t \<leftarrow> rd (slots f) 0;
         ta \<leftarrow> Long_val t;
         call_accu (m\<lparr>fibers := fs, current := stk, sp := resume_arg # drop 1 (slots f), trap_sp_off := ta,
                      accu := resume_fn, extra_args := 0\<rparr>) } }"

text \<open>The handler of the effect \<open>eff\<close> runs on the stack \<open>p\<close>; the stack \<open>self\<close> is left to the continuation.\<close>

definition handle :: "val \<Rightarrow> val \<Rightarrow> nat \<Rightarrow> nat \<Rightarrow> machine \<Rightarrow> control option" where
  "handle eff cont self p m = do {
     f \<leftarrow> fibers m self;
     pf \<leftarrow> fibers m p;
     t \<leftarrow> rd (slots pf) 0;
     ta \<leftarrow> Long_val t;
     x \<leftarrow> rd (slots pf) 1;
     ea \<leftarrow> Long_val x;
     call_accu (m\<lparr>current := p, sp := eff # cont # Stk self # drop 2 (slots pf), trap_sp_off := ta,
                  accu := handle_effect f, extra_args := ea + 2\<rparr>) }"

definition perform :: "world \<Rightarrow> machine \<Rightarrow> control option" where
  "perform W m = do {
     f \<leftarrow> fibers m (current m);
     case parent f of
       None \<Rightarrow> do {
         let (exn, h, a) = unhandled_effect_exn W (accu m) (heap m) (next_addr m);
         m \<leftarrow> restore_after_c_call ((setup_for_c_call m)\<lparr>accu := exn, heap := h, next_addr := a\<rparr>);
         Some (raise_exception W m) }
     | Some p \<Rightarrow> do {
         let eff = accu m;
         let m = alloc (Fields Cont_tag [Stk (current m), Val_long 0]) m;
         let s = Val_long (trap_sp_off m) # Code (pc m) # env m # Val_long (extra_args m) # sp m;
         handle eff (accu m) (current m) p
           (m\<lparr>fibers := (fibers m)(current m := Some (f\<lparr>slots := s, parent := None\<rparr>))\<rparr>) } }"

text \<open>
  \<open>caml_continuation_use\<close>: take the stack out of a continuation. \<open>Inl\<close> is the state in which it was used
  already.
\<close>

definition continuation_use :: "val \<Rightarrow> machine \<Rightarrow> (machine + val \<times> machine) option" where
  "continuation_use cont m = do {
     v \<leftarrow> field m cont 0;
     m \<leftarrow> set_field m cont 0 (Val_long 0);
     Some (if v = Val_long 0 then Inl m else Inr (v, m)) }"

definition reperform :: "world \<Rightarrow> machine \<Rightarrow> control option" where
  "reperform W m = do {
     let eff = accu m;
     cont \<leftarrow> top m 0;
     x \<leftarrow> top m 1;
     cont_tail \<leftarrow> Ptr_val x;
     n \<leftarrow> opnd_nat m 0;
     m \<leftarrow> pop n m;
     let m = m\<lparr>sp := Val_long (trap_sp_off m) # Val_long (extra_args m) # sp m\<rparr>;
     f \<leftarrow> fibers m (current m);
     case parent f of
       None \<Rightarrow> do {
         let (exn, h, a) = unhandled_effect_exn W eff (heap m) (next_addr m);
         r \<leftarrow> continuation_use cont ((setup_for_c_call m)\<lparr>heap := h, next_addr := a\<rparr>);
         case r of
           Inl m \<Rightarrow> Some (c_raise (exn_already_resumed W) m)
         | Inr (v, m) \<Rightarrow> do {
             m \<leftarrow> restore_after_c_call (m\<lparr>accu := v\<rparr>);
             do_resume W (raise_unhandled_effect W) exn cont_tail m } }
     | Some p \<Rightarrow> do {
         t \<leftarrow> cont_tail;
         let fs = (fibers m)(current m := Some (f\<lparr>slots := sp m, parent := None\<rparr>));
         ft \<leftarrow> fs t;
         handle eff cont (current m) p (m\<lparr>fibers := fs(t := Some (ft\<lparr>parent := Some (current m)\<rparr>))\<rparr>) } }"

definition exec_control :: "world \<Rightarrow> control_op \<Rightarrow> machine \<Rightarrow> control option" where
  "exec_control W i m = (case i of
     STOP \<Rightarrow> Some (Return_value (accu m) (m\<lparr>trap_sp_off := initial_trap_sp_off W\<rparr>))
   | EVENT \<Rightarrow> None
   | BREAK \<Rightarrow> None
   | PERFORM \<Rightarrow> perform W m
   | RESUME \<Rightarrow> do {
       resume_fn \<leftarrow> top m 0;
       resume_arg \<leftarrow> top m 1;
       x \<leftarrow> top m 2;
       resume_tail \<leftarrow> Ptr_val x;
       do_resume W resume_fn resume_arg resume_tail
         (m\<lparr>sp := Val_long (trap_sp_off m) # Val_long 0 # Code (pc m) # env m # Val_long (extra_args m) # drop 3 (sp m)\<rparr>) }
   | RESUMETERM \<Rightarrow> do {
       resume_fn \<leftarrow> top m 0;
       resume_arg \<leftarrow> top m 1;
       x \<leftarrow> top m 2;
       resume_tail \<leftarrow> Ptr_val x;
       n \<leftarrow> opnd_nat m 0;
       m \<leftarrow> pop n m;
       do_resume W resume_fn resume_arg resume_tail
         (m\<lparr>sp := Val_long (trap_sp_off m) # Val_long (extra_args m) # sp m\<rparr>) }
   | REPERFORMTERM \<Rightarrow> reperform W m)"

section \<open>Execution\<close>

definition exec :: "world \<Rightarrow> instr \<Rightarrow> machine \<Rightarrow> control option" where
  "exec W i m = (case i of
     Stack_op i \<Rightarrow> exec_stack i m
   | Env_op i \<Rightarrow> exec_env i m
   | Apply_op i \<Rightarrow> exec_apply i m
   | Return_op i \<Rightarrow> exec_return i m
   | Closure_op i \<Rightarrow> exec_closure i m
   | Global_op i \<Rightarrow> exec_global i m
   | Block_op i \<Rightarrow> exec_block i m
   | Field_op i \<Rightarrow> exec_field i m
   | Array_op i \<Rightarrow> exec_array i m
   | Branch_op i \<Rightarrow> exec_branch i m
   | Trap_op i \<Rightarrow> exec_trap W i m
   | C_call_op i \<Rightarrow> exec_c_call W i m
   | Const_op i \<Rightarrow> exec_const i m
   | Arith_op i \<Rightarrow> exec_arith W i m
   | Compare_op i \<Rightarrow> exec_compare i m
   | Branch_compare_op i \<Rightarrow> exec_branch_compare i m
   | Offset_op i \<Rightarrow> exec_offset i m
   | Object_op i \<Rightarrow> exec_object i m
   | Control_op i \<Rightarrow> exec_control W i m)"

definition step :: "world \<Rightarrow> control \<Rightarrow> control option" where
  "step W c = (case c of
     Next m \<Rightarrow> do { n \<leftarrow> opnd m 0; i \<leftarrow> decode n; exec W i (skip 1 m) }
   | Check_stacks m \<Rightarrow> Some (check_stacks W m)
   | Raise_notrace m \<Rightarrow> raise_notrace W m
   | _ \<Rightarrow> Some c)"

definition start :: "nat \<Rightarrow> machine \<Rightarrow> control" where
  "start prog m = Next (m\<lparr>trap_sp_off := 1, pc := prog, extra_args := 0, env := Atom 0, accu := Val_long 0\<rparr>)"

primrec steps :: "world \<Rightarrow> nat \<Rightarrow> control \<Rightarrow> control option" where
  "steps W 0 c = Some c"
| "steps W (Suc n) c = do { c \<leftarrow> step W c; steps W n c }"

end
