(* ===== verification/Interp_Arith.thy ===== *)
theory Interp_Arith
  imports Interp
begin

text \<open>
  Integers of the bytecode machine: the arithmetic instructions, which work on the tagged 64-bit words
  directly, compute the integer operations modulo \<open>2\<^sup>6\<^sup>3\<close>, the comparisons compare the integers, and a
  division by zero raises.
\<close>

unbundle bit_operations_syntax

lemma Val_long_Imm: "Val_long n = Imm (word_of_int (2 * n + 1))"
  by (simp add: Val_long_def push_bit_eq_mult ac_simps)

lemma odd_mod: "(2 * n + 1) mod 2 ^ 64 = 2 * (n mod 2 ^ 63) + (1 :: int)"
  using pos_zmod_mult_2 [of "2 ^ 63" n] by (simp add: ac_simps)

lemma drop_bit_signed: "drop_bit 1 (signed_take_bit 63 (2 * n + 1)) = signed_take_bit 62 (n :: int)"
proof -
  have "(2 * n + 1 + 2 ^ 63) mod 2 ^ 64 = 2 * ((n + 2 ^ 62) mod 2 ^ 63) + (1 :: int)"
    using odd_mod [of "n + 2 ^ 62"] by (simp add: algebra_simps)
  then show ?thesis
    by (simp add: signed_take_bit_eq_take_bit_shift take_bit_eq_mod drop_bit_eq_div)
qed

lemma long_word_of_int: "long (word_of_int (2 * n + 1)) = signed_take_bit 62 n"
  unfolding drop_bit_signed [symmetric] long_def sint_signed_drop_bit_eq
  by (simp only: sint_sbintrunc' flip: of_int_of_nat_eq) simp

lemma bit_tagged: "bit (2 * x + 1 :: int) n \<longleftrightarrow> n = 0 \<or> bit x (n - 1)"
  by (cases n) (simp_all add: bit_Suc bit_0)

lemma tagged_and: "(2 * x + 1) AND (2 * y + 1) = 2 * (x AND y) + (1 :: int)"
  by (rule bit_eqI) (auto simp: bit_and_iff bit_tagged)
lemma tagged_or: "(2 * x + 1) OR (2 * y + 1) = 2 * (x OR y) + (1 :: int)"
  by (rule bit_eqI) (auto simp: bit_or_iff bit_tagged)
lemma tagged_xor: "((2 * x + 1) XOR (2 * y + 1)) OR 1 = 2 * (x XOR y) + (1 :: int)"
  by (rule bit_eqI) (auto simp: bit_or_iff bit_xor_iff bit_tagged bit_1_iff)

lemma Val_long_eq_iff: "Val_long a = Val_long b \<longleftrightarrow> signed_take_bit 62 a = signed_take_bit 62 b"
proof
  assume "Val_long a = Val_long b"
  then show "signed_take_bit 62 a = signed_take_bit 62 b"
    unfolding Val_long_Imm by (metis long_word_of_int val.inject(1))
next
  assume "signed_take_bit 62 a = signed_take_bit 62 b"
  then have "a mod 2 ^ 63 = b mod 2 ^ 63" by (simp add: signed_take_bit_eq_iff_take_bit_eq take_bit_eq_mod)
  then have "(2 * a + 1) mod 2 ^ 64 = (2 * b + 1) mod 2 ^ 64" by (simp only: odd_mod)
  then show "Val_long a = Val_long b" unfolding Val_long_Imm val.inject
    by (intro word_of_int_eq_iff [THEN iffD2]) (simp add: take_bit_eq_mod)
qed

definition int63 :: "int \<Rightarrow> bool" where
  "int63 n \<longleftrightarrow> - (2 ^ 62) \<le> n \<and> n < 2 ^ 62"

lemma signed_take_bit_int63: "int63 n \<Longrightarrow> signed_take_bit 62 n = n"
  by (simp add: int63_def signed_take_bit_int_eq_self)

lemma Long_val_long: "Long_val (Val_long n) = Some (signed_take_bit 62 n)"
  using long_word_of_int [of n] by (simp add: Val_long_Imm Long_val_def long_def)

lemma Long_val_Val_long [simp]: "int63 n \<Longrightarrow> Long_val (Val_long n) = Some n"
  by (simp add: Long_val_long signed_take_bit_int63)

lemma imm_Val_long [simp]: "imm (Val_long n) = Some (word_of_int (2 * n + 1))"
  by (simp add: Val_long_Imm imm_def)

text \<open>The integer operation that each instruction implements; \<open>None\<close> where the language leaves the result open.\<close>

definition int63_op :: "arith_op \<Rightarrow> int \<Rightarrow> int \<Rightarrow> int option" where
  "int63_op i x y = (case i of
     NEGINT \<Rightarrow> None
   | ADDINT \<Rightarrow> Some (x + y)
   | SUBINT \<Rightarrow> Some (x - y)
   | MULINT \<Rightarrow> Some (x * y)
   | DIVINT \<Rightarrow> if y = 0 then None else Some (x sdiv y)
   | MODINT \<Rightarrow> if y = 0 then None else Some (x smod y)
   | ANDINT \<Rightarrow> Some (x AND y)
   | ORINT \<Rightarrow> Some (x OR y)
   | XORINT \<Rightarrow> Some (x XOR y)
   | LSLINT \<Rightarrow> if 0 \<le> y \<and> y < 64 then Some (x * 2 ^ nat y) else None
   | LSRINT \<Rightarrow> if 0 \<le> y \<and> y < 64 then Some ((x mod 2 ^ 63) div 2 ^ nat y) else None
   | ASRINT \<Rightarrow> if 0 \<le> y \<and> y < 64 then Some (x div 2 ^ nat y) else None)"

lemma tagged_lsr:
  "(drop_bit n (word_of_int (2 * x + 1)) OR 1 :: u64) = word_of_int (2 * ((x mod 2 ^ 63) div 2 ^ n) + 1)"
proof -
  have "(drop_bit n (take_bit 64 (2 * x + 1))) OR 1 = 2 * drop_bit n (take_bit 63 x) + (1 :: int)"
    by (rule bit_eqI) (auto simp: bit_or_iff bit_tagged bit_drop_bit_eq bit_take_bit_iff bit_1_iff)
  moreover have d: "drop_bit n (word_of_int z :: u64) = word_of_int (drop_bit n (take_bit 64 z))" for z
    by (rule bit_word_eqI) (auto simp: bit_simps)
  have "(drop_bit n (word_of_int (2 * x + 1)) OR 1 :: u64) = word_of_int (drop_bit n (take_bit 64 (2 * x + 1)) OR 1)"
    by (simp only: d of_int_or_eq of_int_1)
  ultimately show ?thesis by (simp only: drop_bit_eq_div take_bit_eq_mod)
qed

lemma tagged_asr:
  assumes "int63 x"
  shows "(signed_drop_bit n (word_of_int (2 * x + 1)) OR 1 :: u64) = word_of_int (2 * (x div 2 ^ n) + 1)"
proof -
  have r: "- (2 ^ 63) \<le> 2 * x + 1" "2 * x + 1 < 2 ^ 63" using assms by (simp_all add: int63_def)
  have "sint (word_of_int (2 * x + 1) :: u64) = 2 * x + 1"
    using r by (simp only: sint_sbintrunc') (simp add: signed_take_bit_int_eq_self)
  then have "sint (signed_drop_bit n (word_of_int (2 * x + 1) :: u64)) = drop_bit n (2 * x + 1)"
    by (simp only: sint_signed_drop_bit_eq)
  from arg_cong [OF this, of "word_of_int :: int \<Rightarrow> u64"]
  have d: "signed_drop_bit n (word_of_int (2 * x + 1) :: u64) = word_of_int (drop_bit n (2 * x + 1))"
    by (simp only: of_int_sint scast_id)
  have "(signed_drop_bit n (word_of_int (2 * x + 1)) OR 1 :: u64) = word_of_int (drop_bit n (2 * x + 1) OR 1)"
    by (simp only: d of_int_or_eq of_int_1)
  moreover have "drop_bit n (2 * x + 1) OR 1 = 2 * drop_bit n x + (1 :: int)"
    by (rule bit_eqI, rename_tac k, case_tac k) (auto simp: bit_or_iff bit_tagged bit_drop_bit_eq bit_1_iff)
  ultimately show ?thesis by (simp only: drop_bit_eq_div)
qed

lemma tagged_lsl: "push_bit n (word_of_int (2 * x + 1) - 1) + (1 :: u64) = word_of_int (2 * (x * 2 ^ n) + 1)"
  by (simp add: push_bit_eq_mult ac_simps)

lemma tagged_add:
  "word_of_int (2 * x + 1) + word_of_int (2 * y + 1) - (1 :: u64) = word_of_int (2 * x + 2 * y + 1)"
  "word_of_int (2 * x + 1) - word_of_int (2 * y + 1) + (1 :: u64) = word_of_int (2 * x - 2 * y + 1)"
  by (simp_all add: ac_simps)

lemma tagged_bitwise:
  "(word_of_int (2 * x + 1) AND word_of_int (2 * y + 1) :: u64) = word_of_int (2 * (x AND y) + 1)"
  "(word_of_int (2 * x + 1) OR word_of_int (2 * y + 1) :: u64) = word_of_int (2 * (x OR y) + 1)"
  "((word_of_int (2 * x + 1) XOR word_of_int (2 * y + 1)) OR 1 :: u64) = word_of_int (2 * (x XOR y) + 1)"
  using tagged_and [of x y] tagged_or [of x y] tagged_xor [of x y]
  by (metis of_int_1 of_int_and_eq of_int_or_eq of_int_xor_eq)+

lemma long_tagged: "int63 n \<Longrightarrow> long (word_of_int (2 * n + 1)) = n"
  by (simp only: long_word_of_int signed_take_bit_int63)

lemma binary_eq:
  assumes "accu m = Val_long x" "sp m = Val_long y # s"
    and "f (word_of_int (2 * x + 1)) (word_of_int (2 * y + 1)) = Some v"
  shows "binary f m = Some (Next (m\<lparr>sp := s, accu := v\<rparr>))"
  using assms by (simp add: binary_def top_def pop_def rd_Some guard_def)

lemma sint_tagged: "int63 x \<Longrightarrow> sint (word_of_int (2 * x + 1) :: u64) = 2 * x + 1"
  by (simp only: sint_sbintrunc') (simp add: signed_take_bit_int_eq_self int63_def)

lemma uint_tagged: "uint (word_of_int (2 * x + 1) :: u64) = 2 * (x mod 2 ^ 63) + 1"
  using odd_mod [of x] by (simp only: uint_word_of_int_eq) (simp add: take_bit_eq_mod)

lemma Val_long_inject: "int63 x \<Longrightarrow> int63 y \<Longrightarrow> Val_long x = Val_long y \<longleftrightarrow> x = y"
  by (simp add: Val_long_eq_iff signed_take_bit_int63)

definition int63_compare :: "compare_op \<Rightarrow> int \<Rightarrow> int \<Rightarrow> bool" where
  "int63_compare i x y = (case i of
     EQ \<Rightarrow> x = y | NEQ \<Rightarrow> x \<noteq> y | LTINT \<Rightarrow> x < y | LEINT \<Rightarrow> x \<le> y | GTINT \<Rightarrow> x > y | GEINT \<Rightarrow> x \<ge> y
   | ULTINT \<Rightarrow> x mod 2 ^ 63 < y mod 2 ^ 63 | UGEINT \<Rightarrow> x mod 2 ^ 63 \<ge> y mod 2 ^ 63)"

lemma compare_tagged:
  assumes "int63 x" "int63 y"
  shows "compare i (Val_long x) (Val_long y) = Some (int63_compare i x y)"
proof -
  have "sint (word_of_int (2 * x + 1) :: u64) < sint (word_of_int (2 * y + 1) :: u64) \<longleftrightarrow> x < y"
    "sint (word_of_int (2 * y + 1) :: u64) < sint (word_of_int (2 * x + 1) :: u64) \<longleftrightarrow> y < x"
    "sint (word_of_int (2 * x + 1) :: u64) \<le> sint (word_of_int (2 * y + 1) :: u64) \<longleftrightarrow> x \<le> y"
    "sint (word_of_int (2 * y + 1) :: u64) \<le> sint (word_of_int (2 * x + 1) :: u64) \<longleftrightarrow> y \<le> x"
    by (simp_all only: sint_tagged [OF assms(1)] sint_tagged [OF assms(2)]) arith+
  moreover have "(word_of_int (2 * x + 1) :: u64) < word_of_int (2 * y + 1) \<longleftrightarrow> x mod 2 ^ 63 < y mod 2 ^ 63"
    "(word_of_int (2 * y + 1) :: u64) \<le> word_of_int (2 * x + 1) \<longleftrightarrow> y mod 2 ^ 63 \<le> x mod 2 ^ 63"
    by (simp_all only: word_less_def word_le_def uint_tagged) linarith+
  ultimately show ?thesis
    using Val_long_inject [OF assms] unfolding compare_def int63_compare_def imm_Val_long
    by (cases i) (simp_all only: compare_op.case Option.bind.simps word_sless_alt word_sle_eq not_le not_less not_False_eq_True)
qed

lemma int63_mod:
  assumes "int63 n"
  shows "n mod 2 ^ 64 = (if 0 \<le> n then n else n + 2 ^ 64)" "n mod 2 ^ 63 = (if 0 \<le> n then n else n + 2 ^ 63)"
proof -
  have "n mod M = (if 0 \<le> n then n else n + M)" if "2 ^ 62 \<le> M" for M
  proof (cases "0 \<le> n")
    case True
    with assms that show ?thesis by (simp add: int63_def)
  next
    case False
    with assms that have "(n + M) mod M = n + M" by (intro mod_pos_pos_trivial) (simp_all add: int63_def)
    with False show ?thesis by simp
  qed
  then show "n mod 2 ^ 64 = (if 0 \<le> n then n else n + 2 ^ 64)" "n mod 2 ^ 63 = (if 0 \<le> n then n else n + 2 ^ 63)"
    by simp_all
qed

lemma branch_test:
  assumes "int63 n" "int63 x"
  shows "(case i of EQ \<Rightarrow> n = x | NEQ \<Rightarrow> n \<noteq> x | LTINT \<Rightarrow> n < x | LEINT \<Rightarrow> n \<le> x | GTINT \<Rightarrow> x < n | GEINT \<Rightarrow> x \<le> n
     | ULTINT \<Rightarrow> (word_of_int n :: u64) < word_of_int x
     | UGEINT \<Rightarrow> (word_of_int x :: u64) \<le> word_of_int n) = int63_compare i n x"
proof -
  have "n mod 2 ^ 64 < x mod 2 ^ 64 \<longleftrightarrow> n mod 2 ^ 63 < x mod 2 ^ 63"
    unfolding int63_mod [OF assms(1)] int63_mod [OF assms(2)] using assms by (simp add: int63_def)
  then show ?thesis
    by (cases i) (simp_all add: int63_compare_def word_less_def word_le_def uint_word_of_int_eq take_bit_eq_mod not_less [symmetric])
qed

definition sample_world :: world where
  "sample_world = \<lparr>prim = (\<lambda>p args h a. Returns (hd args) h a), stack_fits = (\<lambda>n. n < 1000), backtrace_active = False,
     exn_stack_overflow = Atom 1, exn_zero_divide = Atom 2, exn_already_resumed = Atom 3,
     unhandled_effect_exn = (\<lambda>v h a. (Atom 4, h, a)), raise_unhandled_effect = Atom 5,
     initial_trap_sp_off = 1, initial_stack_words = 0\<rparr>"

definition sample_machine :: "int list \<Rightarrow> val \<Rightarrow> val list \<Rightarrow> machine" where
  "sample_machine c v s = \<lparr>pc = 0, accu = v, env = Atom 0, extra_args = 0, sp = s, trap_sp_off = 1, current = 0,
     fibers = (\<lambda>_. None), heap = (\<lambda>_. None), next_addr = 0, code = c, global_data = Val_unit\<rparr>"

text \<open>
  C20. On tagged integers \<open>x\<close> (in \<open>accu\<close>) and \<open>y\<close> (on the stack) every two-operand arithmetic instruction of the
  bytecode machine goes on with the tagged result of the integer operation, reduced to 63 bits, in
  \<open>accu\<close>, pops the stack and changes nothing else.
\<close>

theorem exec_arith_correct:
  assumes "accu m = Val_long x" "sp m = Val_long y # s" "int63 x" "int63 y" "int63_op i x y = Some r"
  shows "exec_arith W i m = Some (Next (m\<lparr>sp := s, accu := Val_long r\<rparr>)) \<and>
         Long_val (Val_long r) = Some (signed_take_bit 62 r)"
proof -
  note tagged = long_tagged [OF assms(3)] long_tagged [OF assms(4)] tagged_lsl tagged_lsr tagged_asr [OF assms(3)] tagged_bitwise tagged_add
  have "exec_arith W i m = Some (Next (m\<lparr>sp := s, accu := Val_long r\<rparr>))"
  proof (cases "i = DIVINT \<or> i = MODINT")
    case True
    with assms show ?thesis
      by (auto simp: exec_arith_def division_def int63_op_def top_def pop_def rd_Some guard_def split: if_splits)
  next
    case False
    have ex: "\<exists>f. exec_arith W i m = binary f m \<and> f (word_of_int (2 * x + 1)) (word_of_int (2 * y + 1)) = Some (Val_long r)"
      using False assms(5)
      by (cases i) (auto simp: exec_arith_def int63_op_def shift_def guard_def Val_long_Imm tagged
            simp del: of_int_add of_int_mult split: if_splits intro!: exI)
    then show ?thesis using binary_eq [OF assms(1,2)] by metis
  qed
  then show ?thesis by (simp add: Long_val_long)
qed


theorem exec_arith_correct_witness:
  "let m = sample_machine [] (Val_long (2 ^ 62 - 1)) [Val_long 1, Val_long 5]
   in exec_arith sample_world ADDINT m = Some (Next (m\<lparr>sp := [Val_long 5], accu := Val_long (2 ^ 62)\<rparr>)) \<and>
      Long_val (Val_long (2 ^ 62)) = Some (- (2 ^ 62))"
proof -
  have "signed_take_bit 62 (2 ^ 62 :: int) = - (2 ^ 62)"
    by (simp add: signed_take_bit_eq_take_bit_shift take_bit_eq_mod)
  then show ?thesis
    using exec_arith_correct [where x = "2 ^ 62 - 1" and y = 1 and i = ADDINT and r = "2 ^ 62" and s = "[Val_long 5]"
        and m = "sample_machine [] (Val_long (2 ^ 62 - 1)) [Val_long 1, Val_long 5]" and W = sample_world]
    by (simp add: Let_def int63_def int63_op_def sample_machine_def)
qed

text \<open>
  C21. The comparison instructions compare the integers behind the tags (as signed 63-bit numbers, the two
  unsigned comparisons modulo \<open>2\<^sup>6\<^sup>3\<close>), and the compare-and-branch instructions take the branch, relative to the
  offset's own address, exactly when the comparison of the operand with the integer in \<open>accu\<close> holds.
\<close>

theorem exec_compare_correct:
  assumes "accu m = Val_long x" "sp m = Val_long y # s" "int63 x" "int63 y" "opnd m 0 = Some n" "int63 n"
    and "opnd m 1 = Some d" "0 \<le> int (pc m) + 1 + d"
  shows "exec_compare i m = Some (Next (m\<lparr>sp := s, accu := Val_bool (int63_compare i x y)\<rparr>)) \<and>
         exec_branch_compare i m = Some (Next (m\<lparr>pc :=
           if int63_compare i n x then nat (int (pc m) + 1 + d) else pc m + 2\<rparr>))"
proof -
  have "exec_compare i m = Some (Next (m\<lparr>sp := s, accu := Val_bool (int63_compare i x y)\<rparr>))"
    using assms by (simp add: exec_compare_def top_def pop_def rd_Some guard_def compare_tagged)
  moreover have "exec_branch_compare i m = Some (Next (m\<lparr>pc :=
      if int63_compare i n x then nat (int (pc m) + 1 + d) else pc m + 2\<rparr>))"
    using assms by (simp add: exec_branch_compare_def branch_test branch_def target_def opnd_def guard_def)
  ultimately show ?thesis ..
qed

theorem exec_compare_correct_witness:
  "let m = sample_machine [-4, 9] (Val_long (-4)) [Val_long 1]
   in exec_compare ULTINT m = Some (Next (m\<lparr>sp := [], accu := Val_bool False\<rparr>)) \<and>
      exec_branch_compare ULTINT m = Some (Next (m\<lparr>pc := 2\<rparr>))"
  using exec_compare_correct [where x = "-4" and y = 1 and i = ULTINT and s = "[]" and n = "-4" and d = 9
        and m = "sample_machine [-4, 9] (Val_long (-4)) [Val_long 1]"]
  by (simp add: Let_def int63_def int63_compare_def sample_machine_def opnd_def rd_Some)

end
