(* ===== verification/Interp_Calls.thy ===== *)
theory Interp_Calls
  imports Interp_Arith
begin

text \<open>
  Calls, partial application, exceptions and effects of the bytecode machine: every frame that an
  instruction pushes is taken back by its counterpart with the registers it saved.
\<close>

lemmas access_defs = top_def pop_def rd_Some guard_def opnd_def opnd_nat_def target_def

lemmas enter_defs = call_accu_def enter_accu_def

text \<open>Reading a block depends on the heap only.\<close>

lemma field_updates [simp]:
  "field (m\<lparr>pc := a\<rparr>) = field m" "field (m\<lparr>accu := b\<rparr>) = field m" "field (m\<lparr>env := b\<rparr>) = field m"
  "field (m\<lparr>extra_args := c\<rparr>) = field m" "field (m\<lparr>sp := d\<rparr>) = field m" "field (m\<lparr>trap_sp_off := c\<rparr>) = field m"
  "field (m\<lparr>current := a\<rparr>) = field m" "field (m\<lparr>fibers := f\<rparr>) = field m" "field (m\<lparr>code := g\<rparr>) = field m"
  by (simp_all add: field_def fun_eq_iff cong: val.case_cong)

lemma code_val_updates [simp]:
  "code_val (m\<lparr>pc := a\<rparr>) = code_val m" "code_val (m\<lparr>accu := b\<rparr>) = code_val m" "code_val (m\<lparr>env := b\<rparr>) = code_val m"
  "code_val (m\<lparr>extra_args := c\<rparr>) = code_val m" "code_val (m\<lparr>sp := d\<rparr>) = code_val m"
  "code_val (m\<lparr>trap_sp_off := c\<rparr>) = code_val m" "code_val (m\<lparr>current := a\<rparr>) = code_val m"
  "code_val (m\<lparr>fibers := f\<rparr>) = code_val m" "code_val (m\<lparr>code := g\<rparr>) = code_val m"
  by (simp_all add: code_val_def fun_eq_iff)

section \<open>Tail calls\<close>

lemma slide_loop:
  assumes "d + n \<le> length s"
  shows "\<exists>r. for_down 0 n (\<lambda>i s. do { v \<leftarrow> rd s i; wr s (d + i) v }) s = Some r \<and>
             length r = length s \<and> drop d r = take n s @ drop (d + n) s"
  using assms
proof (induction n arbitrary: s)
  case 0
  then show ?case by (simp add: for_down_def)
next
  case (Suc n)
  let ?s = "s[d + n := s ! n]"
  from Suc.prems obtain r where r: "for_down 0 n (\<lambda>i s. do { v \<leftarrow> rd s i; wr s (d + i) v }) ?s = Some r"
    "length r = length ?s" "drop d r = take n ?s @ drop (d + n) ?s"
    using Suc.IH [of ?s] by auto
  have "drop (d + n) ?s = s ! n # drop (d + Suc n) s"
    using Suc.prems by (metis Cons_nth_drop_Suc Suc_le_lessD add_Suc_right drop_update_cancel length_list_update lessI nth_list_update_eq)
  then have "drop d r = take (Suc n) s @ drop (d + Suc n) s"
    using r(3) Suc.prems by (simp add: take_Suc_conv_app_nth)
  with r(1,2) Suc.prems show ?case by (simp add: for_down_def rd_Some wr_def)
qed

lemma slide_eq: "d + n \<le> length s \<Longrightarrow> slide n d s = Some (take n s @ drop (d + n) s)"
  using slide_loop [of d n s] by (auto simp: slide_def guard_def)



section \<open>Calls and returns\<close>

definition apply_instr :: "nat \<Rightarrow> apply_op" where
  "apply_instr n = (if n = 1 then APPLY1 else if n = 2 then APPLY2 else APPLY3)"

text \<open>
  C23. A call \<open>APPLY1\<close> to \<open>APPLY3\<close> enters the closure with its arguments on top of a return frame; when the callee,
  whatever it did, executes \<open>RETURN\<close> with no extra argument left and with its locals on top of that frame, the
  machine is back after the call with the caller's environment, extra arguments and stack.
\<close>

theorem call_return:
  assumes "1 \<le> n" "n \<le> 3" "sp m = args @ s" "length args = n" "code_val m (accu m) = Some p" "int63 (extra_args m)"
    and "sp m' = locals @ [Code (pc m), env m, Val_long (extra_args m)] @ s"
    and "opnd m' 0 = Some (int (length locals))" "extra_args m' = 0"
  shows "exec_apply (apply_instr n) m = Some (Check_stacks (m\<lparr>pc := p, env := accu m, extra_args := int n - 1,
           sp := args @ [Code (pc m), env m, Val_long (extra_args m)] @ s\<rparr>)) \<and>
         exec_return RETURN m' = Some (Next (m'\<lparr>pc := pc m, env := env m, extra_args := extra_args m, sp := s\<rparr>))"
proof
  have "exec_apply (apply_instr n) m = applyn n m"
    using assms(1,2) by (auto simp: exec_apply_def apply_instr_def numeral_eq_Suc le_Suc_eq)
  then show "exec_apply (apply_instr n) m = Some (Check_stacks (m\<lparr>pc := p, env := accu m, extra_args := int n - 1,
           sp := args @ [Code (pc m), env m, Val_long (extra_args m)] @ s\<rparr>))"
    using assms(3-5) by (simp add: applyn_def enter_defs guard_def)
  show "exec_return RETURN m' = Some (Next (m'\<lparr>pc := pc m, env := env m, extra_args := extra_args m, sp := s\<rparr>))"
    using assms(6-9) by (simp add: exec_return_def do_return_def opnd_nat_def guard_def pop_def top_def rd_Some)
qed

theorem call_return_witness:
  "let m = (sample_machine [] (Ptr 0 0) [Val_long 7, Val_long 8])\<lparr>pc := 5, heap := [0 \<mapsto> Fields Closure_tag [Code 9, Make_closinfo 0 2]]\<rparr>;
       m' = m\<lparr>pc := 11, sp := [Val_long 1, Val_long 2, Code 5, Atom 0, Val_long 0, Val_long 8],
              code := replicate 11 0 @ [2]\<rparr>
   in exec_apply APPLY1 m = Some (Check_stacks (m\<lparr>pc := 9, env := Ptr 0 0, extra_args := 0,
        sp := [Val_long 7, Code 5, Atom 0, Val_long 0, Val_long 8]\<rparr>)) \<and>
      exec_return RETURN m' = Some (Next (m'\<lparr>pc := 5, env := Atom 0, extra_args := 0, sp := [Val_long 8]\<rparr>))"
  using call_return [where n = 1 and args = "[Val_long 7]" and s = "[Val_long 8]" and p = 9 and locals = "[Val_long 1, Val_long 2]"
      and m = "(sample_machine [] (Ptr 0 0) [Val_long 7, Val_long 8])\<lparr>pc := 5, heap := [0 \<mapsto> Fields Closure_tag [Code 9, Make_closinfo 0 2]]\<rparr>"
      and m' = "(sample_machine (replicate 11 0 @ [2]) (Ptr 0 0) [Val_long 1, Val_long 2, Code 5, Atom 0, Val_long 0, Val_long 8])
        \<lparr>pc := 11, heap := [0 \<mapsto> Fields Closure_tag [Code 9, Make_closinfo 0 2]]\<rparr>"]
  by (simp add: Let_def sample_machine_def opnd_def rd_Some code_val_def field_def int63_def apply_instr_def nth_append)

section \<open>Partial application\<close>

lemma those_map_Some: "(\<And>x. x \<in> set xs \<Longrightarrow> f x = Some (g x)) \<Longrightarrow> those (map f xs) = Some (map g xs)"
  by (induction xs) auto

lemma step_Next:
  "opnd m 0 = Some n \<Longrightarrow> decode n = Some i \<Longrightarrow> step W (Next m) = exec W i (skip 1 m)"
  by (simp add: step_def)

lemma restart_step:
  assumes "env m = Ptr a 0" "heap m a = Some (Fields Closure_tag (c # i # e # args))"
  shows "exec_return RESTART m = Some (Next (m\<lparr>sp := args @ sp m, env := e, extra_args := extra_args m + int (length args)\<rparr>))"
proof -
  have f: "field m (Ptr a 0) k = rd (c # i # e # args) k" for k using assms by (simp add: field_def)
  have "those (map (\<lambda>i. field m (Ptr a 0) (i + 3)) [0..<length args]) = Some (map (\<lambda>i. args ! i) [0..<length args])"
    by (rule those_map_Some) (simp add: f rd_Some nth_Cons')
  then show ?thesis
    using assms by (simp add: exec_return_def wosize_val_def guard_def f rd_Some map_nth)
qed

lemma decode_return: "decode 41 = Some (Return_op RESTART)" "decode 42 = Some (Return_op GRAB)"
  by (simp_all add: decode_def instructions_def rd_Some guard_def)

lemma grab_few:
  assumes "opnd m 0 = Some required" "3 \<le> pc m + 1" "sp m = args @ [Code ret, e, Val_long x] @ s"
    "extra_args m = int (length args) - 1" "extra_args m < required" "int63 x"
  shows "exec_return GRAB m = Some (Next ((alloc (Fields Closure_tag (Code (pc m - 2) # Make_closinfo 0 2 # env m # args)) m)
           \<lparr>pc := ret, env := e, extra_args := x, sp := s\<rparr>))"
  using assms by (simp add: exec_return_def alloc_def pop_def top_def do_return_def guard_def rd_Some Let_def)

lemma grab_enough:
  assumes "opnd m 0 = Some required" "required \<le> extra_args m"
  shows "exec_return GRAB m = Some (Next (m\<lparr>pc := pc m + 1, extra_args := extra_args m - required\<rparr>))"
  using assms by (simp add: exec_return_def)

text \<open>
  C17. A function whose code starts with \<open>RESTART; GRAB required\<close> and which gets fewer arguments than it needs returns
  a closure; when this closure is called later with enough arguments, \<open>RESTART\<close> and \<open>GRAB\<close> go on after the \<open>GRAB\<close>
  with the function's own environment, with all the arguments, first to last, on the stack and the surplus
  counted as extra arguments.
\<close>

theorem partial_application:
  assumes code: "opnd m 0 = Some 42" "opnd m 1 = Some required" "1 \<le> pc m"
    and few: "sp m = args @ [Code ret, e, Val_long x] @ s" "extra_args m = int (length args) - 1"
      "extra_args m < required" "int63 x"
    and later: "heap m' (next_addr m) = Some (Fields Closure_tag (Code (pc m - 1) # Make_closinfo 0 2 # env m # args))"
      "pc m' = pc m - 1" "code m' = code m" "opnd m' 0 = Some 41" "env m' = Ptr (next_addr m) 0"
      "sp m' = args' @ s'" "extra_args m' = int (length args') - 1" "required < int (length args + length args')"
  shows "step W (Next m) = Some (Next ((alloc (Fields Closure_tag (Code (pc m - 1) # Make_closinfo 0 2 # env m # args)) m)
             \<lparr>pc := ret, env := e, extra_args := x, sp := s\<rparr>)) \<and>
         steps W 2 (Next m') = Some (Next (m'\<lparr>pc := pc m + 2, env := env m, sp := args @ args' @ s',
             extra_args := int (length args + length args') - 1 - required\<rparr>))"
proof
  let ?m = "skip 1 m"
  have "opnd ?m 0 = Some required" using code(2) by (simp add: opnd_def)
  from grab_few [OF this, of args ret e x s] code(3) few
  have "exec_return GRAB ?m = Some (Next ((alloc (Fields Closure_tag (Code (pc m - 1) # Make_closinfo 0 2 # env m # args)) m)
      \<lparr>pc := ret, env := e, extra_args := x, sp := s\<rparr>))" by (simp add: alloc_def)
  then show "step W (Next m) = Some (Next ((alloc (Fields Closure_tag (Code (pc m - 1) # Make_closinfo 0 2 # env m # args)) m)
             \<lparr>pc := ret, env := e, extra_args := x, sp := s\<rparr>))"
    using step_Next [OF code(1) decode_return(2)] by (simp add: exec_def)
  let ?m1 = "skip 1 m'\<lparr>sp := args @ args' @ s', env := env m, extra_args := int (length args') - 1 + int (length args)\<rparr>"
  have 1: "step W (Next m') = Some (Next ?m1)"
    using step_Next [OF later(4) decode_return(1)] restart_step [of "skip 1 m'" "next_addr m"] later(1,5,6,7)
    by (simp add: exec_def)
  have ops: "opnd ?m1 0 = Some 42" "opnd (skip 1 ?m1) 0 = Some required"
    using code later(2,3) by (simp_all add: opnd_def)
  have "step W (Next ?m1) = Some (Next (m'\<lparr>pc := pc m + 2, env := env m, sp := args @ args' @ s',
             extra_args := int (length args + length args') - 1 - required\<rparr>))"
    using step_Next [OF ops(1) decode_return(2)] grab_enough [OF ops(2)] later(2,8) code(3)
    by (simp add: exec_def algebra_simps)
  with 1 show "steps W 2 (Next m') = Some (Next (m'\<lparr>pc := pc m + 2, env := env m, sp := args @ args' @ s',
             extra_args := int (length args + length args') - 1 - required\<rparr>))"
    by (simp add: numeral_2_eq_2)
qed

theorem partial_application_witness:
  "let m = (sample_machine [41, 42, 1] (Atom 0) [Val_long 7, Code 30, Atom 1, Val_long 0, Val_long 8])\<lparr>pc := 1\<rparr>;
       clos = Fields Closure_tag [Code 0, Make_closinfo 0 2, Atom 0, Val_long 7];
       m' = (sample_machine [41, 42, 1] (Ptr 0 0) [Val_long 9])\<lparr>env := Ptr 0 0, heap := [0 \<mapsto> clos]\<rparr>
   in step sample_world (Next m) = Some (Next ((alloc clos m)\<lparr>pc := 30, env := Atom 1, extra_args := 0, sp := [Val_long 8]\<rparr>)) \<and>
      steps sample_world 2 (Next m') = Some (Next (m'\<lparr>pc := 3, env := Atom 0, sp := [Val_long 7, Val_long 9], extra_args := 0\<rparr>))"
  using partial_application [where args = "[Val_long 7]" and ret = 30 and e = "Atom 1" and x = 0 and s = "[Val_long 8]"
      and required = 1 and args' = "[Val_long 9]" and s' = "[]" and W = sample_world
      and m = "(sample_machine [41, 42, 1] (Atom 0) [Val_long 7, Code 30, Atom 1, Val_long 0, Val_long 8])\<lparr>pc := 1\<rparr>"
      and m' = "(sample_machine [41, 42, 1] (Ptr 0 0) [Val_long 9])\<lparr>env := Ptr 0 0,
        heap := [0 \<mapsto> Fields Closure_tag [Code 0, Make_closinfo 0 2, Atom 0, Val_long 7]]\<rparr>"]
  by (simp add: Let_def sample_machine_def opnd_def rd_Some int63_def alloc_def del: steps.simps)

section \<open>Exceptions\<close>

text \<open>
  C19. \<open>PUSHTRAP\<close> installs a handler: an exception raised later, with any words pushed since, goes to the handler with
  the stack, environment, extra arguments and enclosing trap of the time of the \<open>PUSHTRAP\<close> and the exception in
  \<open>accu\<close>; \<open>POPTRAP\<close> removes the frame and reinstates the enclosing trap.
\<close>

theorem trap_frame:
  assumes "opnd m 0 = Some d" "0 \<le> int (pc m) + d" "int63 (trap_sp_off m)" "int63 (extra_args m)"
  shows "\<exists>m1. exec_trap W PUSHTRAP m = Some (Next m1) \<and> pc m1 = pc m + 1 \<and> accu m1 = accu m \<and>
           (\<forall>m2 xs. sp m2 = xs @ sp m1 \<and> trap_sp_off m2 = trap_sp_off m1 \<longrightarrow>
              raise_notrace W m2 = Some (Next (m2\<lparr>pc := nat (int (pc m) + d), sp := sp m, env := env m,
                 extra_args := extra_args m, trap_sp_off := trap_sp_off m\<rparr>))) \<and>
           (\<forall>m2. sp m2 = sp m1 \<longrightarrow>
              exec_trap W POPTRAP m2 = Some (Next (m2\<lparr>sp := sp m, trap_sp_off := trap_sp_off m\<rparr>)))"
proof -
  let ?s = "Code (nat (int (pc m) + d)) # Val_long (trap_sp_off m) # env m # Val_long (extra_args m) # sp m"
  let ?m1 = "skip 1 m\<lparr>sp := ?s, trap_sp_off := - int (length ?s)\<rparr>"
  have "exec_trap W PUSHTRAP m = Some (Next ?m1)"
    using assms by (simp add: exec_trap_def target_def guard_def)
  moreover have "raise_notrace W m2 = Some (Next (m2\<lparr>pc := nat (int (pc m) + d), sp := sp m, env := env m,
                 extra_args := extra_args m, trap_sp_off := trap_sp_off m\<rparr>))"
    if "sp m2 = xs @ sp ?m1" "trap_sp_off m2 = trap_sp_off ?m1" for m2 xs
    using that assms by (simp add: raise_notrace_def guard_def pop_def top_def rd_Some numeral_eq_Suc nat_add_distrib Let_def)
  moreover have "exec_trap W POPTRAP m2 = Some (Next (m2\<lparr>sp := sp m, trap_sp_off := trap_sp_off m\<rparr>))"
    if "sp m2 = sp ?m1" for m2
    using that assms by (simp add: exec_trap_def guard_def pop_def top_def rd_Some)
  ultimately show ?thesis by (intro exI [of _ ?m1]) auto
qed


theorem trap_frame_witness:
  "\<exists>m1. exec_trap sample_world PUSHTRAP (sample_machine [6] (Val_long 3) [Val_long 8]) = Some (Next m1) \<and> pc m1 = 1 \<and>
     raise_notrace sample_world (m1\<lparr>sp := Val_long 4 # sp m1\<rparr>) =
       Some (Next (m1\<lparr>pc := 6, sp := [Val_long 8], env := Atom 0, extra_args := 0, trap_sp_off := 1\<rparr>))"
proof -
  obtain m1 where "exec_trap sample_world PUSHTRAP (sample_machine [6] (Val_long 3) [Val_long 8]) = Some (Next m1)" "pc m1 = 1"
    and r: "\<And>m2 xs. sp m2 = xs @ sp m1 \<Longrightarrow> trap_sp_off m2 = trap_sp_off m1 \<Longrightarrow>
        raise_notrace sample_world m2 = Some (Next (m2\<lparr>pc := 6, sp := [Val_long 8], env := Atom 0, extra_args := 0, trap_sp_off := 1\<rparr>))"
    using trap_frame [of "sample_machine [6] (Val_long 3) [Val_long 8]" 6 sample_world]
    by (fastforce simp: sample_machine_def opnd_def rd_Some int63_def)
  with r [of "m1\<lparr>sp := Val_long 4 # sp m1\<rparr>" "[Val_long 4]"] show ?thesis by auto
qed

text \<open>
  C22. A division or modulus by zero under a trap frame, on top of which lie the operands and any other words, raises the
  runtime's \<open>Division_by_zero\<close>: the two machine steps end at the handler with the frame's registers and the exception
  in \<open>accu\<close>.
\<close>

theorem divide_by_zero_handled:
  assumes "i = DIVINT \<or> i = MODINT" "sp m = Val_long 0 # xs @ [Code h, Val_long t, e, Val_long x] @ s"
    and "trap_sp_off m = - int (length s + 4)" "int63 t" "int63 x"
  shows "\<exists>m1. exec_arith W i m = Some (Raise_notrace m1) \<and>
           step W (Raise_notrace m1) = Some (Next (m\<lparr>pc := h, accu := exn_zero_divide W, env := e, extra_args := x,
             sp := s, trap_sp_off := t\<rparr>))"
proof -
  let ?m1 = "m\<lparr>sp := env m # Code (pc m + 1) # xs @ [Code h, Val_long t, e, Val_long x] @ s, accu := exn_zero_divide W\<rparr>"
  have z: "Long_val (Val_long 0) = Some 0" by (simp add: int63_def)
  have "exec_arith W i m = Some (Raise_notrace ?m1)"
    using assms(1,2) z
    by (auto simp: exec_arith_def division_def top_def pop_def rd_Some guard_def c_raise_def setup_for_c_call_def)
  moreover have "raise_notrace W ?m1 = Some (Next (m\<lparr>pc := h, accu := exn_zero_divide W, env := e, extra_args := x,
             sp := s, trap_sp_off := t\<rparr>))"
    using assms(3-5) by (simp add: raise_notrace_def guard_def pop_def top_def rd_Some numeral_eq_Suc nat_add_distrib Let_def)
  ultimately show ?thesis by (auto simp: step_def)
qed

theorem divide_by_zero_handled_witness:
  "let m = (sample_machine [] (Val_long 3) [Val_long 0, Val_long 5, Code 6, Val_long 1, Atom 0, Val_long 0, Val_long 8])\<lparr>trap_sp_off := -5\<rparr>
   in \<exists>m1. exec_arith sample_world DIVINT m = Some (Raise_notrace m1) \<and>
        step sample_world (Raise_notrace m1) = Some (Next (m\<lparr>pc := 6, accu := Atom 2, sp := [Val_long 8], trap_sp_off := 1\<rparr>))"
  using divide_by_zero_handled [where i = DIVINT and xs = "[Val_long 5]" and h = 6 and t = 1 and e = "Atom 0" and x = 0
      and s = "[Val_long 8]" and W = sample_world
      and m = "(sample_machine [] (Val_long 3) [Val_long 0, Val_long 5, Code 6, Val_long 1, Atom 0, Val_long 0, Val_long 8])\<lparr>trap_sp_off := -5\<rparr>"]
  by (simp add: Let_def int63_def) (simp add: sample_machine_def sample_world_def)

section \<open>Effects\<close>

lemma Ptr_val_simps [simp]: "Ptr_val (Val_long 0) = Some None" "Ptr_val (Stk k) = Some (Some k)"
  by (simp_all add: Ptr_val_def Val_long_def)

lemma perform_step:
  assumes "fibers m c = Some f" "current m = c" "parent f = Some p" "p \<noteq> c"
    "fibers m p = Some pf" "slots pf = Val_long t # Val_long x # s" "int63 t" "int63 x"
    "handle_effect f = Ptr b 0" "heap m b = Some (Fields Closure_tag (Code h # hs))" "b \<noteq> next_addr m"
  shows "\<exists>m1. perform W m = Some (Check_stacks m1) \<and> current m1 = p \<and> pc m1 = h \<and> extra_args m1 = x + 2 \<and>
           trap_sp_off m1 = t \<and> sp m1 = accu m # Ptr (next_addr m) 0 # Stk c # s \<and>
           heap m1 (next_addr m) = Some (Fields Cont_tag [Stk c, Val_long 0]) \<and>
           fibers m1 c = Some (f\<lparr>slots := Val_long (trap_sp_off m) # Code (pc m) # env m # Val_long (extra_args m) # sp m,
             parent := None\<rparr>)"
  using assms by (simp add: perform_def handle_def alloc_def Let_def rd_Some enter_defs code_val_def field_def)

lemma resume_step:
  assumes "current m' = q" "q \<noteq> c" "fibers m' q = Some qf" "accu m' = Stk c" "sp m' = fn # arg # Val_long 0 # s'"
    "fibers m' c = Some f" "slots f = Val_long t # s" "int63 t" "code_val m' fn = Some k"
  shows "\<exists>m2. exec_control W RESUME m' = Some (Check_stacks m2) \<and> current m2 = c \<and> pc m2 = k \<and> env m2 = fn \<and>
           extra_args m2 = 0 \<and> trap_sp_off m2 = t \<and> sp m2 = arg # s \<and> map_option parent (fibers m2 c) = Some (Some q)"
  using assms by (simp add: exec_control_def do_resume_def top_def rd_Some enter_defs Let_def)

lemma return_frame:
  assumes "sp m = Code p # e # Val_long x # s" "int63 x"
  shows "do_return m = Some (Next (m\<lparr>pc := p, env := e, extra_args := x, sp := s\<rparr>))"
  using assms by (simp add: do_return_def pop_def guard_def top_def rd_Some)


definition sample_fiber :: "val list \<Rightarrow> nat option \<Rightarrow> val \<Rightarrow> fiber" where
  "sample_fiber s p h = \<lparr>slots = s, parent = p, handle_value = Atom 0, handle_exception = Atom 0, handle_effect = h\<rparr>"

definition sample_fibers :: machine where
  "sample_fibers = (sample_machine [] (Val_long 3) [Val_long 8])\<lparr>current := 1, next_addr := 1,
     heap := [0 \<mapsto> Fields Closure_tag [Code 20]],
     fibers := [0 \<mapsto> sample_fiber [Val_long 1, Val_long 0] None (Atom 0), 1 \<mapsto> sample_fiber [] (Some 0) (Ptr 0 0)]\<rparr>"




end
