(* ===== verification/Ints.thy ===== *)
theory Ints
  imports Prelude "HOL-Library.Signed_Division"
begin

text \<open>
  Integer primitives (\<^verbatim>\<open>src/runtime/ints.c\<close>): the parser of integer literals and the operations on boxed 32-bit,
  64-bit and native integers. A C string is the list of its characters up to the terminating NUL, a
  pointer into it the rest of the list; \<open>caml_failwith\<close> is the error \<open>Failure\<close>, \<open>caml_raise_zero_divide\<close> the error
  \<open>Zero_divide\<close>. Shifts by a negative count or by at least the width are undefined and fault.
\<close>

unbundle bit_operations_syntax

section \<open>Parsing\<close>

datatype int_error = Failure | Zero_divide | Invalid_argument

definition peek :: "string \<Rightarrow> char" where
  "peek p = (case p of [] \<Rightarrow> CHR 0x00 | c # _ \<Rightarrow> c)"

text \<open>The rest, the base, whether the literal is signed, and whether there is a minus sign.\<close>

definition parse_sign_and_base :: "string \<Rightarrow> string \<times> nat \<times> bool \<times> bool" where
  "parse_sign_and_base p =
     (let neg = (peek p = CHR ''-'');
          p = (if peek p = CHR ''-'' \<or> peek p = CHR ''+'' then drop 1 p else p);
          c = peek (drop 1 p)
      in if peek p = CHR ''0'' then
           if c = CHR ''x'' \<or> c = CHR ''X'' then (drop 2 p, 16, False, neg)
           else if c = CHR ''o'' \<or> c = CHR ''O'' then (drop 2 p, 8, False, neg)
           else if c = CHR ''b'' \<or> c = CHR ''B'' then (drop 2 p, 2, False, neg)
           else if c = CHR ''u'' \<or> c = CHR ''U'' then (drop 2 p, 10, False, neg)
           else (p, 10, True, neg)
         else (p, 10, True, neg))"

definition parse_digit :: "char \<Rightarrow> int" where
  "parse_digit c =
     (let n = int (of_char c) in
      if 48 \<le> n \<and> n \<le> 57 then n - 48
      else if 65 \<le> n \<and> n \<le> 70 then n - 65 + 10
      else if 97 \<le> n \<and> n \<le> 102 then n - 97 + 10
      else -1)"

fun parse_digits :: "nat \<Rightarrow> u64 \<Rightarrow> string \<Rightarrow> int_error + u64 \<times> string" where
  "parse_digits base res [] = Inr (res, [])"
| "parse_digits base res (c # p) =
     (if c = CHR ''_'' then parse_digits base res p
      else let d = parse_digit c in
        if d < 0 \<or> int base \<le> d then Inr (res, c # p)
        else if (- 1) div of_nat base < res then Inl Failure
        else let res = of_nat base * res + word_of_int d in
          if res < word_of_int d then Inl Failure
          else parse_digits base res p)"

definition parse_intnat :: "string \<Rightarrow> nat \<Rightarrow> int_error + u64" where
  "parse_intnat s nbits =
     (let (p, base, signedness, neg) = parse_sign_and_base s;
          d = parse_digit (peek p)
      in if d < 0 \<or> int base \<le> d then Inl Failure
         else case parse_digits base (word_of_int d) (drop 1 p) of
           Inl e \<Rightarrow> Inl e
         | Inr (res, p) \<Rightarrow>
             if p \<noteq> [] then Inl Failure
             else if signedness \<and> \<not> neg \<and> push_bit (nbits - 1) 1 \<le> res then Inl Failure
             else if signedness \<and> neg \<and> push_bit (nbits - 1) 1 < res then Inl Failure
             else if \<not> signedness \<and> nbits < 64 \<and> push_bit nbits 1 \<le> res then Inl Failure
             else Inr (if neg then - res else res))"

definition caml_int64_of_string :: "string \<Rightarrow> int_error + u64" where
  "caml_int64_of_string s =
     (let (p, base, signedness, neg) = parse_sign_and_base s;
          d = parse_digit (peek p)
      in if d < 0 \<or> int base \<le> d then Inl Failure
         else case parse_digits base (word_of_int d) (drop 1 p) of
           Inl e \<Rightarrow> Inl e
         | Inr (res, p) \<Rightarrow>
             if p \<noteq> [] then Inl Failure
             else if signedness \<and> \<not> neg \<and> push_bit 63 1 \<le> res then Inl Failure
             else if signedness \<and> neg \<and> push_bit 63 1 < res then Inl Failure
             else Inr (if neg then - res else res))"

definition caml_int_of_string :: "string \<Rightarrow> int_error + u64" where
  "caml_int_of_string s = (case parse_intnat s 63 of Inl e \<Rightarrow> Inl e | Inr n \<Rightarrow> Inr (push_bit 1 n + 1))"

definition caml_int32_of_string :: "string \<Rightarrow> int_error + u32" where
  "caml_int32_of_string s = (case parse_intnat s 32 of Inl e \<Rightarrow> Inl e | Inr n \<Rightarrow> Inr (ucast n))"

definition caml_nativeint_of_string :: "string \<Rightarrow> int_error + u64" where
  "caml_nativeint_of_string s = parse_intnat s 64"

section \<open>Formats\<close>

text \<open>The buffer \<open>format_string\<close> is a list of \<open>FORMAT_BUFFER_SIZE\<close> characters; writing past its end, or reading before its start, faults.\<close>

definition FORMAT_BUFFER_SIZE :: nat where "FORMAT_BUFFER_SIZE = 32"

definition memmove :: "nat \<Rightarrow> string \<Rightarrow> string \<Rightarrow> string option" where
  "memmove p src dst = foldM (\<lambda>(i, c) dst. wr dst (p + i) c) (enumerate 0 src) dst"

definition parse_format :: "string \<Rightarrow> string \<Rightarrow> string \<Rightarrow> (int_error + char \<times> string) option" where
  "parse_format fmt suffix format_string =
     (let len = length fmt; len_suffix = length suffix in
      if FORMAT_BUFFER_SIZE \<le> len + len_suffix + 1 then Some (Inl Invalid_argument)
      else do {
        format_string \<leftarrow> memmove 0 fmt format_string;
        guard (1 \<le> len);
        let p = len - 1;
        lastletter \<leftarrow> rd format_string p;
        guard (1 \<le> p);
        c \<leftarrow> rd format_string (p - 1);
        let p = (if c = CHR ''l'' \<or> c = CHR ''n'' \<or> c = CHR ''L'' then p - 1 else p);
        format_string \<leftarrow> memmove p suffix format_string;
        let p = p + len_suffix;
        format_string \<leftarrow> wr format_string p lastletter;
        format_string \<leftarrow> wr format_string (p + 1) (CHR 0x00);
        Some (Inr (lastletter, format_string)) })"

section \<open>Operations\<close>

definition COMPARE_INT :: "'a::len word \<Rightarrow> 'a word \<Rightarrow> int" where
  "COMPARE_INT i1 i2 = (if i2 <s i1 then 1 else 0) - (if i1 <s i2 then 1 else 0)"

definition caml_bswap16_direct :: "u64 \<Rightarrow> u64" where
  "caml_bswap16_direct x = push_bit 8 (x AND 0x00FF) OR signed_drop_bit 8 (x AND 0xFF00)"

definition caml_swap32 :: "u32 \<Rightarrow> u32" where
  "caml_swap32 x =
     push_bit 24 (x AND 0x000000FF) OR push_bit 8 (x AND 0x0000FF00) OR
     drop_bit 8 (x AND 0x00FF0000) OR drop_bit 24 (x AND 0xFF000000)"

definition caml_swap64 :: "u64 \<Rightarrow> u64" where
  "caml_swap64 x =
     push_bit 56 (x AND 0x00000000000000FF) OR push_bit 40 (x AND 0x000000000000FF00) OR
     push_bit 24 (x AND 0x0000000000FF0000) OR push_bit 8 (x AND 0x00000000FF000000) OR
     drop_bit 8 (x AND 0x000000FF00000000) OR drop_bit 24 (x AND 0x0000FF0000000000) OR
     drop_bit 40 (x AND 0x00FF000000000000) OR drop_bit 56 (x AND 0xFF00000000000000)"

definition caml_int32_div :: "u32 \<Rightarrow> u32 \<Rightarrow> int_error + u32" where
  "caml_int32_div dividend divisor =
     (if divisor = 0 then Inl Zero_divide
      else if dividend = push_bit 31 1 \<and> divisor = -1 then Inr dividend
      else Inr (word_of_int (sint dividend sdiv sint divisor)))"

definition caml_int32_mod :: "u32 \<Rightarrow> u32 \<Rightarrow> int_error + u32" where
  "caml_int32_mod dividend divisor =
     (if divisor = 0 then Inl Zero_divide
      else if dividend = push_bit 31 1 \<and> divisor = -1 then Inr 0
      else Inr (word_of_int (sint dividend smod sint divisor)))"

definition caml_int64_div :: "u64 \<Rightarrow> u64 \<Rightarrow> int_error + u64" where
  "caml_int64_div dividend divisor =
     (if divisor = 0 then Inl Zero_divide
      else if dividend = push_bit 63 1 \<and> divisor = -1 then Inr dividend
      else Inr (word_of_int (sint dividend sdiv sint divisor)))"

definition caml_int64_mod :: "u64 \<Rightarrow> u64 \<Rightarrow> int_error + u64" where
  "caml_int64_mod dividend divisor =
     (if divisor = 0 then Inl Zero_divide
      else if dividend = push_bit 63 1 \<and> divisor = -1 then Inr 0
      else Inr (word_of_int (sint dividend smod sint divisor)))"

definition Nativeint_min_int :: u64 where
  "Nativeint_min_int = push_bit 63 1"

definition caml_nativeint_div :: "u64 \<Rightarrow> u64 \<Rightarrow> int_error + u64" where
  "caml_nativeint_div dividend divisor =
     (if divisor = 0 then Inl Zero_divide
      else if dividend = Nativeint_min_int \<and> divisor = -1 then Inr dividend
      else Inr (word_of_int (sint dividend sdiv sint divisor)))"

definition caml_nativeint_mod :: "u64 \<Rightarrow> u64 \<Rightarrow> int_error + u64" where
  "caml_nativeint_mod dividend divisor =
     (if divisor = 0 then Inl Zero_divide
      else if dividend = Nativeint_min_int \<and> divisor = -1 then Inr 0
      else Inr (word_of_int (sint dividend smod sint divisor)))"

definition int64_hash :: "u64 \<Rightarrow> u64" where
  "int64_hash x = ucast ((ucast (signed_drop_bit 32 x) :: u32) XOR (ucast x :: u32))"

definition int32_hash :: "u32 \<Rightarrow> u64" where
  "int32_hash v = scast v"

definition nativeint_hash :: "u64 \<Rightarrow> u64" where
  "nativeint_hash n = signed_drop_bit 32 n XOR signed_drop_bit 63 n XOR n"

section \<open>The parser computes the value of the literal\<close>

definition digit :: "nat \<Rightarrow> char \<Rightarrow> nat option" where
  "digit base c = (let d = parse_digit c in if d < 0 \<or> int base \<le> d then None else Some (nat d))"

text \<open>The number that digits (with underscores between them) denote, after digits that denote \<open>acc\<close>.\<close>

fun numeral_value :: "nat \<Rightarrow> nat \<Rightarrow> string \<Rightarrow> nat option" where
  "numeral_value base acc [] = Some acc"
| "numeral_value base acc (c # p) =
     (if c = CHR ''_'' then numeral_value base acc p
      else case digit base c of None \<Rightarrow> None | Some d \<Rightarrow> numeral_value base (base * acc + d) p)"

text \<open>The number behind sign and prefix: it starts with a digit.\<close>

definition literal :: "nat \<Rightarrow> string \<Rightarrow> nat option" where
  "literal base p = (if digit base (peek p) = None then None else numeral_value base 0 p)"

definition in_range :: "nat \<Rightarrow> bool \<Rightarrow> bool \<Rightarrow> nat \<Rightarrow> bool" where
  "in_range nbits signedness neg n \<longleftrightarrow>
     (if signedness then if neg then n \<le> 2 ^ (nbits - 1) else n < 2 ^ (nbits - 1) else n < 2 ^ nbits)"

lemma digit_less: "digit base c = Some d \<Longrightarrow> d < base"
  by (auto simp: digit_def Let_def split: if_splits)

lemma numeral_value_ge: "numeral_value base acc p = Some n \<Longrightarrow> 0 < base \<Longrightarrow> acc \<le> n"
proof (induction base acc p rule: numeral_value.induct)
  case (2 base acc c p)
  show ?case
  proof (cases "c = CHR ''_''")
    case False
    with 2 obtain d where "digit base c = Some d" "base * acc + d \<le> n" by (auto split: option.splits)
    moreover have "acc \<le> base * acc" using 2 by (cases base) auto
    ultimately show ?thesis by linarith
  qed (use 2 in auto)
qed simp

lemma word_wraps:
  fixes w :: u64
  assumes "0 < base" "base \<le> 16" "d < base"
  shows "(- 1) div of_nat base < w \<longleftrightarrow> 2 ^ 64 \<le> base * unat w"
    and "base * unat w < 2 ^ 64 \<Longrightarrow> of_nat base * w + of_nat d < (of_nat d :: u64) \<longleftrightarrow> 2 ^ 64 \<le> base * unat w + d"
    and "base * unat w + d < 2 ^ 64 \<Longrightarrow> unat (of_nat base * w + of_nat d) = base * unat w + d"
proof -
  have b: "unat (of_nat base :: u64) = base" "unat (of_nat d :: u64) = d" using assms by (simp_all add: unat_of_nat)
  have "unat ((- 1) div of_nat base :: u64) = (2 ^ 64 - 1) div base"
    by (simp add: unat_div_distrib b unsigned_minus_1_eq_mask mask_eq_exp_minus_1)
  then have "(- 1) div of_nat base < w \<longleftrightarrow> (2 ^ 64 - 1) div base < unat w" by (simp add: word_less_nat_alt)
  also have "\<dots> \<longleftrightarrow> 2 ^ 64 - 1 < base * unat w" using assms(1) by (simp add: div_less_iff_less_mult mult.commute)
  finally show "(- 1) div of_nat base < w \<longleftrightarrow> 2 ^ 64 \<le> base * unat w" by auto
  have s: "unat (of_nat base * w + of_nat d) = (base * unat w + d) mod 2 ^ 64"
    by (simp add: unat_word_ariths b mod_add_left_eq)
  then show "base * unat w + d < 2 ^ 64 \<Longrightarrow> unat (of_nat base * w + of_nat d) = base * unat w + d" by simp
  assume "base * unat w < 2 ^ 64"
  then show "of_nat base * w + of_nat d < (of_nat d :: u64) \<longleftrightarrow> 2 ^ 64 \<le> base * unat w + d"
    using assms by (cases "base * unat w + d < 2 ^ 64") (auto simp: word_less_nat_alt s b mod_if)
qed

lemma parse_digits_value:
  assumes "0 < base" "base \<le> 16"
  shows "case numeral_value base (unat w) p of
      Some n \<Rightarrow> parse_digits base w p = (if n < 2 ^ 64 then Inr (of_nat n, []) else Inl Failure)
    | None \<Rightarrow> parse_digits base w p = Inl Failure \<or> (\<exists>v c q. parse_digits base w p = Inr (v, c # q))"
    (is "?P w p")
proof (induction p arbitrary: w)
  case Nil
  have "unat w < 2 ^ 64" using unsigned_less [of w] by simp
  then show ?case by simp
next
  case (Cons c p)
  show ?case
  proof (cases "c = CHR ''_'' \<or> digit base c = None")
    case True
    then show ?thesis using Cons [of w] by (auto simp: digit_def Let_def split: if_splits option.splits)
  next
    case False
    then obtain d where d: "digit base c = Some d" and c: "c \<noteq> CHR ''_''" by auto
    let ?w = "of_nat base * w + of_nat d" and ?n = "numeral_value base (base * unat w + d) p"
    note dl = digit_less [OF d]
    have pd: "parse_digit c = int d" "\<not> (parse_digit c < 0 \<or> int base \<le> parse_digit c)"
      using d by (auto simp: digit_def Let_def split: if_splits)
    have nv: "numeral_value base (unat w) (c # p) = ?n" using c d by simp
    have parse: "parse_digits base w (c # p) = (if 2 ^ 64 \<le> base * unat w + d then Inl Failure else parse_digits base ?w p)"
      using c pd word_wraps [OF assms dl, of w] by (cases "base * unat w < 2 ^ 64") (auto simp: Let_def)
    show ?thesis
    proof (cases "2 ^ 64 \<le> base * unat w + d")
      case True
      then have "n \<ge> 2 ^ 64" if "?n = Some n" for n
        using numeral_value_ge [OF that assms(1)] by simp
      with True show ?thesis unfolding nv parse by (auto split: option.splits)
    next
      case False
      then have "unat ?w = base * unat w + d" using word_wraps(3) [OF assms dl, of w] by simp
      with Cons [of ?w] False show ?thesis unfolding nv parse by simp
    qed
  qed
qed

lemma sign_and_base_cases:
  assumes "parse_sign_and_base s = (p, base, signedness, neg)"
  shows "base \<in> {2, 8, 10, 16}" "signedness \<longrightarrow> base = 10"
  using assms by (auto simp: parse_sign_and_base_def Let_def split: if_splits)

lemma unat_power_word: "k < 64 \<Longrightarrow> unat (push_bit k 1 :: u64) = 2 ^ k"
proof -
  assume "k < 64"
  then have "(2 :: nat) ^ k < 2 ^ 64" by (intro power_strict_increasing) auto
  moreover have "(push_bit k 1 :: u64) = of_nat (2 ^ k)" by (simp add: push_bit_eq_mult)
  ultimately show ?thesis by (simp only: unat_of_nat) simp
qed

lemma first_digit:
  assumes "digit base (peek p) = Some d" "0 < base" "base \<le> 16"
  shows "numeral_value base (unat (of_nat d :: u64)) (drop 1 p) = numeral_value base 0 p" "parse_digit (peek p) = int d"
proof -
  have "d < 2 ^ 64" using digit_less [OF assms(1)] assms(3) by simp
  then have "unat (of_nat d :: u64) = d" by (simp add: unat_of_nat)
  moreover obtain c q where p: "p = c # q" using assms(1) by (cases p) (auto simp: digit_def parse_digit_def peek_def Let_def split: if_splits)
  moreover have "c \<noteq> CHR ''_''" using assms(1) p by (auto simp: digit_def parse_digit_def peek_def Let_def split: if_splits)
  ultimately show "numeral_value base (unat (of_nat d :: u64)) (drop 1 p) = numeral_value base 0 p"
    using assms(1) by (simp add: peek_def)
  show "parse_digit (peek p) = int d" using assms(1) by (auto simp: digit_def Let_def split: if_splits)
qed

lemma literal_cases:
  assumes "0 < base" "base \<le> 16"
  shows "(if parse_digit (peek p) < 0 \<or> int base \<le> parse_digit (peek p) then Inl Failure
          else case parse_digits base (word_of_int (parse_digit (peek p))) (drop 1 p) of
            Inl e \<Rightarrow> Inl e | Inr (res, q) \<Rightarrow> if q \<noteq> [] then Inl Failure else f res) =
         (case literal base p of None \<Rightarrow> Inl Failure | Some n \<Rightarrow> if n < 2 ^ 64 then f (of_nat n) else Inl Failure)"
proof (cases "digit base (peek p)")
  case None
  then show ?thesis by (auto simp: literal_def digit_def Let_def split: if_splits)
next
  case (Some d)
  note fd = first_digit [OF Some assms]
  have "\<not> (parse_digit (peek p) < 0 \<or> int base \<le> parse_digit (peek p))"
    using Some by (auto simp: digit_def Let_def split: if_splits)
  moreover have "word_of_int (parse_digit (peek p)) = (of_nat d :: u64)" using fd(2) by simp
  moreover have "literal base p = numeral_value base 0 p" using Some by (simp add: literal_def)
  ultimately show ?thesis
    using parse_digits_value [OF assms, of "of_nat d" "drop 1 p"] unfolding fd(1)
    by (auto split: option.splits)
qed




section \<open>Division\<close>

lemma smod_between:
  fixes a b :: int
  shows "0 \<le> a \<Longrightarrow> 0 \<le> a smod b \<and> a smod b \<le> a" "a \<le> 0 \<Longrightarrow> a \<le> a smod b \<and> a smod b \<le> 0"
proof -
  have "0 \<le> \<bar>a\<bar> mod \<bar>b\<bar>" by (cases "b = 0") simp_all
  moreover have "\<bar>a\<bar> mod \<bar>b\<bar> \<le> \<bar>a\<bar>" by (rule zmod_le_nonneg_dividend) simp
  ultimately show "0 \<le> a \<Longrightarrow> 0 \<le> a smod b \<and> a smod b \<le> a" "a \<le> 0 \<Longrightarrow> a \<le> a smod b \<and> a smod b \<le> 0"
    by (auto simp: signed_modulo_int_def sgn_if)
qed

lemma sint_smod: "sint (word_of_int (sint x smod sint y) :: 'a::len word) = sint (x :: 'a word) smod sint (y :: 'a word)"
proof -
  have "- (2 ^ (LENGTH('a) - 1)) \<le> sint x" "sint x < 2 ^ (LENGTH('a) - 1)"
    using sint_greater_eq [of x] sint_less [of x] by simp_all
  moreover have "(0 :: int) < 2 ^ (LENGTH('a) - 1)" by simp
  ultimately have "- (2 ^ (LENGTH('a) - 1)) \<le> sint x smod sint y" "sint x smod sint y < 2 ^ (LENGTH('a) - 1)"
    using smod_between [of "sint x" "sint y"] by linarith+
  then show ?thesis by (simp only: sint_sbintrunc' signed_take_bit_int_eq_self)
qed

text \<open>What the operations of each boxed type promise: total division, except by zero.\<close>

locale boxed_division =
  fixes division modulus :: "'a::len word \<Rightarrow> 'a word \<Rightarrow> int_error + 'a word"
  assumes by_zero: "division x 0 = Inl Zero_divide" "modulus x 0 = Inl Zero_divide"
    and division_eq: "y \<noteq> 0 \<Longrightarrow> division x y = Inr (word_of_int (sint x sdiv sint y))"
    and modulus_eq: "y \<noteq> 0 \<Longrightarrow> modulus x y = Inr (word_of_int (sint x smod sint y))"
begin

lemma euclid:
  assumes "y \<noteq> 0"
  shows "\<exists>q r. division x y = Inr q \<and> modulus x y = Inr r \<and> x = q * y + r \<and>
           \<bar>sint r\<bar> < \<bar>sint y\<bar> \<and> (sint r = 0 \<or> sgn (sint r) = sgn (sint x))"
proof -
  let ?q = "sint x sdiv sint y" and ?r = "sint x smod sint y"
  have y: "sint y \<noteq> 0" using assms by (simp add: signed_eq_0_iff)
  then have "\<bar>?r\<bar> < \<bar>sint y\<bar>" using smod_int_range [of "sint y" "sint x"] by auto
  moreover have "?r = 0 \<or> sgn ?r = sgn (sint x)"
    using smod_between [of "sint x" "sint y"] by (auto simp: sgn_if)
  moreover have "?q * sint y + ?r = sint x" by (rule sdiv_mult_smod_eq)
  from arg_cong [OF this, of "word_of_int :: int \<Rightarrow> 'a word"] have "x = word_of_int ?q * y + word_of_int ?r" by simp
  ultimately show ?thesis by (simp add: division_eq [OF assms] modulus_eq [OF assms] sint_smod)
qed

end

interpretation int32: boxed_division caml_int32_div caml_int32_mod
  by unfold_locales (auto simp: caml_int32_div_def caml_int32_mod_def signed_modulo_int_def)

interpretation int64: boxed_division caml_int64_div caml_int64_mod
  by unfold_locales (auto simp: caml_int64_div_def caml_int64_mod_def signed_modulo_int_def)

interpretation nativeint: boxed_division caml_nativeint_div caml_nativeint_mod
  by unfold_locales (auto simp: caml_nativeint_div_def caml_nativeint_mod_def Nativeint_min_int_def signed_modulo_int_def)


section \<open>Byte order and hashing\<close>

lemma caml_swap32_alt:
  "caml_swap32 x = push_bit 24 (x AND push_bit 0 (mask 8)) OR push_bit 8 (x AND push_bit 8 (mask 8)) OR
     drop_bit 8 (x AND push_bit 16 (mask 8)) OR drop_bit 24 (x AND push_bit 24 (mask 8))"
  by (simp add: caml_swap32_def mask_eq_exp_minus_1 push_bit_eq_mult)

lemma caml_swap64_alt:
  "caml_swap64 x =
     push_bit 56 (x AND push_bit 0 (mask 8)) OR push_bit 40 (x AND push_bit 8 (mask 8)) OR
     push_bit 24 (x AND push_bit 16 (mask 8)) OR push_bit 8 (x AND push_bit 24 (mask 8)) OR
     drop_bit 8 (x AND push_bit 32 (mask 8)) OR drop_bit 24 (x AND push_bit 40 (mask 8)) OR
     drop_bit 40 (x AND push_bit 48 (mask 8)) OR drop_bit 56 (x AND push_bit 56 (mask 8))"
  by (simp add: caml_swap64_def mask_eq_exp_minus_1 push_bit_eq_mult)

lemma bit_swap32:
  assumes "k < 4" "j < 8"
  shows "bit (caml_swap32 x) (8 * k + j) \<longleftrightarrow> bit x (8 * (3 - k) + j)"
proof -
  from assms(1) have "k = 0 \<or> k = 1 \<or> k = 2 \<or> k = 3" by auto
  then show ?thesis
    unfolding caml_swap32_alt using assms(2)
    by (elim disjE) (auto simp: bit_simps dest: bit_imp_le_length)
qed

lemma bit_swap64:
  assumes "k < 8" "j < 8"
  shows "bit (caml_swap64 x) (8 * k + j) \<longleftrightarrow> bit x (8 * (7 - k) + j)"
proof -
  from assms(1) have "k = 0 \<or> k = 1 \<or> k = 2 \<or> k = 3 \<or> k = 4 \<or> k = 5 \<or> k = 6 \<or> k = 7" by auto
  then show ?thesis
    unfolding caml_swap64_alt using assms(2)
    by (elim disjE) (auto simp: bit_simps dest: bit_imp_le_length)
qed

text \<open>
  C29. The byte-swapping primitives reverse the order of the bytes: byte \<open>k\<close> of the result is byte \<open>3 - k\<close> (\<open>7 - k\<close> for 64
  bits) of the argument, so that swapping twice gives the argument back.
\<close>

theorem bswap_correct:
  "(\<forall>k j. k < 4 \<and> j < 8 \<longrightarrow> bit (caml_swap32 x) (8 * k + j) = bit x (8 * (3 - k) + j)) \<and>
   (\<forall>k j. k < 8 \<and> j < 8 \<longrightarrow> bit (caml_swap64 y) (8 * k + j) = bit y (8 * (7 - k) + j)) \<and>
   caml_swap32 (caml_swap32 x) = x \<and> caml_swap64 (caml_swap64 y) = y"
proof -
  have "caml_swap32 (caml_swap32 x) = x"
  proof (rule bit_word_eqI)
    fix n assume "n < LENGTH(32)"
    then have "n div 8 < 4" "n mod 8 < 8" "8 * (n div 8) + n mod 8 = n" "3 - n div 8 < 4" "3 - (3 - n div 8) = n div 8" by simp_all
    then show "bit (caml_swap32 (caml_swap32 x)) n = bit x n"
      using bit_swap32 [of "n div 8" "n mod 8" "caml_swap32 x"] bit_swap32 [of "3 - n div 8" "n mod 8" x] by simp
  qed
  moreover have "caml_swap64 (caml_swap64 y) = y"
  proof (rule bit_word_eqI)
    fix n assume "n < LENGTH(64)"
    then have "n div 8 < 8" "n mod 8 < 8" "8 * (n div 8) + n mod 8 = n" "7 - n div 8 < 8" "7 - (7 - n div 8) = n div 8" by simp_all
    then show "bit (caml_swap64 (caml_swap64 y)) n = bit y n"
      using bit_swap64 [of "n div 8" "n mod 8" "caml_swap64 y"] bit_swap64 [of "7 - n div 8" "n mod 8" y] by simp
  qed
  ultimately show ?thesis using bit_swap32 bit_swap64 by blast
qed

theorem bswap_correct_witness:
  "caml_swap32 (caml_swap32 0x12345678) = 0x12345678 \<and> caml_swap64 (caml_swap64 0x0102030405060708) = 0x0102030405060708"
  using bswap_correct [of "0x12345678" "0x0102030405060708"] by blast

text \<open>
  C31. A native integer that fits in 32 bits has the same hash on 32-bit and on 64-bit platforms, and the same hash as the
  boxed 32-bit integer: the integer itself.
\<close>

theorem nativeint_hash_compatible:
  assumes "- (2 ^ 31) \<le> sint n" "sint n < 2 ^ 31"
  shows "nativeint_hash n = n \<and> int32_hash (ucast n) = n"
proof
  have "sint n div 2 ^ k = (if sint n < 0 then -1 else 0)" if "31 \<le> k" for k
  proof -
    have "(2 :: int) ^ 31 \<le> 2 ^ k" using that by (rule power_increasing) simp
    with assms have "sint n = 2 ^ k * (if sint n < 0 then -1 else 0) + (if sint n < 0 then sint n + 2 ^ k else sint n)"
      "0 \<le> (if sint n < 0 then sint n + 2 ^ k else sint n)" "(if sint n < 0 then sint n + 2 ^ k else sint n) < 2 ^ k" by auto
    then show ?thesis by (rule int_div_pos_eq)
  qed
  from this [of 32] this [of 63] have "sint (signed_drop_bit 32 n) = sint (signed_drop_bit 63 n)"
    by (simp add: sint_signed_drop_bit_eq drop_bit_eq_div)
  then have "signed_drop_bit 32 n = signed_drop_bit 63 n" by (rule signed_word_eqI)
  then show "nativeint_hash n = n" by (simp add: nativeint_hash_def)
  have "(ucast n :: u32) = word_of_int (sint n)"
    by (rule bit_word_eqI) (simp add: bit_simps bit_sint_iff)
  then have "sint (ucast n :: u32) = signed_take_bit 31 (sint n)" by (simp only: sint_sbintrunc') simp
  also have "\<dots> = sint n" using assms by (simp add: signed_take_bit_int_eq_self)
  finally have "scast (ucast n :: u32) = n" by (metis of_int_sint scast_id)
  then show "int32_hash (ucast n) = n" by (simp add: int32_hash_def)
qed

theorem nativeint_hash_compatible_witness: "nativeint_hash (- 5) = - 5 \<and> int32_hash (ucast (- 5 :: u64)) = - 5"
  by (rule nativeint_hash_compatible) simp_all

section \<open>The format buffer\<close>

lemma memmove_loop:
  assumes "p + i + length src \<le> length dst"
  shows "foldM (\<lambda>(i, c) dst. wr dst (p + i) c) (enumerate i src) dst = Some (take (p + i) dst @ src @ drop (p + i + length src) dst)"
  using assms
proof (induction src arbitrary: i dst)
  case (Cons c src)
  let ?dst = "dst[p + i := c]"
  have "foldM (\<lambda>(i, c) dst. wr dst (p + i) c) (enumerate (Suc i) src) ?dst =
      Some (take (p + Suc i) ?dst @ src @ drop (p + Suc i + length src) ?dst)"
    using Cons.prems by (intro Cons.IH) simp
  moreover have "take (p + Suc i) ?dst = take (p + i) dst @ [c]"
    using Cons.prems by (simp add: take_Suc_conv_app_nth)
  ultimately show ?case using Cons.prems by (simp add: wr_def)
qed simp

lemma memmove_eq:
  "p + length src \<le> length dst \<Longrightarrow> memmove p src dst = Some (take p dst @ src @ drop (p + length src) dst)"
  using memmove_loop [of p 0 src dst] by (simp add: memmove_def)



end
