(* ===== verification/Skiplist.thy ===== *)
theory Skiplist
  imports Prelude
begin

text \<open>
  Skip lists (\<^verbatim>\<open>src/runtime/skiplist.c\<close>, \<^verbatim>\<open>caml/skiplist.h\<close>): a dictionary from words to words. The cells are a map from
  addresses to cells and \<open>NULL\<close> is \<open>None\<close>; a cursor \<open>e\<close> of the code, the array \<open>forward\<close> of the head or of a cell, is
  \<open>None\<close> for the head and the cell's address otherwise, and an entry \<open>update[i]\<close>, a pointer to \<open>e[i]\<close>, is that cursor. An
  access to a freed cell or to a forward pointer that a cell does not have faults.
\<close>

unbundle bit_operations_syntax

section \<open>The code\<close>

definition NUM_LEVELS :: nat where "NUM_LEVELS = 17"

record skipcell =
  key :: u64
  data :: u64
  forward :: "nat option list"

record skiplist =
  head :: "nat option list"
  level :: nat
  cells :: "nat \<Rightarrow> skipcell option"
  next_cell :: nat

text \<open>The result is the level and the new seed.\<close>

definition random_level :: "u32 \<Rightarrow> (nat \<times> u32) option" where
  "random_level random_seed = do {
     let r = random_seed * 69069 + 25173;
     (level, r') \<leftarrow> whileM (\<lambda>(level, r). Some (r AND 0xC0000000 = 0xC0000000))
       (\<lambda>(level, r). Some (level + 1, push_bit 2 r)) (0, r);
     Some (level, r) }"

definition caml_skiplist_init :: "nat \<Rightarrow> skiplist" where
  "caml_skiplist_init n = \<lparr>head = replicate NUM_LEVELS None, level = 0, cells = (\<lambda>_. None), next_cell = n\<rparr>"

text \<open>\<open>e[i]\<close>, and the assignment \<open>e[i] = v\<close>.\<close>

definition fwd :: "skiplist \<Rightarrow> nat option \<Rightarrow> nat \<Rightarrow> nat option option" where
  "fwd sk e i = (case e of None \<Rightarrow> rd (head sk) i | Some a \<Rightarrow> do { c \<leftarrow> cells sk a; rd (forward c) i })"

definition set_fwd :: "nat option \<Rightarrow> nat \<Rightarrow> nat option \<Rightarrow> skiplist \<Rightarrow> skiplist option" where
  "set_fwd e i v sk = (case e of
     None \<Rightarrow> do { h \<leftarrow> wr (head sk) i v; Some (sk\<lparr>head := h\<rparr>) }
   | Some a \<Rightarrow> do {
       c \<leftarrow> cells sk a;
       f \<leftarrow> wr (forward c) i v;
       Some (sk\<lparr>cells := (cells sk)(a := Some (c\<lparr>forward := f\<rparr>))\<rparr>) })"

text \<open>The inner loop of the searches: follow level \<open>i\<close> while the next cell's key does not stop it.\<close>

definition advance :: "skiplist \<Rightarrow> (u64 \<Rightarrow> bool) \<Rightarrow> nat \<Rightarrow> nat option \<Rightarrow> nat option option" where
  "advance sk stop i e =
     whileM (\<lambda>e. do { f \<leftarrow> fwd sk e i; case f of None \<Rightarrow> Some False | Some a \<Rightarrow> do { c \<leftarrow> cells sk a; Some (\<not> stop (key c)) } })
       (\<lambda>e. fwd sk e i) e"

text \<open>The search: the second component is the data when the key is found.\<close>

definition find_level :: "skiplist \<Rightarrow> u64 \<Rightarrow> nat \<Rightarrow> nat option \<times> u64 option \<Rightarrow> (nat option \<times> u64 option) option" where
  "find_level sk k i s =
     whileM (\<lambda>(e, found). if found \<noteq> None then Some False else do {
         f \<leftarrow> fwd sk e i;
         case f of None \<Rightarrow> Some False | Some a \<Rightarrow> do { c \<leftarrow> cells sk a; Some (\<not> k < key c) } })
       (\<lambda>(e, found). do {
         f \<leftarrow> fwd sk e i;
         a \<leftarrow> f;
         c \<leftarrow> cells sk a;
         Some (if key c = k then (e, Some (data c)) else (f, None)) }) s"

definition caml_skiplist_find :: "skiplist \<Rightarrow> u64 \<Rightarrow> u64 option option" where
  "caml_skiplist_find sk k = do {
     (e, found) \<leftarrow> for_down 0 (level sk + 1) (\<lambda>i s. if snd s \<noteq> None then Some s else find_level sk k i s) (None, None);
     Some found }"

definition caml_skiplist_find_below :: "skiplist \<Rightarrow> u64 \<Rightarrow> (u64 \<times> u64) option option" where
  "caml_skiplist_find_below sk k = do {
     last \<leftarrow> for_down 0 (level sk + 1) (advance sk (\<lambda>x. k < x)) None;
     case last of
       None \<Rightarrow> Some None
     | Some a \<Rightarrow> do { c \<leftarrow> cells sk a; Some (Some (key c, data c)) } }"

text \<open>The search of insertion and deletion: the cursor in front of the key, and the array \<open>update\<close>.\<close>

definition locate :: "skiplist \<Rightarrow> u64 \<Rightarrow> (nat option \<times> nat option option list) option" where
  "locate sk k =
     for_down 0 (level sk + 1) (\<lambda>i (e, update). do {
         e \<leftarrow> advance sk (\<lambda>x. k \<le> x) i e;
         update \<leftarrow> wr update i (Some e);
         Some (e, update) }) (None, replicate NUM_LEVELS None)"

definition update_at :: "nat option option list \<Rightarrow> nat \<Rightarrow> nat option option" where
  "update_at update i = do { u \<leftarrow> rd update i; u }"

definition link_cell :: "nat \<Rightarrow> nat option option list \<Rightarrow> nat \<Rightarrow> skiplist \<Rightarrow> skiplist option" where
  "link_cell f update i sk = do {
     e \<leftarrow> update_at update i;
     v \<leftarrow> fwd sk e i;
     sk \<leftarrow> set_fwd (Some f) i v sk;
     set_fwd e i (Some f) sk }"

definition insert_cell :: "u64 \<Rightarrow> u64 \<Rightarrow> nat \<Rightarrow> nat option option list \<Rightarrow> skiplist \<Rightarrow> skiplist option" where
  "insert_cell k d new_level update sk = do {
     update \<leftarrow> (if level sk < new_level
                then for_up (level sk + 1) (new_level + 1) (\<lambda>i update. wr update i (Some None)) update else Some update);
     let sk = (if level sk < new_level then sk\<lparr>level := new_level\<rparr> else sk);
     let f = next_cell sk;
     let sk = sk\<lparr>cells := (cells sk)(f := Some \<lparr>key = k, data = d, forward = replicate (new_level + 1) None\<rparr>), next_cell := f + 1\<rparr>;
     for_up 0 (new_level + 1) (link_cell f update) sk }"

definition caml_skiplist_insert :: "skiplist \<Rightarrow> u32 \<Rightarrow> u64 \<Rightarrow> u64 \<Rightarrow> (bool \<times> skiplist \<times> u32) option" where
  "caml_skiplist_insert sk seed k d = do {
     (e, update) \<leftarrow> locate sk k;
     f \<leftarrow> fwd sk e 0;
     present \<leftarrow> (case f of None \<Rightarrow> Some None | Some a \<Rightarrow> do { c \<leftarrow> cells sk a; Some (if key c = k then Some (a, c) else None) });
     case present of
       Some (a, c) \<Rightarrow> Some (True, sk\<lparr>cells := (cells sk)(a := Some (c\<lparr>data := d\<rparr>))\<rparr>, seed)
     | None \<Rightarrow> do {
         (new_level, seed) \<leftarrow> random_level seed;
         sk \<leftarrow> insert_cell k d new_level update sk;
         Some (False, sk, seed) } }"

definition unlink_cell :: "nat \<Rightarrow> nat option option list \<Rightarrow> nat \<Rightarrow> skiplist \<Rightarrow> skiplist option" where
  "unlink_cell f update i sk = do {
     e \<leftarrow> update_at update i;
     v \<leftarrow> fwd sk e i;
     if v = Some f then do { w \<leftarrow> fwd sk (Some f) i; set_fwd e i w sk } else Some sk }"

definition drop_levels :: "skiplist \<Rightarrow> skiplist option" where
  "drop_levels sk =
     whileM (\<lambda>sk. if 0 < level sk then do { v \<leftarrow> rd (head sk) (level sk); Some (v = None) } else Some False)
       (\<lambda>sk. Some (sk\<lparr>level := level sk - 1\<rparr>)) sk"

definition caml_skiplist_remove :: "skiplist \<Rightarrow> u64 \<Rightarrow> (bool \<times> skiplist) option" where
  "caml_skiplist_remove sk k = do {
     (e, update) \<leftarrow> locate sk k;
     f \<leftarrow> fwd sk e 0;
     present \<leftarrow> (case f of None \<Rightarrow> Some None | Some a \<Rightarrow> do { c \<leftarrow> cells sk a; Some (if key c = k then Some a else None) });
     case present of
       None \<Rightarrow> Some (False, sk)
     | Some a \<Rightarrow> do {
         sk \<leftarrow> for_up 0 (level sk + 1) (unlink_cell a update) sk;
         sk \<leftarrow> drop_levels (sk\<lparr>cells := (cells sk)(a := None)\<rparr>);
         Some (True, sk) } }"

text \<open>The cells in the order of the list, as the loop \<open>FOREACH_SKIPLIST_ELEMENT\<close> visits them.\<close>

definition skiplist_elements :: "skiplist \<Rightarrow> (u64 \<times> u64) list option" where
  "skiplist_elements sk = do {
     e \<leftarrow> rd (head sk) 0;
     (e, xs) \<leftarrow> whileM (\<lambda>(e, xs). Some (e \<noteq> None))
       (\<lambda>(e, xs). do { a \<leftarrow> e; c \<leftarrow> cells sk a; e \<leftarrow> rd (forward c) 0; Some (e, xs @ [(key c, data c)]) }) (e, []);
     Some xs }"

definition free_cell :: "nat option \<times> skiplist \<Rightarrow> (nat option \<times> skiplist) option" where
  "free_cell = (\<lambda>(e, sk). do {
     a \<leftarrow> e;
     c \<leftarrow> cells sk a;
     e \<leftarrow> rd (forward c) 0;
     Some (e, sk\<lparr>cells := (cells sk)(a := None)\<rparr>) })"

definition caml_skiplist_empty :: "skiplist \<Rightarrow> skiplist option" where
  "caml_skiplist_empty sk = do {
     e \<leftarrow> rd (head sk) 0;
     (e, sk) \<leftarrow> whileM (\<lambda>(e, sk). Some (e \<noteq> None)) free_cell (e, sk);
     h \<leftarrow> for_up 0 (level sk + 1) (\<lambda>i h. wr h i None) (head sk);
     Some (sk\<lparr>head := h, level := 0\<rparr>) }"

section \<open>The list behind a skip list\<close>

text \<open>
  \<open>cs\<close> lists the cells in the order of their keys. The forward pointer of level \<open>i\<close> of a cell is the first cell behind it that
  has a forward pointer of that level.
\<close>

definition ht :: "skiplist \<Rightarrow> nat \<Rightarrow> nat" where
  "ht sk a = (case cells sk a of None \<Rightarrow> 0 | Some c \<Rightarrow> length (forward c))"

definition ky :: "skiplist \<Rightarrow> nat \<Rightarrow> u64" where
  "ky sk a = key (the (cells sk a))"

definition first_at :: "skiplist \<Rightarrow> nat \<Rightarrow> nat list \<Rightarrow> nat option" where
  "first_at sk i ys = (case filter (\<lambda>a. i < ht sk a) ys of [] \<Rightarrow> None | a # _ \<Rightarrow> Some a)"

definition last_at :: "skiplist \<Rightarrow> nat \<Rightarrow> nat list \<Rightarrow> nat option" where
  "last_at sk i xs = first_at sk i (rev xs)"

definition cur :: "nat list \<Rightarrow> nat option" where
  "cur xs = (if xs = [] then None else Some (last xs))"

definition height :: "skiplist \<Rightarrow> nat option \<Rightarrow> nat" where
  "height sk e = (case e of None \<Rightarrow> NUM_LEVELS | Some a \<Rightarrow> ht sk a)"

definition linked :: "skiplist \<Rightarrow> nat list \<Rightarrow> bool" where
  "linked sk cs \<longleftrightarrow> (\<forall>xs ys i. cs = xs @ ys \<longrightarrow> i < height sk (cur xs) \<longrightarrow> fwd sk (cur xs) i = Some (first_at sk i ys))"

definition sk_inv :: "skiplist \<Rightarrow> nat list \<Rightarrow> bool" where
  "sk_inv sk cs \<longleftrightarrow> linked sk cs \<and> sorted_wrt (\<lambda>a b. ky sk a < ky sk b) cs \<and>
     (\<forall>a \<in> set cs. 0 < ht sk a \<and> ht sk a \<le> level sk + 1) \<and> level sk < NUM_LEVELS \<and> length (head sk) = NUM_LEVELS \<and>
     (\<forall>a. cells sk a \<noteq> None \<longleftrightarrow> a \<in> set cs) \<and> (\<forall>a \<in> set cs. a < next_cell sk)"

lemma first_at_simps [simp]:
  "first_at sk i [] = None"
  "first_at sk i (a # ys) = (if i < ht sk a then Some a else first_at sk i ys)"
  by (simp_all add: first_at_def)

lemma first_at_append: "first_at sk i (xs @ ys) = (case first_at sk i xs of None \<Rightarrow> first_at sk i ys | Some a \<Rightarrow> Some a)"
  by (induction xs) auto

lemma last_at_append: "last_at sk i (xs @ ys) = (case last_at sk i ys of None \<Rightarrow> last_at sk i xs | Some a \<Rightarrow> Some a)"
  by (simp add: last_at_def first_at_append split: option.splits)

lemma last_at_simps [simp]:
  "last_at sk i [] = None"
  "last_at sk i (xs @ [a]) = (if i < ht sk a then Some a else last_at sk i xs)"
  by (simp_all add: last_at_def)

lemma first_at_None: "first_at sk i ys = None \<longleftrightarrow> (\<forall>a \<in> set ys. \<not> i < ht sk a)"
  by (induction ys) auto

lemma last_at_None: "last_at sk i ys = None \<longleftrightarrow> (\<forall>a \<in> set ys. \<not> i < ht sk a)"
  by (simp add: last_at_def first_at_None)

lemma first_at_Some:
  assumes "first_at sk i ys = Some a"
  obtains z1 z2 where "ys = z1 @ a # z2" "i < ht sk a" "\<forall>b \<in> set z1. \<not> i < ht sk b"
  using assms
proof (induction ys arbitrary: thesis)
  case (Cons y ys)
  show ?case
  proof (cases "i < ht sk y")
    case True
    with Cons.prems(2) show ?thesis by (intro Cons.prems(1) [of "[]"]) auto
  next
    case False
    with Cons.prems(2) obtain z1 z2 where "ys = z1 @ a # z2" "i < ht sk a" "\<forall>b \<in> set z1. \<not> i < ht sk b"
      using Cons.IH by auto
    with False show ?thesis by (intro Cons.prems(1) [of "y # z1"]) auto
  qed
qed simp

lemma last_at_Some:
  assumes "last_at sk i xs = Some a"
  obtains z1 z2 where "xs = z1 @ a # z2" "i < ht sk a" "\<forall>b \<in> set z2. \<not> i < ht sk b"
proof -
  from assms obtain z1 z2 where "rev xs = z1 @ a # z2" "i < ht sk a" "\<forall>b \<in> set z1. \<not> i < ht sk b"
    unfolding last_at_def by (rule first_at_Some)
  then show thesis using that [of "rev z2" "rev z1"] by (simp add: rev_swap)
qed

lemma cur_simps [simp]: "cur [] = None" "cur [a] = Some a" "cur (xs @ ys) = (if ys = [] then cur xs else cur ys)"
  by (simp_all add: cur_def)

text \<open>The cursor at the last cell of a level, as a prefix of the list.\<close>

lemma last_at_cur:
  obtains xs zs where "lo = xs @ zs" "last_at sk j lo = cur xs" "\<forall>b \<in> set zs. \<not> j < ht sk b"
    "j < NUM_LEVELS \<longrightarrow> j < height sk (cur xs)"
proof (cases "last_at sk j lo")
  case None
  then show thesis using that [of "[]" lo] by (auto simp: last_at_None height_def)
next
  case (Some a)
  then obtain z1 z2 where "lo = z1 @ a # z2" "j < ht sk a" "\<forall>b \<in> set z2. \<not> j < ht sk b" by (rule last_at_Some)
  with Some show thesis using that [of "z1 @ [a]" z2] by (auto simp: height_def)
qed

lemma linkedD: "linked sk (xs @ ys) \<Longrightarrow> i < height sk (cur xs) \<Longrightarrow> fwd sk (cur xs) i = Some (first_at sk i ys)"
  by (simp add: linked_def)

lemma fwd_last_at:
  assumes "linked sk (lo @ hi)" "i < NUM_LEVELS"
  shows "fwd sk (last_at sk i lo) i = Some (first_at sk i hi)"
proof -
  obtain xs zs where x: "lo = xs @ zs" "last_at sk i lo = cur xs" "\<forall>b \<in> set zs. \<not> i < ht sk b" "i < height sk (cur xs)"
    using assms(2) by (metis last_at_cur)
  then have "fwd sk (cur xs) i = Some (first_at sk i (zs @ hi))" using assms(1) by (intro linkedD) simp_all
  moreover have "first_at sk i zs = None" using x(3) by (simp add: first_at_None)
  ultimately show ?thesis using x(2) by (simp add: first_at_append)
qed

section \<open>Searching\<close>

lemma ht_cells: "i < ht sk a \<Longrightarrow> \<exists>c. cells sk a = Some c \<and> key c = ky sk a"
  by (auto simp: ht_def ky_def split: option.splits)

lemma advance_prefix:
  assumes "linked sk (xs @ zs @ hi)" "i < height sk (cur xs)"
    and "\<forall>a \<in> set zs. \<not> stop (ky sk a)" "\<forall>a \<in> set hi. stop (ky sk a)"
  shows "advance sk stop i (cur xs) = Some (case last_at sk i zs of None \<Rightarrow> cur xs | Some a \<Rightarrow> Some a)"
  using assms
proof (induction "length zs" arbitrary: xs zs rule: less_induct)
  case less
  have f: "fwd sk (cur xs) i = Some (first_at sk i (zs @ hi))" using less.prems by (intro linkedD) simp_all
  show ?case
  proof (cases "first_at sk i zs")
    case None
    have "advance sk stop i (cur xs) = Some (cur xs)"
    proof (cases "first_at sk i hi")
      case None
      with \<open>first_at sk i zs = None\<close> show ?thesis
        unfolding advance_def by (subst whileM_False) (simp_all add: f first_at_append)
    next
      case (Some a)
      then have "a \<in> set hi" "i < ht sk a" by (auto elim!: first_at_Some)
      with \<open>first_at sk i zs = None\<close> Some less.prems(4) ht_cells [of i sk a] show ?thesis
        unfolding advance_def by (subst whileM_False) (auto simp: f first_at_append)
    qed
    moreover have "last_at sk i zs = None" using None by (simp add: last_at_None first_at_None)
    ultimately show ?thesis by simp
  next
    case (Some a)
    then obtain z1 z2 where z: "zs = z1 @ a # z2" "i < ht sk a" by (auto elim!: first_at_Some)
    have fa: "fwd sk (cur xs) i = Some (Some a)" using f Some by (simp add: first_at_append)
    obtain c where "cells sk a = Some c" "\<not> stop (key c)" using ht_cells [OF z(2)] z(1) less.prems(3) by auto
    then have "advance sk stop i (cur xs) = advance sk stop i (Some a)"
      unfolding advance_def by (subst whileM_True) (simp_all add: fa)
    also have "Some a = cur (xs @ z1 @ [a])" by (simp add: cur_def)
    also have "advance sk stop i (cur (xs @ z1 @ [a])) =
        Some (case last_at sk i z2 of None \<Rightarrow> cur (xs @ z1 @ [a]) | Some a \<Rightarrow> Some a)"
      using less.prems z by (intro less.hyps) (simp_all add: height_def)
    finally show ?thesis using z by (simp add: last_at_def first_at_append split: option.splits)
  qed
qed

text \<open>From the last cell of a higher level in front of the key to that of level \<open>i\<close>.\<close>

lemma last_at_descend:
  assumes "i < NUM_LEVELS" "e = None \<or> e = last_at sk j lo \<and> i \<le> j"
  obtains xs zs where "lo = xs @ zs" "e = cur xs" "i < height sk (cur xs)"
    "last_at sk i lo = (case last_at sk i zs of None \<Rightarrow> cur xs | Some a \<Rightarrow> Some a)"
proof (cases "e = None")
  case True
  then show thesis using that [of "[]" lo] assms(1) by (simp add: height_def split: option.splits)
next
  case False
  then obtain a where a: "last_at sk j lo = Some a" "e = Some a" "i \<le> j" using assms(2) by (metis option.exhaust)
  from a(1) obtain z1 z2 where "lo = z1 @ a # z2" "j < ht sk a" by (auto elim!: last_at_Some)
  then show thesis using that [of "z1 @ [a]" z2] a by (simp add: height_def last_at_def first_at_append split: option.splits)
qed

lemma advance_last_at:
  assumes "linked sk (lo @ hi)" "i < NUM_LEVELS" "e = None \<or> e = last_at sk j lo \<and> i \<le> j"
    and "\<forall>a \<in> set lo. \<not> stop (ky sk a)" "\<forall>a \<in> set hi. stop (ky sk a)"
  shows "advance sk stop i e = Some (last_at sk i lo)"
proof -
  obtain xs zs where "lo = xs @ zs" "e = cur xs" "i < height sk (cur xs)"
    "last_at sk i lo = (case last_at sk i zs of None \<Rightarrow> cur xs | Some a \<Rightarrow> Some a)"
    using assms(2,3) by (rule last_at_descend)
  with assms show ?thesis by (auto intro!: advance_prefix [where hi = hi])
qed

definition dt :: "skiplist \<Rightarrow> nat \<Rightarrow> u64" where
  "dt sk a = data (the (cells sk a))"

definition lower :: "skiplist \<Rightarrow> u64 \<Rightarrow> nat list \<Rightarrow> nat list" where
  "lower sk k cs = takeWhile (\<lambda>a. ky sk a < k) cs"

definition upper :: "skiplist \<Rightarrow> u64 \<Rightarrow> nat list \<Rightarrow> nat list" where
  "upper sk k cs = dropWhile (\<lambda>a. ky sk a < k) cs"

definition sk_map :: "skiplist \<Rightarrow> nat list \<Rightarrow> u64 \<Rightarrow> u64 option" where
  "sk_map sk cs = map_of (map (\<lambda>a. (ky sk a, dt sk a)) cs)"

lemma lower_upper: "lower sk k cs @ upper sk k cs = cs"
  by (simp add: lower_def upper_def)

lemma lower_less: "a \<in> set (lower sk k cs) \<Longrightarrow> ky sk a < k"
  unfolding lower_def by (rule set_takeWhileD [THEN conjunct2])

lemma upper_ge:
  assumes "sorted_wrt (\<lambda>a b. ky sk a < ky sk b) cs" "a \<in> set (upper sk k cs)"
  shows "k \<le> ky sk a"
proof (cases "upper sk k cs")
  case (Cons b bs)
  then have "k \<le> ky sk b" unfolding upper_def by (metis dropWhile_eq_Cons_conv not_less)
  moreover have "\<forall>c \<in> set bs. ky sk b < ky sk c"
    using assms(1) Cons lower_upper [of sk k cs] by (metis sorted_wrt.simps(2) sorted_wrt_append)
  ultimately show ?thesis using assms(2) Cons by (auto dest: order_trans less_imp_le)
qed (use assms in simp)

lemma upper_tail:
  assumes "sorted_wrt (\<lambda>a b. ky sk a < ky sk b) cs" "upper sk k cs = a # hi" "b \<in> set hi"
  shows "k < ky sk b"
proof -
  have "ky sk a < ky sk b" using assms lower_upper [of sk k cs] by (metis sorted_wrt.simps(2) sorted_wrt_append)
  moreover have "k \<le> ky sk a" using assms by (intro upper_ge [of sk cs]) simp_all
  ultimately show ?thesis by simp
qed

lemma sk_map_upper:
  assumes "sorted_wrt (\<lambda>a b. ky sk a < ky sk b) cs"
  shows "sk_map sk cs k = (case upper sk k cs of [] \<Rightarrow> None | a # _ \<Rightarrow> if ky sk a = k then Some (dt sk a) else None)"
proof -
  have "map_of (map (\<lambda>a. (ky sk a, dt sk a)) (lower sk k cs)) k = None"
    unfolding map_of_eq_None_iff by (auto dest: lower_less)
  moreover have "sk_map sk cs k = sk_map sk (lower sk k cs @ upper sk k cs) k" by (simp add: lower_upper)
  ultimately have e: "sk_map sk cs k = sk_map sk (upper sk k cs) k" by (simp add: sk_map_def map_add_def)
  show ?thesis
    unfolding e
  proof (cases "upper sk k cs")
    case (Cons a hi)
    have "k \<notin> ky sk ` set hi" using upper_tail [OF assms Cons] by (metis imageE less_irrefl)
    then have "map_of (map (\<lambda>a. (ky sk a, dt sk a)) hi) k = None" by (auto simp: map_of_eq_None_iff)
    with Cons show "sk_map sk (upper sk k cs) k = (case upper sk k cs of [] \<Rightarrow> None | a # _ \<Rightarrow> if ky sk a = k then Some (dt sk a) else None)"
      by (simp add: sk_map_def)
  qed (simp add: sk_map_def)
qed

lemma sk_invD:
  assumes "sk_inv sk cs"
  shows "linked sk cs" "sorted_wrt (\<lambda>a b. ky sk a < ky sk b) cs" "a \<in> set cs \<Longrightarrow> 0 < ht sk a"
    "a \<in> set cs \<Longrightarrow> ht sk a \<le> level sk + 1" "level sk < NUM_LEVELS" "length (head sk) = NUM_LEVELS"
    "cells sk a \<noteq> None \<longleftrightarrow> a \<in> set cs" "a \<in> set cs \<Longrightarrow> a < next_cell sk"
  using assms by (simp_all add: sk_inv_def)

lemma locate_ok:
  assumes "sk_inv sk cs"
  shows "wp (locate sk k) (\<lambda>(e, update). e = last_at sk 0 (lower sk k cs) \<and> length update = NUM_LEVELS \<and>
           (\<forall>i \<le> level sk. update ! i = Some (last_at sk i (lower sk k cs))))"
proof -
  note inv = sk_invD [OF assms]
  let ?lo = "lower sk k cs" and ?hi = "upper sk k cs"
  have l: "linked sk (?lo @ ?hi)" using inv(1) by (simp add: lower_upper)
  have lo: "\<forall>a \<in> set ?lo. \<not> k \<le> ky sk a" by (auto dest: lower_less)
  have hi: "\<forall>a \<in> set ?hi. k \<le> ky sk a" using upper_ge [OF inv(2)] by blast
  have adv: "advance sk (\<lambda>x. k \<le> x) i e = Some (last_at sk i ?lo)"
    if "i \<le> level sk" "e = None \<or> e = last_at sk (Suc i) ?lo" for i e
    using inv(5) that by (intro advance_last_at [OF l _ _ lo hi, where j = "Suc i"]) auto
  let ?I = "\<lambda>j (e, update). (if j = level sk + 1 then e = None else e = last_at sk j ?lo) \<and> length update = NUM_LEVELS \<and>
      (\<forall>i. j \<le> i \<and> i \<le> level sk \<longrightarrow> update ! i = Some (last_at sk i ?lo))"
  show ?thesis
    unfolding locate_def
  proof (rule wp_for_down [where I = ?I])
    fix i s assume i: "i < level sk + 1" and I: "?I (Suc i) s"
    obtain e update where s: "s = (e, update)" by (cases s)
    have a: "advance sk (\<lambda>x. k \<le> x) i e = Some (last_at sk i ?lo)" using adv [of i e] i I s by (auto split: if_splits)
    show "wp (case s of (e, update) \<Rightarrow> do {
         e \<leftarrow> advance sk (\<lambda>x. k \<le> x) i e;
         update \<leftarrow> wr update i (Some e);
         Some (e, update) }) (?I i)"
      using i I inv(5) unfolding s by (auto simp: a wp_simps nth_list_update)
  qed auto
qed

lemma find_below_ok:
  assumes "sk_inv sk cs"
  shows "caml_skiplist_find_below sk k =
     Some (let lo = takeWhile (\<lambda>a. ky sk a \<le> k) cs in if lo = [] then None else Some (ky sk (last lo), dt sk (last lo)))"
proof -
  note inv = sk_invD [OF assms]
  let ?lo = "takeWhile (\<lambda>a. ky sk a \<le> k) cs" and ?hi = "dropWhile (\<lambda>a. ky sk a \<le> k) cs"
  have l: "linked sk (?lo @ ?hi)" using inv(1) by simp
  have lo: "\<forall>a \<in> set ?lo. \<not> k < ky sk a" by (auto dest: set_takeWhileD)
  have hi: "\<forall>a \<in> set ?hi. k < ky sk a"
  proof (cases ?hi)
    case (Cons b bs)
    then have "k < ky sk b" by (metis dropWhile_eq_Cons_conv not_less)
    moreover have "\<forall>c \<in> set bs. ky sk b < ky sk c"
      using inv(2) Cons by (metis sorted_wrt.simps(2) sorted_wrt_append takeWhile_dropWhile_id)
    ultimately show ?thesis using Cons by auto
  qed (simp only: list.set ball_empty)
  let ?I = "\<lambda>j e. if j = level sk + 1 then e = None else e = last_at sk j ?lo"
  have "wp (for_down 0 (level sk + 1) (advance sk (\<lambda>x. k < x)) None) (\<lambda>e. e = last_at sk 0 ?lo)"
  proof (rule wp_for_down [where I = ?I])
    fix i e assume "i < level sk + 1" "?I (Suc i) e"
    then have "advance sk (\<lambda>x. k < x) i e = Some (last_at sk i ?lo)"
      using inv(5) by (intro advance_last_at [OF l _ _ lo hi, where j = "Suc i"]) (auto split: if_splits)
    with \<open>i < level sk + 1\<close> show "wp (advance sk (\<lambda>x. k < x) i e) (?I i)" by (simp add: wp_simps)
  qed auto
  moreover have "last_at sk 0 ?lo = cur ?lo"
  proof (cases ?lo rule: rev_cases)
    case (snoc ys y)
    then have "y \<in> set cs" by (metis in_set_conv_decomp set_takeWhileD)
    with inv(3) [of y] snoc show ?thesis by simp
  qed simp
  moreover have "\<exists>c. cells sk (last ?lo) = Some c" if "?lo \<noteq> []"
  proof -
    have "last ?lo \<in> set cs" using that by (metis last_in_set set_takeWhileD)
    with inv(7) show ?thesis by blast
  qed
  ultimately show ?thesis
    by (auto simp: caml_skiplist_find_below_def wp_def cur_def Let_def ky_def dt_def)
qed

lemma find_level_prefix:
  assumes "linked sk (xs @ zs @ hi)" "i < height sk (cur xs)"
    and "\<forall>a \<in> set zs. ky sk a < k" "\<forall>a \<in> set hi. k \<le> ky sk a"
  shows "find_level sk k i (cur xs, None) = Some (case last_at sk i zs of None \<Rightarrow> cur xs | Some a \<Rightarrow> Some a,
      case first_at sk i hi of None \<Rightarrow> None | Some a \<Rightarrow> if ky sk a = k then Some (dt sk a) else None)"
  using assms
proof (induction "length zs" arbitrary: xs zs rule: less_induct)
  case less
  have f: "fwd sk (cur xs) i = Some (first_at sk i (zs @ hi))" using less.prems by (intro linkedD) simp_all
  show ?case
  proof (cases "first_at sk i zs")
    case None
    then have fh: "fwd sk (cur xs) i = Some (first_at sk i hi)" using f by (simp add: first_at_append)
    have "last_at sk i zs = None" using None by (simp add: last_at_None first_at_None)
    moreover have "find_level sk k i (cur xs, None) = Some (cur xs,
        case first_at sk i hi of None \<Rightarrow> None | Some a \<Rightarrow> if ky sk a = k then Some (dt sk a) else None)"
    proof (cases "first_at sk i hi")
      case None
      then show ?thesis unfolding find_level_def by (subst whileM_False) (simp_all add: fh)
    next
      case (Some a)
      then have "a \<in> set hi" "i < ht sk a" by (auto elim!: first_at_Some)
      then obtain c where c: "cells sk a = Some c" "key c = ky sk a" "data c = dt sk a" "k \<le> key c"
        using ht_cells [of i sk a] less.prems(4) by (auto simp: dt_def)
      show ?thesis
      proof (cases "key c = k")
        case True
        then show ?thesis unfolding find_level_def
          by (subst whileM_True) (use c Some in \<open>simp_all add: fh whileM_False\<close>)
      next
        case False
        with c(4) have "k < key c" by simp
        with c False Some show ?thesis unfolding find_level_def by (subst whileM_False) (simp_all add: fh)
      qed
    qed
    ultimately show ?thesis by simp
  next
    case (Some a)
    then obtain z1 z2 where z: "zs = z1 @ a # z2" "i < ht sk a" by (auto elim!: first_at_Some)
    have fa: "fwd sk (cur xs) i = Some (Some a)" using f Some by (simp add: first_at_append)
    obtain c where "cells sk a = Some c" "key c < k" using ht_cells [OF z(2)] z(1) less.prems(3) by auto
    then have "find_level sk k i (cur xs, None) = find_level sk k i (Some a, None)"
      unfolding find_level_def by (subst whileM_True) (auto simp: fa)
    also have "Some a = cur (xs @ z1 @ [a])" by simp
    also have "find_level sk k i (cur (xs @ z1 @ [a]), None) =
        Some (case last_at sk i z2 of None \<Rightarrow> cur (xs @ z1 @ [a]) | Some a \<Rightarrow> Some a,
          case first_at sk i hi of None \<Rightarrow> None | Some a \<Rightarrow> if ky sk a = k then Some (dt sk a) else None)"
      using less.prems z by (intro less.hyps) (simp_all add: height_def)
    finally show ?thesis using z by (simp add: last_at_def first_at_append split: option.splits)
  qed
qed

lemma find_ok:
  assumes "sk_inv sk cs"
  shows "caml_skiplist_find sk k = Some (sk_map sk cs k)"
proof -
  note inv = sk_invD [OF assms]
  let ?lo = "lower sk k cs" and ?hi = "upper sk k cs"
  let ?hit = "\<lambda>i. case first_at sk i ?hi of None \<Rightarrow> None | Some a \<Rightarrow> if ky sk a = k then Some (dt sk a) else None"
  have l: "linked sk (?lo @ ?hi)" using inv(1) by (simp add: lower_upper)
  have hi: "\<forall>a \<in> set ?hi. k \<le> ky sk a" using upper_ge [OF inv(2)] by blast
  have step: "find_level sk k i (e, None) = Some (last_at sk i ?lo, ?hit i)"
    if "i \<le> level sk" "e = None \<or> e = last_at sk (Suc i) ?lo" for i e
  proof -
    have "i < NUM_LEVELS" "e = None \<or> e = last_at sk (Suc i) ?lo \<and> i \<le> Suc i" using that inv(5) by auto
    then obtain xs zs where x: "?lo = xs @ zs" "e = cur xs" "i < height sk (cur xs)"
      "last_at sk i ?lo = (case last_at sk i zs of None \<Rightarrow> cur xs | Some a \<Rightarrow> Some a)" by (rule last_at_descend)
    have "\<forall>a \<in> set zs. ky sk a < k" using x(1) by (auto intro: lower_less [of _ sk k cs])
    with x l hi show ?thesis using find_level_prefix [of sk xs zs ?hi i k] by simp
  qed
  have hit: "?hit i = None \<or> ?hit i = sk_map sk cs k" for i
  proof (cases "first_at sk i ?hi")
    case (Some a)
    then have "a \<in> set ?hi" by (auto elim!: first_at_Some)
    then obtain b bs where b: "?hi = b # bs" by (cases ?hi) auto
    show ?thesis
    proof (cases "a = b")
      case False
      then have "k < ky sk a" using \<open>a \<in> set ?hi\<close> b upper_tail [OF inv(2) b] by auto
      with Some show ?thesis by auto
    qed (use Some b in \<open>simp add: sk_map_upper [OF inv(2)]\<close>)
  qed simp
  have hit0: "?hit 0 = sk_map sk cs k"
  proof (cases ?hi)
    case (Cons b bs)
    then have "b \<in> set cs" using lower_upper [of sk k cs] by (metis in_set_conv_decomp)
    with inv(3) [of b] Cons show ?thesis by (simp add: sk_map_upper [OF inv(2)])
  qed (simp add: sk_map_upper [OF inv(2)])
  let ?I = "\<lambda>j (e, found). case found of
      None \<Rightarrow> (if j = level sk + 1 then e = None else e = last_at sk j ?lo) \<and> (j = 0 \<longrightarrow> sk_map sk cs k = None)
    | Some d \<Rightarrow> sk_map sk cs k = Some d"
  have "wp (for_down 0 (level sk + 1) (\<lambda>i s. if snd s \<noteq> None then Some s else find_level sk k i s) (None, None))
      (\<lambda>(e, found). found = sk_map sk cs k)"
  proof (rule wp_for_down [where I = ?I])
    fix i s assume i: "i < level sk + 1" and I: "?I (Suc i) s"
    obtain e found where s: "s = (e, found)" by (cases s)
    show "wp (if snd s \<noteq> None then Some s else find_level sk k i s) (?I i)"
    proof (cases found)
      case None
      then have "find_level sk k i s = Some (last_at sk i ?lo, ?hit i)"
        using I i s by (auto intro!: step split: if_splits)
      then show ?thesis using None s i hit [of i] hit0 by (auto simp: wp_simps split: option.splits if_splits)
    qed (use I s in \<open>simp add: wp_simps\<close>)
  qed (auto split: option.splits)
  then show ?thesis by (auto simp: caml_skiplist_find_def wp_def)
qed

section \<open>Updating the links\<close>

text \<open>Two skip lists that differ in their forward pointers only.\<close>

definition same :: "skiplist \<Rightarrow> skiplist \<Rightarrow> bool" where
  "same sk sk' \<longleftrightarrow> ht sk' = ht sk \<and> ky sk' = ky sk \<and> dt sk' = dt sk \<and> level sk' = level sk \<and> next_cell sk' = next_cell sk \<and>
     length (head sk') = length (head sk) \<and> (\<forall>a. cells sk' a = None \<longleftrightarrow> cells sk a = None)"

lemma same_refl: "same sk sk" by (simp add: same_def)

lemma same_trans: "same sk sk' \<Longrightarrow> same sk' sk'' \<Longrightarrow> same sk sk''" by (simp add: same_def)

lemma same_height: "same sk sk' \<Longrightarrow> height sk' = height sk"
  by (auto simp: same_def height_def fun_eq_iff split: option.splits)

lemma set_fwd_ok:
  assumes "i < height sk e" "length (head sk) = NUM_LEVELS"
  shows "wp (set_fwd e i v sk) (\<lambda>sk'. same sk sk' \<and> (\<forall>e' j. fwd sk' e' j = (if e' = e \<and> j = i then Some v else fwd sk e' j)))"
proof (cases e)
  case None
  with assms show ?thesis
    by (auto simp: set_fwd_def wp_simps height_def same_def ht_def ky_def dt_def fwd_def rd_def fun_eq_iff split: option.splits)
next
  case (Some a)
  with assms obtain c where "cells sk a = Some c" "i < length (forward c)" by (auto simp: height_def ht_def split: option.splits)
  with Some show ?thesis
    by (auto simp: set_fwd_def wp_simps same_def ht_def ky_def dt_def fwd_def rd_def fun_eq_iff split: option.splits)
qed

lemma fwd_height: "length (head sk) = NUM_LEVELS \<Longrightarrow> (\<exists>v. fwd sk e i = Some v) \<longleftrightarrow> i < height sk e"
  by (auto simp: fwd_def height_def ht_def rd_def split: option.splits)

lemma first_at_cong: "(\<And>a. a \<in> set ys \<Longrightarrow> ht sk' a = ht sk a) \<Longrightarrow> first_at sk' i ys = first_at sk i ys"
  by (induction ys) auto

lemma last_at_height: "i < NUM_LEVELS \<Longrightarrow> i < height sk (last_at sk i lo)"
  by (metis last_at_cur)

lemma last_at_in: "last_at sk i lo = Some a \<Longrightarrow> a \<in> set lo"
  by (auto elim!: last_at_Some)

section \<open>Levels\<close>

lemma random_level_ok: "\<exists>n s. random_level seed = Some (n, s) \<and> n < NUM_LEVELS"
proof -
  let ?r = "seed * 69069 + 25173 :: u32"
  have "wp (whileM (\<lambda>(level, r). Some (r AND 0xC0000000 = 0xC0000000))
       (\<lambda>(level, r). Some (level + 1, push_bit 2 r)) (0, ?r)) (\<lambda>(level, r). level < NUM_LEVELS)"
  proof (rule wp_whileM [where I = "\<lambda>(l, r). l \<le> 16 \<and> r = push_bit (2 * l) ?r" and m = "\<lambda>(l, r). 16 - l"], goal_cases)
    case (2 s)
    obtain l r where s: "s = (l, r)" by (cases s)
    show ?case
    proof (cases "l = 16")
      case True
      have "r = 0" using 2 s True by (auto intro!: bit_word_eqI simp: bit_push_bit_iff)
      then show ?thesis using s True by (simp add: wp_simps NUM_LEVELS_def)
    next
      case False
      then show ?thesis using 2 s by (auto simp: wp_simps NUM_LEVELS_def push_bit_push_bit)
    qed
  qed simp
  then show ?thesis by (auto simp: random_level_def wp_def)
qed

section \<open>Insertion\<close>

text \<open>The links once the cell \<open>f\<close> is linked in at the levels below \<open>n\<close>, between \<open>lo\<close> and \<open>hi\<close>.\<close>

definition linked_upto :: "skiplist \<Rightarrow> skiplist \<Rightarrow> nat \<Rightarrow> nat list \<Rightarrow> nat list \<Rightarrow> nat \<Rightarrow> skiplist \<Rightarrow> bool" where
  "linked_upto sk sk1 f lo hi n sk' \<longleftrightarrow> same sk1 sk' \<and>
     (\<forall>e j. fwd sk' e j =
        (if j < n \<and> e = Some f then Some (first_at sk j hi)
         else if j < n \<and> e = last_at sk j lo then Some (Some f) else fwd sk1 e j))"

lemma link_cells_ok:
  assumes "length (head sk1) = NUM_LEVELS" "nl < NUM_LEVELS" "ht sk1 f = nl + 1" "f \<notin> set lo"
    and "\<And>i. i \<le> nl \<Longrightarrow> update ! i = Some (last_at sk i lo)" "length update = NUM_LEVELS"
    and "\<And>i. i \<le> nl \<Longrightarrow> i < height sk1 (last_at sk i lo) \<and> fwd sk1 (last_at sk i lo) i = Some (first_at sk i hi)"
  shows "wp (for_up 0 (nl + 1) (link_cell f update) sk1) (linked_upto sk sk1 f lo hi (nl + 1))"
proof (rule wp_for_up [where I = "linked_upto sk sk1 f lo hi"])
  fix i sk' assume i: "i < nl + 1" and I: "linked_upto sk sk1 f lo hi i sk'"
  then have sm: "same sk1 sk'" and fw: "\<And>e j. fwd sk' e j =
      (if j < i \<and> e = Some f then Some (first_at sk j hi) else if j < i \<and> e = last_at sk j lo then Some (Some f) else fwd sk1 e j)"
    by (simp_all add: linked_upto_def)
  let ?e = "last_at sk i lo"
  have u: "update_at update i = Some ?e" using assms i by (simp add: update_at_def rd_Some)
  have v: "fwd sk' ?e i = Some (first_at sk i hi)" using assms(7) [of i] i by (simp add: fw)
  have h: "length (head sk') = NUM_LEVELS" "i < height sk' (Some f)" "i < height sk' ?e"
    using assms(1,3) assms(7) [of i] i same_height [OF sm] sm by (simp_all add: same_def height_def [of sk1 "Some f"])
  have eq: "link_cell f update i sk' = Option.bind (set_fwd (Some f) i (first_at sk i hi) sk') (set_fwd ?e i (Some f))"
    by (simp add: link_cell_def u v)
  have ne: "?e \<noteq> Some f" using assms(4) last_at_in by metis
  show "wp (link_cell f update i sk') (linked_upto sk sk1 f lo hi (Suc i))"
    unfolding eq wp_bind
  proof (rule wp_mono [OF set_fwd_ok [OF h(2,1), of "first_at sk i hi"]], elim conjE)
    fix sk2 assume s2: "same sk' sk2" "\<forall>e' j. fwd sk2 e' j = (if e' = Some f \<and> j = i then Some (first_at sk i hi) else fwd sk' e' j)"
    then have h2: "length (head sk2) = NUM_LEVELS" "i < height sk2 ?e" using h same_height [OF s2(1)] by (simp_all add: same_def)
    show "wp (set_fwd ?e i (Some f) sk2) (linked_upto sk sk1 f lo hi (Suc i))"
    proof (rule wp_mono [OF set_fwd_ok [OF h2(2,1), of "Some f"]], elim conjE)
      fix sk3 assume "same sk2 sk3" "\<forall>e' j. fwd sk3 e' j = (if e' = ?e \<and> j = i then Some (Some f) else fwd sk2 e' j)"
      with s2 sm fw ne show "linked_upto sk sk1 f lo hi (Suc i) sk3"
        unfolding linked_upto_def by (auto simp: less_Suc_eq intro: same_trans)
    qed
  qed
qed (simp_all add: linked_upto_def same_refl)

lemma split_cases:
  assumes "xs @ ys = lo @ f # hi"
  obtains (lo) rest where "lo = xs @ rest" "ys = rest @ f # hi"
    | (here) "xs = lo @ [f]" "ys = hi"
    | (hi) xs2 where "xs = lo @ f # xs2" "hi = xs2 @ ys" "xs2 \<noteq> []"
proof -
  from assms consider us where "xs @ us = lo" "ys = us @ f # hi" | us where "xs = lo @ us" "us @ ys = f # hi"
    by (auto simp: append_eq_append_conv2)
  then show thesis
  proof cases
    case (2 us)
    then consider "us = []" | "us = [f]" | xs2 where "us = f # xs2" "xs2 \<noteq> []" by (cases us) auto
    then show thesis using 2 that by cases auto
  qed (use that in auto)
qed

text \<open>Linking in a cell of height \<open>nl + 1\<close> keeps the list well linked.\<close>

lemma linked_insert:
  assumes "linked sk (lo @ hi)" "f \<notin> set lo" "f \<notin> set hi" "distinct (lo @ hi)" "nl < NUM_LEVELS"
    and "\<And>a. a \<in> set (lo @ hi) \<Longrightarrow> ht sk' a = ht sk a" "ht sk' f = nl + 1"
    and "\<And>e j. e \<noteq> Some f \<Longrightarrow> fwd sk' e j = (if j \<le> nl \<and> e = last_at sk j lo then Some (Some f) else fwd sk e j)"
    and "\<And>j. j \<le> nl \<Longrightarrow> fwd sk' (Some f) j = Some (first_at sk j hi)"
  shows "linked sk' (lo @ f # hi)"
  unfolding linked_def
proof (intro allI impI)
  fix xs ys i assume e: "lo @ f # hi = xs @ ys" and i: "i < height sk' (cur xs)"
  have fa: "first_at sk' i zs = first_at sk i zs" if "set zs \<subseteq> set (lo @ hi)" for zs
    using that assms(6) by (intro first_at_cong) blast
  from e [symmetric] show "fwd sk' (cur xs) i = Some (first_at sk' i ys)"
  proof (cases rule: split_cases)
    case (lo rest)
    have fr: "first_at sk' i rest = first_at sk i rest" "first_at sk' i hi = first_at sk i hi" using lo by (auto intro!: fa)
    have c: "cur xs \<noteq> Some f" using assms(2) lo by (auto simp: cur_def)
    have h: "i < height sk (cur xs)" using i assms(6) lo by (auto simp: height_def cur_def split: if_splits)
    have old: "fwd sk (cur xs) i = Some (first_at sk i (rest @ hi))" using assms(1) lo h by (intro linkedD) simp_all
    show ?thesis
    proof (cases "first_at sk i rest")
      case None
      then have "first_at sk i (rev rest) = None" by (simp add: first_at_None)
      then have l: "last_at sk i lo = cur xs"
        using lo h by (cases xs rule: rev_cases) (auto simp: last_at_def first_at_append height_def split: option.splits)
      show ?thesis using None lo old c l assms(7)
        by (simp add: assms(8) first_at_append fr not_le less_Suc_eq_le)
    next
      case (Some a)
      then have a: "a \<in> set rest" "i < ht sk a" by (auto elim!: first_at_Some)
      then obtain b where "last_at sk i rest = Some b" "b \<in> set rest"
        by (metis last_at_None last_at_in not_Some_eq)
      then have "last_at sk i lo = Some b" using lo by (simp add: last_at_append)
      moreover have "cur xs \<noteq> Some b" using assms(4) lo \<open>b \<in> set rest\<close> last_in_set [of xs]
        by (simp add: cur_def disjoint_iff) (metis last_in_set)
      ultimately show ?thesis using Some lo old c by (simp add: assms(8) first_at_append fr)
    qed
  next
    case here
    with i assms(7,9) show ?thesis by (simp add: height_def fa)
  next
    case (hi xs2)
    have cx: "cur xs = cur (lo @ xs2)" "cur xs \<noteq> Some f" using hi assms(3) by (auto simp: cur_def)
    have h: "i < height sk (cur xs)" using i assms(6) hi by (auto simp: height_def cur_def)
    have "last_at sk i lo \<noteq> cur xs"
      using hi assms(4) last_at_in [of sk i lo] by (auto simp: cur_def)
    moreover have "fwd sk (cur xs) i = Some (first_at sk i ys)"
      using assms(1) hi h unfolding cx(1) by (intro linkedD) simp_all
    moreover have "first_at sk' i ys = first_at sk i ys" using hi by (auto intro!: fa)
    ultimately show ?thesis using cx(2) hi by (simp add: assms(8))
  qed
qed

lemma sk_inv_distinct: "sk_inv sk cs \<Longrightarrow> distinct cs"
proof -
  assume "sk_inv sk cs"
  then have "sorted_wrt (<) (map (ky sk) cs)" by (simp add: sk_inv_def sorted_wrt_map)
  then have "distinct (map (ky sk) cs)" by (simp add: strict_sorted_iff)
  then show ?thesis by (simp add: distinct_map)
qed

lemma last_at_above:
  assumes "sk_inv sk cs" "level sk < i"
  shows "last_at sk i (lower sk k cs) = None"
proof -
  have "set (lower sk k cs) \<subseteq> set cs" by (metis lower_upper Un_upper1 set_append)
  moreover have "ht sk a \<le> level sk + 1" if "a \<in> set cs" for a using assms(1) that by (rule sk_invD(4))
  ultimately show ?thesis using assms(2) by (fastforce simp: last_at_None)
qed

lemma update_levels:
  assumes "sk_inv sk cs" "nl < NUM_LEVELS" "length update = NUM_LEVELS"
    and "\<forall>i \<le> level sk. update ! i = Some (last_at sk i (lower sk k cs))"
  shows "wp (if level sk < nl then for_up (level sk + 1) (nl + 1) (\<lambda>i update. wr update i (Some None)) update else Some update)
    (\<lambda>update'. length update' = NUM_LEVELS \<and> (\<forall>i \<le> nl. update' ! i = Some (last_at sk i (lower sk k cs))))"
proof (cases "level sk < nl")
  case True
  have "wp (for_up (level sk + 1) (nl + 1) (\<lambda>i update. wr update i (Some None)) update)
    (\<lambda>update'. length update' = NUM_LEVELS \<and> (\<forall>i \<le> nl. update' ! i = Some (last_at sk i (lower sk k cs))))"
  proof (rule wp_for_up [where I = "\<lambda>j u. length u = NUM_LEVELS \<and> (\<forall>i < j. u ! i = Some (last_at sk i (lower sk k cs)))"])
    show "length update = NUM_LEVELS \<and> (\<forall>i < level sk + 1. update ! i = Some (last_at sk i (lower sk k cs)))"
      using assms by (simp add: less_Suc_eq_le)
    fix i u assume "level sk + 1 \<le> i" "i < nl + 1"
      and I: "length u = NUM_LEVELS \<and> (\<forall>j < i. u ! j = Some (last_at sk j (lower sk k cs)))"
    then show "wp (wr u i (Some None)) (\<lambda>u. length u = NUM_LEVELS \<and> (\<forall>j < Suc i. u ! j = Some (last_at sk j (lower sk k cs))))"
      using assms(2) last_at_above [OF assms(1), of i k] by (auto simp: wp_simps nth_list_update less_Suc_eq)
  qed (use True in \<open>auto simp: less_Suc_eq_le\<close>)
  with True show ?thesis by simp
qed (use assms in \<open>simp add: wp_simps\<close>)

lemma insert_cell_ok:
  assumes inv: "sk_inv sk cs" and "nl < NUM_LEVELS" "length update = NUM_LEVELS"
    and "\<forall>i \<le> level sk. update ! i = Some (last_at sk i (lower sk k cs))"
    and new: "\<forall>a \<in> set (upper sk k cs). k < ky sk a"
  shows "wp (insert_cell k d nl update sk) (\<lambda>sk'. \<exists>cs'. sk_inv sk' cs' \<and> sk_map sk' cs' = (sk_map sk cs)(k \<mapsto> d))"
proof -
  note I = sk_invD [OF inv]
  let ?lo = "lower sk k cs" and ?hi = "upper sk k cs" and ?f = "next_cell sk"
  define sk1 where "sk1 = sk\<lparr>level := max (level sk) nl, cells := (cells sk)(?f := Some \<lparr>key = k, data = d, forward = replicate (nl + 1) None\<rparr>), next_cell := ?f + 1\<rparr>"
  have cs: "?lo @ ?hi = cs" by (rule lower_upper)
  have f: "?f \<notin> set cs" using I(8) by blast
  have fl: "?f \<notin> set ?lo" "?f \<notin> set ?hi" using f cs by (metis UnCI set_append)+
  have l: "linked sk (?lo @ ?hi)" using I(1) cs by simp
  have h1: "ht sk1 a = (if a = ?f then nl + 1 else ht sk a)" "ky sk1 a = (if a = ?f then k else ky sk a)"
    "dt sk1 a = (if a = ?f then d else dt sk a)" for a by (simp_all add: sk1_def ht_def ky_def dt_def)
  have f1: "fwd sk1 e j = fwd sk e j" if "e \<noteq> Some ?f" for e j using that by (simp add: sk1_def fwd_def split: option.splits)
  have hd1: "length (head sk1) = NUM_LEVELS" using I(6) by (simp add: sk1_def)
  have nf: "last_at sk i ?lo \<noteq> Some ?f" for i using fl(1) last_at_in by metis
  have u: "i < height sk1 (last_at sk i ?lo) \<and> fwd sk1 (last_at sk i ?lo) i = Some (first_at sk i ?hi)" if "i \<le> nl" for i
  proof -
    have "i < NUM_LEVELS" using that assms(2) by simp
    then show ?thesis using fwd_last_at [OF l, of i] last_at_height [of i sk ?lo] nf [of i] f1
      by (auto simp: height_def h1 split: option.splits)
  qed
  have fin: "\<exists>cs'. sk_inv sk' cs' \<and> sk_map sk' cs' = (sk_map sk cs)(k \<mapsto> d)" if L: "linked_upto sk sk1 ?f ?lo ?hi (nl + 1) sk'" for sk'
  proof (intro exI conjI)
    let ?cs = "?lo @ ?f # ?hi"
    have sm: "same sk1 sk'" using L by (simp add: linked_upto_def)
    then have h: "ht sk' a = (if a = ?f then nl + 1 else ht sk a)" "ky sk' a = (if a = ?f then k else ky sk a)"
      "dt sk' a = (if a = ?f then d else dt sk a)" for a using h1 by (simp_all add: same_def)
    have lv: "level sk' = max (level sk) nl" "next_cell sk' = ?f + 1" "length (head sk') = length (head sk)"
      "cells sk' a = None \<longleftrightarrow> cells sk a = None \<and> a \<noteq> ?f" for a using sm by (simp_all add: same_def sk1_def)
    have "linked sk' ?cs"
    proof (rule linked_insert [OF l fl _ assms(2)])
      show "distinct (?lo @ ?hi)" using sk_inv_distinct [OF inv] cs by simp
      show "ht sk' a = ht sk a" if "a \<in> set (?lo @ ?hi)" for a using that f cs by (auto simp: h)
      show "fwd sk' e j = (if j \<le> nl \<and> e = last_at sk j ?lo then Some (Some ?f) else fwd sk e j)" if "e \<noteq> Some ?f" for e j
        using L that f1 by (auto simp: linked_upto_def less_Suc_eq_le)
      show "fwd sk' (Some ?f) j = Some (first_at sk j ?hi)" if "j \<le> nl" for j using L that by (simp add: linked_upto_def)
    qed (simp add: h)
    moreover have "sorted_wrt (\<lambda>a b. ky sk' a < ky sk' b) ?cs"
    proof -
      have "sorted_wrt (\<lambda>a b. ky sk a < ky sk b) (?lo @ ?hi)" using I(2) cs by simp
      then have "sorted_wrt (\<lambda>a b. ky sk' a < ky sk' b) (?lo @ ?hi)"
        by (rule sorted_wrt_mono_rel [rotated]) (use fl in \<open>auto simp: h\<close>)
      moreover have "\<forall>a \<in> set ?lo. ky sk' a < k" "\<forall>a \<in> set ?hi. k < ky sk' a" "ky sk' ?f = k"
        using fl new lower_less [of _ sk k cs] by (auto simp: h)
      ultimately show ?thesis by (simp add: sorted_wrt_append)
    qed
    moreover have "\<forall>a. cells sk' a \<noteq> None \<longleftrightarrow> a \<in> set ?cs"
    proof -
      have "set ?cs = insert ?f (set cs)" using cs by (metis Un_insert_right list.simps(15) set_append)
      then show ?thesis using lv(4) I(7) by auto
    qed
    moreover have "\<forall>a \<in> set ?cs. 0 < ht sk' a \<and> ht sk' a \<le> level sk' + 1 \<and> a < next_cell sk'"
    proof
      fix a assume "a \<in> set ?cs"
      then have "a = ?f \<or> a \<in> set cs" using cs by (metis UnCI UnE set_ConsD set_append)
      then show "0 < ht sk' a \<and> ht sk' a \<le> level sk' + 1 \<and> a < next_cell sk'"
        using I(3,4,8) [of a] by (auto simp: h lv)
    qed
    ultimately show "sk_inv sk' ?cs"
      using I(5,6) assms(2) by (simp add: sk_inv_def lv(1-3))
    have m: "map (\<lambda>a. (ky sk' a, dt sk' a)) zs = map (\<lambda>a. (ky sk a, dt sk a)) zs" if "?f \<notin> set zs" for zs
      using that by (auto simp: h)
    have hf: "ky sk' ?f = k" "dt sk' ?f = d" by (simp_all add: h)
    have "k \<notin> ky sk ` set ?lo" using lower_less by (metis imageE less_irrefl)
    then have "k \<notin> dom (map_of (map (\<lambda>a. (ky sk a, dt sk a)) ?lo))" by (simp add: dom_map_of_conv_image_fst image_image)
    then have "sk_map sk' ?cs = (map_of (map (\<lambda>a. (ky sk a, dt sk a)) ?hi) ++ map_of (map (\<lambda>a. (ky sk a, dt sk a)) ?lo))(k \<mapsto> d)"
      by (simp add: sk_map_def m fl hf map_add_upd_left)
    also have "\<dots> = (sk_map sk (?lo @ ?hi))(k \<mapsto> d)" by (simp add: sk_map_def)
    finally show "sk_map sk' ?cs = (sk_map sk cs)(k \<mapsto> d)" by (simp only: cs)
  qed
  have e: "insert_cell k d nl update sk = Option.bind
      (if level sk < nl then for_up (level sk + 1) (nl + 1) (\<lambda>i update. wr update i (Some None)) update else Some update)
      (\<lambda>update. for_up 0 (nl + 1) (link_cell ?f update) sk1)"
    by (simp add: insert_cell_def sk1_def max_def Let_def)
  show ?thesis
    unfolding e wp_bind
  proof (rule wp_mono [OF update_levels [OF inv assms(2-4)]], elim conjE)
    fix update' assume "length update' = NUM_LEVELS" "\<forall>i \<le> nl. update' ! i = Some (last_at sk i ?lo)"
    then show "wp (for_up 0 (nl + 1) (link_cell ?f update') sk1) (\<lambda>sk'. \<exists>cs'. sk_inv sk' cs' \<and> sk_map sk' cs' = (sk_map sk cs)(k \<mapsto> d))"
      using assms(2) fl u hd1 by (intro wp_mono [OF link_cells_ok fin]) (auto simp: h1)
  qed
qed

text \<open>The dictionary that a skip list represents.\<close>

definition represents :: "skiplist \<Rightarrow> (u64 \<Rightarrow> u64 option) \<Rightarrow> bool" where
  "represents sk M \<longleftrightarrow> (\<exists>cs. sk_inv sk cs \<and> sk_map sk cs = M)"

lemma first_at_0:
  assumes "sk_inv sk cs"
  shows "fwd sk (last_at sk 0 (lower sk k cs)) 0 = Some (case upper sk k cs of [] \<Rightarrow> None | a # _ \<Rightarrow> Some a)"
proof -
  have "fwd sk (last_at sk 0 (lower sk k cs)) 0 = Some (first_at sk 0 (upper sk k cs))"
    using sk_invD(1) [OF assms] lower_upper [of sk k cs] by (intro fwd_last_at) (simp_all add: NUM_LEVELS_def)
  moreover have "0 < ht sk a" if "a \<in> set (upper sk k cs)" for a
    using that sk_invD(3) [OF assms] lower_upper [of sk k cs] by (metis UnCI set_append)
  ultimately show ?thesis by (cases "upper sk k cs") simp_all
qed

lemma upper_cell:
  assumes "sk_inv sk cs" "upper sk k cs = a # hi"
  obtains c where "cells sk a = Some c" "key c = ky sk a" "data c = dt sk a" "a \<in> set cs"
proof -
  have "a \<in> set cs" using assms(2) lower_upper [of sk k cs] by (metis in_set_conv_decomp)
  then obtain c where "cells sk a = Some c" using sk_invD(7) [OF assms(1)] by blast
  with \<open>a \<in> set cs\<close> show thesis using that by (simp add: ky_def dt_def)
qed

lemma set_data_ok:
  assumes "sk_inv sk cs" "a \<in> set cs" "cells sk a = Some c" "sk' = sk\<lparr>cells := (cells sk)(a := Some (c\<lparr>data := d\<rparr>))\<rparr>"
  shows "sk_inv sk' cs \<and> sk_map sk' cs = (sk_map sk cs)(ky sk a \<mapsto> d)"
proof
  have e: "ht sk' = ht sk" "ky sk' = ky sk" "dt sk' = (dt sk)(a := d)" "fwd sk' = fwd sk" "level sk' = level sk" "head sk' = head sk"
    "next_cell sk' = next_cell sk" "\<And>b. cells sk' b = None \<longleftrightarrow> cells sk b = None"
    using assms(3,4) by (auto simp: fun_eq_iff ht_def ky_def dt_def fwd_def split: option.splits)
  have "first_at sk' = first_at sk" by (simp add: fun_eq_iff first_at_def e(1))
  moreover have "height sk' = height sk" by (simp add: fun_eq_iff height_def e(1) split: option.splits)
  ultimately show "sk_inv sk' cs" using assms(1) by (simp add: sk_inv_def linked_def e)
  have d: "distinct (map (ky sk) cs)" using sk_invD(2) [OF assms(1)] by (simp add: strict_sorted_iff flip: sorted_wrt_map)
  show "sk_map sk' cs = (sk_map sk cs)(ky sk a \<mapsto> d)"
  proof -
    obtain p q where cs: "cs = p @ a # q" using assms(2) by (meson split_list)
    have "a \<notin> set p" "a \<notin> set q" "ky sk a \<notin> ky sk ` set p" using d cs by auto
    then have m: "map (\<lambda>b. (ky sk b, ((dt sk)(a := d)) b)) p = map (\<lambda>b. (ky sk b, dt sk b)) p"
      "map (\<lambda>b. (ky sk b, ((dt sk)(a := d)) b)) q = map (\<lambda>b. (ky sk b, dt sk b)) q"
      "ky sk a \<notin> dom (map_of (map (\<lambda>b. (ky sk b, dt sk b)) p))" by (auto simp: dom_map_of_conv_image_fst image_image)
    have "sk_map sk' cs = (map_of (map (\<lambda>b. (ky sk b, dt sk b)) q))(ky sk a \<mapsto> d) ++ map_of (map (\<lambda>b. (ky sk b, dt sk b)) p)"
      by (simp only: sk_map_def e cs map_append list.map(2) map_of_append map_of.simps(2) fst_conv snd_conv m(1,2) fun_upd_same)
    with m(3) show ?thesis by (simp add: sk_map_def cs map_add_upd_left)
  qed
qed

lemma insert_ok:
  assumes "represents sk M"
  shows "\<exists>sk' seed'. caml_skiplist_insert sk seed k d = Some (M k \<noteq> None, sk', seed') \<and> represents sk' (M(k \<mapsto> d))"
proof -
  obtain cs where inv: "sk_inv sk cs" and M: "M = sk_map sk cs" using assms by (auto simp: represents_def)
  obtain update where u: "locate sk k = Some (last_at sk 0 (lower sk k cs), update)" "length update = NUM_LEVELS"
    "\<forall>i \<le> level sk. update ! i = Some (last_at sk i (lower sk k cs))"
    using locate_ok [OF inv, of k] by (auto simp: wp_def)
  note f = first_at_0 [OF inv, of k] and up = sk_map_upper [OF sk_invD(2) [OF inv], of k]
  show ?thesis
  proof (cases "M k")
    case (Some d0)
    then obtain a hi where a: "upper sk k cs = a # hi" "ky sk a = k" using up M by (auto split: list.splits if_splits)
    obtain c where c: "cells sk a = Some c" "key c = ky sk a" "a \<in> set cs" using upper_cell [OF inv a(1)] by metis
    show ?thesis
      using set_data_ok [OF inv c(3,1) refl, of d] u(1) f a c Some M
      by (auto simp: caml_skiplist_insert_def represents_def)
  next
    case None
    have new: "\<forall>a \<in> set (upper sk k cs). k < ky sk a"
    proof (cases "upper sk k cs")
      case (Cons a hi)
      then have "ky sk a \<noteq> k" using None M up by (auto split: if_splits)
      moreover have "k \<le> ky sk a" using upper_ge [OF sk_invD(2) [OF inv], of a k] Cons by simp
      ultimately show ?thesis using upper_tail [OF sk_invD(2) [OF inv] Cons] Cons by auto
    qed simp
    obtain nl s where nl: "random_level seed = Some (nl, s)" "nl < NUM_LEVELS" using random_level_ok by metis
    obtain sk' cs' where sk': "insert_cell k d nl update sk = Some sk'" "sk_inv sk' cs'" "sk_map sk' cs' = (sk_map sk cs)(k \<mapsto> d)"
      using insert_cell_ok [OF inv nl(2) u(2,3) new, of d] by (auto simp: wp_def)
    have "caml_skiplist_insert sk seed k d = Some (False, sk', s)"
    proof (cases "upper sk k cs")
      case Nil
      then show ?thesis using u(1) f nl(1) sk'(1) by (simp add: caml_skiplist_insert_def)
    next
      case (Cons a hi)
      then obtain c where "cells sk a = Some c" "key c = ky sk a" using upper_cell [OF inv Cons] by metis
      moreover have "k < ky sk a" using new Cons by simp
      ultimately show ?thesis using u(1) f nl(1) sk'(1) Cons by (simp add: caml_skiplist_insert_def)
    qed
    then show ?thesis using None M sk'(2,3) by (auto simp: represents_def)
  qed
qed

section \<open>Removal\<close>

definition unlinked_upto :: "skiplist \<Rightarrow> nat list \<Rightarrow> nat list \<Rightarrow> nat \<Rightarrow> skiplist \<Rightarrow> bool" where
  "unlinked_upto sk lo hi n sk' \<longleftrightarrow> same sk sk' \<and>
     (\<forall>e j. fwd sk' e j = (if j < n \<and> e = last_at sk j lo then Some (first_at sk j hi) else fwd sk e j))"

lemma unlink_cells_ok:
  assumes "linked sk (lo @ a # hi)" "distinct (lo @ a # hi)" "length (head sk) = NUM_LEVELS" "lv < NUM_LEVELS"
    and "\<forall>i \<le> lv. update ! i = Some (last_at sk i lo)" "length update = NUM_LEVELS"
  shows "wp (for_up 0 (lv + 1) (unlink_cell a update) sk) (unlinked_upto sk lo hi (lv + 1))"
proof (rule wp_for_up [where I = "unlinked_upto sk lo hi"])
  fix i sk' assume i: "i < lv + 1" and I: "unlinked_upto sk lo hi i sk'"
  then have sm: "same sk sk'" and fw: "\<And>e j. fwd sk' e j = (if j < i \<and> e = last_at sk j lo then Some (first_at sk j hi) else fwd sk e j)"
    by (simp_all add: unlinked_upto_def)
  let ?e = "last_at sk i lo"
  have iN: "i < NUM_LEVELS" using i assms(4) by simp
  have u: "update_at update i = Some ?e" using assms(5,6) i iN by (simp add: update_at_def rd_Some)
  have v: "fwd sk' ?e i = Some (first_at sk i (a # hi))" "fwd sk ?e i = Some (first_at sk i (a # hi))"
    using fwd_last_at [OF assms(1) iN] by (simp_all add: fw)
  have h: "length (head sk') = NUM_LEVELS" "i < height sk' ?e"
    using last_at_height [OF iN, of sk lo] same_height [OF sm] sm assms(3) by (simp_all add: same_def)
  show "wp (unlink_cell a update i sk') (unlinked_upto sk lo hi (Suc i))"
  proof (cases "i < ht sk a")
    case True
    have "fwd sk (cur (lo @ [a])) i = Some (first_at sk i hi)" using assms(1) True by (intro linkedD) (simp_all add: height_def)
    then have "unlink_cell a update i sk' = set_fwd ?e i (first_at sk i hi) sk'"
      using True by (simp add: unlink_cell_def u v fw)
    then show ?thesis
      using sm fw by (auto simp: unlinked_upto_def less_Suc_eq intro: same_trans intro!: wp_mono [OF set_fwd_ok [OF h(2,1)]])
  next
    case False
    then have "first_at sk i (a # hi) \<noteq> Some a" using assms(2) by (auto elim!: first_at_Some)
    then have "unlink_cell a update i sk' = Some sk'" using False by (simp add: unlink_cell_def u v)
    moreover have "fwd sk ?e i = Some (first_at sk i hi)" using v(2) False by simp
    ultimately show ?thesis using sm fw by (auto simp: unlinked_upto_def less_Suc_eq wp_simps)
  qed
qed (simp_all add: unlinked_upto_def same_refl)

lemma linked_remove:
  assumes "linked sk (lo @ a # hi)" "distinct (lo @ a # hi)" "\<And>b. b \<in> set (lo @ a # hi) \<Longrightarrow> ht sk b \<le> lv + 1"
    and "\<And>b. b \<noteq> a \<Longrightarrow> ht sk' b = ht sk b"
    and "\<And>e j. e \<noteq> Some a \<Longrightarrow> fwd sk' e j = (if j \<le> lv \<and> e = last_at sk j lo then Some (first_at sk j hi) else fwd sk e j)"
  shows "linked sk' (lo @ hi)"
  unfolding linked_def
proof (intro allI impI)
  fix xs ys i assume e: "lo @ hi = xs @ ys" and i: "i < height sk' (cur xs)"
  have fa: "first_at sk' i zs = first_at sk i zs" if "a \<notin> set zs" for zs
    using that assms(4) by (intro first_at_cong) metis
  have "a \<notin> set (lo @ hi)" using assms(2) by simp
  then have a: "a \<notin> set xs" "a \<notin> set ys" unfolding e by simp_all
  have c: "cur xs \<noteq> Some a" using a(1) by (auto simp: cur_def)
  have h: "i < height sk (cur xs)" using i assms(4) a(1) c by (auto simp: height_def cur_def split: option.splits if_splits)
  from e have "(\<exists>us. lo = xs @ us \<and> ys = us @ hi) \<or> (\<exists>us. xs = lo @ us \<and> hi = us @ ys)" by (auto simp: append_eq_append_conv2)
  then consider rest where "lo = xs @ rest" "ys = rest @ hi" | xs2 where "xs = lo @ xs2" "hi = xs2 @ ys" "xs2 \<noteq> []"
    by (metis append_Nil append_Nil2)
  then show "fwd sk' (cur xs) i = Some (first_at sk' i ys)"
  proof cases
    case (1 rest)
    have old: "fwd sk (cur xs) i = Some (first_at sk i (rest @ a # hi))" using assms(1) 1 h by (intro linkedD) simp_all
    show ?thesis
    proof (cases "first_at sk i rest")
      case None
      then have r: "first_at sk i (rev rest) = None" by (simp add: first_at_None)
      have l: "last_at sk i lo = cur xs"
        using 1 h r by (cases xs rule: rev_cases) (auto simp: last_at_def first_at_append height_def split: option.splits)
      show ?thesis
      proof (cases "i \<le> lv")
        case True
        with l c None 1 a show ?thesis by (simp add: assms(5) fa first_at_append)
      next
        case False
        then have "first_at sk i (rest @ a # hi) = None" "first_at sk i ys = None" using assms(3) 1 by (force simp: first_at_None)+
        with old False c a show ?thesis by (simp add: assms(5) fa)
      qed
    next
      case (Some b)
      then obtain b' where b': "last_at sk i rest = Some b'" "b' \<in> set rest"
        by (metis first_at_Some in_set_conv_decomp last_at_None last_at_in not_Some_eq)
      then have "last_at sk i lo = Some b'" using 1 by (simp add: last_at_append)
      moreover have "cur xs \<noteq> Some b'" using assms(2) 1 b' by (simp add: cur_def disjoint_iff) (metis last_in_set)
      ultimately show ?thesis using old Some 1 c a by (simp add: assms(5) fa first_at_append)
    qed
  next
    case (2 xs2)
    have "cur xs = cur (lo @ a # xs2)" using 2 by (simp add: cur_def)
    then have "fwd sk (cur xs) i = Some (first_at sk i ys)" using assms(1) 2 h by (metis Cons_eq_appendI append.assoc linkedD)
    moreover have "last_at sk i lo \<noteq> cur xs"
      using 2 assms(2) last_at_in [of sk i lo] by (simp add: cur_def disjoint_iff) (metis last_in_set)
    ultimately show ?thesis using c a by (simp add: assms(5) fa)
  qed
qed

lemma level_updates:
  "ht (s\<lparr>level := n\<rparr>) = ht s" "ky (s\<lparr>level := n\<rparr>) = ky s" "dt (s\<lparr>level := n\<rparr>) = dt s" "fwd (s\<lparr>level := n\<rparr>) = fwd s"
  "first_at (s\<lparr>level := n\<rparr>) = first_at s" "height (s\<lparr>level := n\<rparr>) = height s"
  by (simp_all add: fun_eq_iff ht_def ky_def dt_def fwd_def first_at_def height_def split: option.splits)

lemma drop_levels_ok:
  assumes "sk_inv sk cs"
  shows "wp (drop_levels sk) (\<lambda>sk'. sk_inv sk' cs \<and> sk_map sk' cs = sk_map sk cs)"
  unfolding drop_levels_def
proof (rule wp_whileM [where I = "\<lambda>sk'. sk_inv sk' cs \<and> sk_map sk' cs = sk_map sk cs" and m = level])
  fix s assume I: "sk_inv s cs \<and> sk_map s cs = sk_map sk cs"
  then have inv: "sk_inv s cs" by simp
  let ?s = "s\<lparr>level := level s - 1\<rparr>"
  have "sk_inv ?s cs \<and> sk_map ?s cs = sk_map sk cs" if "0 < level s" "head s ! level s = None"
  proof -
    have "fwd s (cur []) (level s) = Some (first_at s (level s) cs)"
      using sk_invD(1,5) [OF inv] by (intro linkedD) (simp_all add: height_def)
    then have "first_at s (level s) cs = None"
      using that(2) sk_invD(5,6) [OF inv] by (simp add: fwd_def rd_Some)
    then have "\<forall>a \<in> set cs. ht s a \<le> level s" by (auto simp: first_at_None not_less)
    then show ?thesis using I that(1) by (auto simp: sk_inv_def linked_def sk_map_def level_updates)
  qed
  then show "wp (if 0 < level s then do { v \<leftarrow> rd (head s) (level s); Some (v = None) } else Some False)
      (\<lambda>t. if t then wp (Some ?s) (\<lambda>s'. (sk_inv s' cs \<and> sk_map s' cs = sk_map sk cs) \<and> level s' < level s)
           else sk_inv s cs \<and> sk_map s cs = sk_map sk cs)"
    using I sk_invD(5,6) [OF inv] by (auto simp: wp_simps)
qed (use assms in simp)

lemma remove_ok:
  assumes "represents sk M"
  shows "\<exists>sk'. caml_skiplist_remove sk k = Some (M k \<noteq> None, sk') \<and> represents sk' (M(k := None))"
proof -
  obtain cs where inv: "sk_inv sk cs" and M: "M = sk_map sk cs" using assms by (auto simp: represents_def)
  obtain update where u: "locate sk k = Some (last_at sk 0 (lower sk k cs), update)" "length update = NUM_LEVELS"
    "\<forall>i \<le> level sk. update ! i = Some (last_at sk i (lower sk k cs))"
    using locate_ok [OF inv, of k] by (auto simp: wp_def)
  note f = first_at_0 [OF inv, of k] and up = sk_map_upper [OF sk_invD(2) [OF inv], of k]
  show ?thesis
  proof (cases "M k")
    case None
    have "caml_skiplist_remove sk k = Some (False, sk)"
    proof (cases "upper sk k cs")
      case (Cons a hi)
      then obtain c where "cells sk a = Some c" "key c = ky sk a" using upper_cell [OF inv Cons] by metis
      moreover have "ky sk a \<noteq> k" using Cons up None M by (auto split: if_splits)
      ultimately show ?thesis using u(1) f Cons by (simp add: caml_skiplist_remove_def)
    qed (use u(1) f in \<open>simp add: caml_skiplist_remove_def\<close>)
    moreover have "M(k := None) = M" using None by auto
    ultimately show ?thesis using None assms by auto
  next
    case (Some d0)
    then obtain a hi where a: "upper sk k cs = a # hi" "ky sk a = k" using up M by (auto split: list.splits if_splits)
    obtain c where c: "cells sk a = Some c" "key c = ky sk a" "a \<in> set cs" using upper_cell [OF inv a(1)] by metis
    let ?lo = "lower sk k cs"
    have cs: "cs = ?lo @ a # hi" using lower_upper [of sk k cs] a(1) by simp
    have ds: "distinct (?lo @ a # hi)" using sk_inv_distinct [OF inv] cs by simp
    obtain sk1 where sk1: "for_up 0 (level sk + 1) (unlink_cell a update) sk = Some sk1" "unlinked_upto sk ?lo hi (level sk + 1) sk1"
      using unlink_cells_ok [of sk ?lo a hi "level sk" update] sk_invD [OF inv] cs ds u(2,3) by (auto simp: wp_def)
    define sk2 where "sk2 = sk1\<lparr>cells := (cells sk1)(a := None)\<rparr>"
    have sm: "same sk sk1" using sk1(2) by (simp add: unlinked_upto_def)
    have h: "ht sk2 b = ht sk b" "ky sk2 b = ky sk b" "dt sk2 b = dt sk b" if "b \<noteq> a" for b
    proof -
      have "ht sk2 b = ht sk1 b" "ky sk2 b = ky sk1 b" "dt sk2 b = dt sk1 b" using that by (simp_all add: sk2_def ht_def ky_def dt_def)
      then show "ht sk2 b = ht sk b" "ky sk2 b = ky sk b" "dt sk2 b = dt sk b" using sm by (simp_all add: same_def)
    qed
    have lv: "level sk2 = level sk" "next_cell sk2 = next_cell sk" "length (head sk2) = length (head sk)"
      "cells sk2 b = None \<longleftrightarrow> cells sk b = None \<or> b = a" for b using sm by (simp_all add: sk2_def same_def)
    have na: "a \<notin> set (?lo @ hi)" using ds by simp
    have "sk_inv sk2 (?lo @ hi)"
    proof -
      have "linked sk2 (?lo @ hi)"
      proof (rule linked_remove [OF _ ds, where sk = sk and lv = "level sk"])
        show "linked sk (?lo @ a # hi)" using sk_invD(1) [OF inv] cs by simp
        show "ht sk b \<le> level sk + 1" if "b \<in> set (?lo @ a # hi)" for b using that cs sk_invD(4) [OF inv, of b] by simp
        show "fwd sk2 e j = (if j \<le> level sk \<and> e = last_at sk j ?lo then Some (first_at sk j hi) else fwd sk e j)"
          if "e \<noteq> Some a" for e j
        proof -
          have "fwd sk2 e j = fwd sk1 e j" using that by (simp add: sk2_def fwd_def split: option.splits)
          then show ?thesis using sk1(2) by (simp add: unlinked_upto_def less_Suc_eq_le)
        qed
      qed (simp add: h)
      moreover have "sorted_wrt (\<lambda>b b'. ky sk2 b < ky sk2 b') (?lo @ hi)"
      proof -
        have "sorted_wrt (\<lambda>b b'. ky sk b < ky sk b') (?lo @ a # hi)" using sk_invD(2) [OF inv] cs by simp
        then have "sorted_wrt (\<lambda>b b'. ky sk b < ky sk b') (?lo @ hi)" by (simp add: sorted_wrt_append)
        then show ?thesis by (rule sorted_wrt_mono_rel [rotated]) (metis h(2) na)
      qed
      moreover have "b \<in> set (?lo @ hi) \<longleftrightarrow> b \<in> set cs \<and> b \<noteq> a" for b
        using na cs by (metis Un_iff list.set_intros(1) list.set_intros(2) set_ConsD set_append)
      ultimately show ?thesis
        using sk_invD(3-8) [OF inv] unfolding sk_inv_def lv by (auto simp: h lv(4))
    qed
    moreover have "sk_map sk2 (?lo @ hi) = M(k := None)"
    proof -
      have m: "map (\<lambda>b. (ky sk2 b, dt sk2 b)) zs = map (\<lambda>b. (ky sk b, dt sk b)) zs" if "a \<notin> set zs" for zs
        using that by (metis (no_types, lifting) h(2,3) map_eq_conv)
      have "k \<notin> ky sk ` set ?lo" "k \<notin> ky sk ` set hi"
        using lower_less [of _ sk k cs] upper_tail [OF sk_invD(2) [OF inv] a(1)] by (metis imageE less_irrefl)+
      then have "map_of (map (\<lambda>b. (ky sk b, dt sk b)) (?lo @ hi)) k = None"
        by (simp add: map_of_eq_None_iff image_image image_Un)
      moreover have "map_of (map (\<lambda>b. (ky sk b, dt sk b)) (?lo @ a # hi)) x = map_of (map (\<lambda>b. (ky sk b, dt sk b)) (?lo @ hi)) x"
        if "x \<noteq> k" for x using that a(2) by (simp add: map_add_def split: option.splits)
      moreover have "M = map_of (map (\<lambda>b. (ky sk b, dt sk b)) (?lo @ a # hi))" using M cs by (metis sk_map_def)
      ultimately show ?thesis by (auto simp: sk_map_def m [OF na] fun_eq_iff simp del: map_append)
    qed
    ultimately have "sk_inv sk2 (?lo @ hi) \<and> sk_map sk2 (?lo @ hi) = M(k := None)" ..
    then obtain sk3 where "drop_levels sk2 = Some sk3" "represents sk3 (M(k := None))"
      using drop_levels_ok [of sk2 "?lo @ hi"] by (auto simp: wp_def represents_def)
    then show ?thesis using u(1) f a c sk1(1) Some by (auto simp: caml_skiplist_remove_def sk2_def)
  qed
qed

section \<open>Iteration and initialisation\<close>

lemma init_ok: "represents (caml_skiplist_init n) Map.empty"
proof -
  have "sk_inv (caml_skiplist_init n) []"
    by (auto simp: sk_inv_def linked_def caml_skiplist_init_def height_def fwd_def rd_Some NUM_LEVELS_def)
  moreover have "sk_map (caml_skiplist_init n) [] = Map.empty" by (simp add: sk_map_def)
  ultimately show ?thesis by (auto simp: represents_def)
qed

lemma next_cell_0:
  assumes "sk_inv sk cs" "cs = xs @ ys"
  shows "fwd sk (cur xs) 0 = Some (case ys of [] \<Rightarrow> None | a # _ \<Rightarrow> Some a)"
proof -
  note inv = sk_invD [OF assms(1)]
  have "0 < height sk (cur xs)"
    using assms(2) inv(3) [of "last xs"] last_in_set [of xs] by (auto simp: height_def cur_def NUM_LEVELS_def)
  then have "fwd sk (cur xs) 0 = Some (first_at sk 0 ys)" using inv(1) assms(2) by (intro linkedD) simp_all
  moreover have "first_at sk 0 ys = (case ys of [] \<Rightarrow> None | a # _ \<Rightarrow> Some a)"
    using assms(2) inv(3) by (cases ys) auto
  ultimately show ?thesis by simp
qed

lemma forward_0:
  assumes "sk_inv sk cs" "cs = xs @ a # ys"
  obtains c where "cells sk a = Some c" "key c = ky sk a" "data c = dt sk a" "rd (forward c) 0 = Some (case ys of [] \<Rightarrow> None | a # _ \<Rightarrow> Some a)"
proof -
  obtain c where c: "cells sk a = Some c" using sk_invD(7) [OF assms(1), of a] assms(2) by auto
  with next_cell_0 [OF assms(1), of "xs @ [a]" ys] assms(2) show thesis by (auto simp: fwd_def ky_def dt_def intro: that)
qed

lemma elements_ok:
  assumes "sk_inv sk cs"
  shows "skiplist_elements sk = Some (map (\<lambda>a. (ky sk a, dt sk a)) cs)"
proof -
  have "whileM (\<lambda>(e, xs). Some (e \<noteq> None))
      (\<lambda>(e, xs). do { a \<leftarrow> e; c \<leftarrow> cells sk a; e \<leftarrow> rd (forward c) 0; Some (e, xs @ [(key c, data c)]) })
      (case ys of [] \<Rightarrow> None | a # _ \<Rightarrow> Some a, map (\<lambda>a. (ky sk a, dt sk a)) xs) =
    Some (None, map (\<lambda>a. (ky sk a, dt sk a)) cs)" if "cs = xs @ ys" for xs ys
    using that
  proof (induction ys arbitrary: xs)
    case (Cons a ys)
    obtain c where "cells sk a = Some c" "key c = ky sk a" "data c = dt sk a"
      "rd (forward c) 0 = Some (case ys of [] \<Rightarrow> None | a # _ \<Rightarrow> Some a)" using assms Cons.prems by (rule forward_0)
    then show ?case using Cons.IH [of "xs @ [a]"] Cons.prems by (subst whileM_True) simp_all
  qed (simp add: whileM_False)
  from this [of "[]" cs] next_cell_0 [OF assms, of "[]" cs] show ?thesis by (simp add: skiplist_elements_def fwd_def)
qed

lemma empty_ok:
  assumes "sk_inv sk cs"
  shows "\<exists>sk'. caml_skiplist_empty sk = Some sk' \<and> represents sk' Map.empty"
proof -
  note inv = sk_invD [OF assms]
  let ?rest = "\<lambda>xs. sk\<lparr>cells := (\<lambda>a. if a \<in> set xs then None else cells sk a)\<rparr>"
  have "whileM (\<lambda>(e, sk). Some (e \<noteq> None)) free_cell
      (case ys of [] \<Rightarrow> None | a # _ \<Rightarrow> Some a, ?rest xs) = Some (None, ?rest cs)" if "cs = xs @ ys" for xs ys
    using that
  proof (induction ys arbitrary: xs)
    case (Cons a ys)
    have "a \<notin> set xs" using sk_inv_distinct [OF assms] Cons.prems by simp
    moreover have "(\<lambda>b. if b \<in> set xs then None else cells sk b)(a := None) = (\<lambda>b. if b \<in> set (xs @ [a]) then None else cells sk b)" by auto
    moreover obtain c where "cells sk a = Some c" "rd (forward c) 0 = Some (case ys of [] \<Rightarrow> None | a # _ \<Rightarrow> Some a)"
      using assms Cons.prems by (rule forward_0)
    ultimately have "free_cell (Some a, ?rest xs) = Some (case ys of [] \<Rightarrow> None | a # _ \<Rightarrow> Some a, ?rest (xs @ [a]))"
      by (simp add: free_cell_def)
    then show ?case using Cons.IH [of "xs @ [a]"] Cons.prems by (subst whileM_True) simp_all
  qed (simp add: whileM_False)
  note loop = this [of "[]" cs]
  have above: "head sk ! i = None" if "level sk < i" "i < NUM_LEVELS" for i
  proof -
    have "fwd sk (cur []) i = Some (first_at sk i cs)" using inv(1) that by (intro linkedD) (simp_all add: height_def)
    moreover have "first_at sk i cs = None" using inv(4) that by (fastforce simp: first_at_None)
    ultimately show ?thesis using that inv(6) by (simp add: fwd_def rd_Some)
  qed
  have "wp (for_up 0 (level sk + 1) (\<lambda>i h. wr h i None) (head sk)) (\<lambda>h. h = replicate NUM_LEVELS None)"
  proof (rule wp_for_up [where I = "\<lambda>n h. length h = NUM_LEVELS \<and> (\<forall>i < NUM_LEVELS. i < n \<or> level sk < i \<longrightarrow> h ! i = None)"])
    fix h :: "nat option list"
    assume "length h = NUM_LEVELS \<and> (\<forall>i < NUM_LEVELS. i < level sk + 1 \<or> level sk < i \<longrightarrow> h ! i = None)"
    then show "h = replicate NUM_LEVELS None" by (intro nth_equalityI) auto
  qed (use inv(5,6) above in \<open>auto simp: wp_simps nth_list_update less_Suc_eq\<close>)
  moreover have "cells sk a = None" if "a \<notin> set cs" for a using inv(7) [of a] that by blast
  then have "(\<lambda>a. if a \<in> set cs then None else cells sk a) = (\<lambda>_. None)" by auto
  ultimately have "caml_skiplist_empty sk = Some (caml_skiplist_init (next_cell sk))"
    using loop next_cell_0 [OF assms, of "[]" cs]
    by (auto simp: caml_skiplist_empty_def fwd_def wp_def caml_skiplist_init_def)
  then show ?thesis using init_ok by metis
qed

section \<open>Dictionaries\<close>

text \<open>The entry with the largest key that is at most \<open>k\<close>.\<close>

definition below :: "('k::linorder \<Rightarrow> 'v option) \<Rightarrow> 'k \<Rightarrow> ('k \<times> 'v) option \<Rightarrow> bool" where
  "below M k r \<longleftrightarrow> (case r of
     None \<Rightarrow> \<forall>x \<le> k. M x = None
   | Some (x, v) \<Rightarrow> x \<le> k \<and> M x = Some v \<and> (\<forall>y \<le> k. M y \<noteq> None \<longrightarrow> y \<le> x))"

datatype ('k, 'v) dict_op = Insert 'k 'v | Remove 'k | Find 'k | Find_below 'k

datatype ('k, 'v) dict_result = Was_present bool | Found "'v option" | Found_below "('k \<times> 'v) option"

definition after :: "('k, 'v) dict_op \<Rightarrow> ('k \<Rightarrow> 'v option) \<Rightarrow> 'k \<Rightarrow> 'v option" where
  "after p M = (case p of Insert k v \<Rightarrow> M(k \<mapsto> v) | Remove k \<Rightarrow> M(k := None) | _ \<Rightarrow> M)"

definition answers :: "('k::linorder, 'v) dict_op \<Rightarrow> ('k \<Rightarrow> 'v option) \<Rightarrow> ('k, 'v) dict_result \<Rightarrow> bool" where
  "answers p M r = (case p of
     Insert k v \<Rightarrow> r = Was_present (M k \<noteq> None)
   | Remove k \<Rightarrow> r = Was_present (M k \<noteq> None)
   | Find k \<Rightarrow> r = Found (M k)
   | Find_below k \<Rightarrow> (\<exists>b. r = Found_below b \<and> below M k b))"

primrec meets_spec :: "('k::linorder, 'v) dict_op list \<Rightarrow> ('k \<Rightarrow> 'v option) \<Rightarrow> ('k, 'v) dict_result list \<Rightarrow> bool" where
  "meets_spec [] M rs \<longleftrightarrow> rs = []"
| "meets_spec (p # ps) M rs \<longleftrightarrow> (\<exists>r rs'. rs = r # rs' \<and> answers p M r \<and> meets_spec ps (after p M) rs')"

text \<open>Running operations on a dictionary with the given functions; \<open>r\<close> is the state of the random number generator.\<close>

primrec run_ops :: "('s \<Rightarrow> 'k \<Rightarrow> 'v option option) \<Rightarrow> ('s \<Rightarrow> 'k \<Rightarrow> ('k \<times> 'v) option option) \<Rightarrow>
    ('s \<Rightarrow> 'r \<Rightarrow> 'k \<Rightarrow> 'v \<Rightarrow> (bool \<times> 's \<times> 'r) option) \<Rightarrow> ('s \<Rightarrow> 'k \<Rightarrow> (bool \<times> 's) option) \<Rightarrow>
    ('k, 'v) dict_op list \<Rightarrow> 's \<Rightarrow> 'r \<Rightarrow> ('k, 'v) dict_result list option" where
  "run_ops look look_below ins del [] d r = Some []"
| "run_ops look look_below ins del (p # ps) d r = do {
     (x, d, r) \<leftarrow> (case p of
         Insert k v \<Rightarrow> do { (b, d, r) \<leftarrow> ins d r k v; Some (Was_present b, d, r) }
       | Remove k \<Rightarrow> do { (b, d) \<leftarrow> del d k; Some (Was_present b, d, r) }
       | Find k \<Rightarrow> do { v \<leftarrow> look d k; Some (Found v, d, r) }
       | Find_below k \<Rightarrow> do { v \<leftarrow> look_below d k; Some (Found_below v, d, r) });
     xs \<leftarrow> run_ops look look_below ins del ps d r;
     Some (x # xs) }"

text \<open>What the users of a dictionary rely on.\<close>

locale dictionary =
  fixes rep :: "'s \<Rightarrow> ('k::linorder \<Rightarrow> 'v option) \<Rightarrow> bool"
    and look :: "'s \<Rightarrow> 'k \<Rightarrow> 'v option option"
    and look_below :: "'s \<Rightarrow> 'k \<Rightarrow> ('k \<times> 'v) option option"
    and ins :: "'s \<Rightarrow> 'r \<Rightarrow> 'k \<Rightarrow> 'v \<Rightarrow> (bool \<times> 's \<times> 'r) option"
    and del :: "'s \<Rightarrow> 'k \<Rightarrow> (bool \<times> 's) option"
    and elements :: "'s \<Rightarrow> ('k \<times> 'v) list option"
  assumes find_law: "rep d M \<Longrightarrow> look d k = Some (M k)"
    and find_below_law: "rep d M \<Longrightarrow> \<exists>b. look_below d k = Some b \<and> below M k b"
    and insert_law: "rep d M \<Longrightarrow> \<exists>d' r'. ins d r k v = Some (M k \<noteq> None, d', r') \<and> rep d' (M(k \<mapsto> v))"
    and remove_law: "rep d M \<Longrightarrow> \<exists>d'. del d k = Some (M k \<noteq> None, d') \<and> rep d' (M(k := None))"
    and elements_law: "rep d M \<Longrightarrow> \<exists>xs. elements d = Some xs \<and> sorted_wrt (<) (map fst xs) \<and> map_of xs = M"
begin

lemma run_meets_spec: "rep d M \<Longrightarrow> \<exists>rs. run_ops look look_below ins del ps d r = Some rs \<and> meets_spec ps M rs"
proof (induction ps arbitrary: d r M)
  case (Cons p ps)
  have "\<exists>x d' r'. (case p of
         Insert k v \<Rightarrow> do { (b, d, r) \<leftarrow> ins d r k v; Some (Was_present b, d, r) }
       | Remove k \<Rightarrow> do { (b, d) \<leftarrow> del d k; Some (Was_present b, d, r) }
       | Find k \<Rightarrow> do { v \<leftarrow> look d k; Some (Found v, d, r) }
       | Find_below k \<Rightarrow> do { v \<leftarrow> look_below d k; Some (Found_below v, d, r) }) = Some (x, d', r') \<and>
      answers p M x \<and> rep d' (after p M)"
  proof (cases p)
    case (Insert k v)
    then show ?thesis using insert_law [OF Cons.prems, of r k v] by (auto simp: answers_def after_def)
  next
    case (Remove k)
    then show ?thesis using remove_law [OF Cons.prems, of k] by (auto simp: answers_def after_def)
  next
    case (Find k)
    then show ?thesis using find_law [OF Cons.prems, of k] Cons.prems by (auto simp: answers_def after_def)
  next
    case (Find_below k)
    then show ?thesis using find_below_law [OF Cons.prems, of k] Cons.prems by (auto simp: answers_def after_def)
  qed
  then obtain x d' r' where "answers p M x" "rep d' (after p M)" "(case p of
         Insert k v \<Rightarrow> do { (b, d, r) \<leftarrow> ins d r k v; Some (Was_present b, d, r) }
       | Remove k \<Rightarrow> do { (b, d) \<leftarrow> del d k; Some (Was_present b, d, r) }
       | Find k \<Rightarrow> do { v \<leftarrow> look d k; Some (Found v, d, r) }
       | Find_below k \<Rightarrow> do { v \<leftarrow> look_below d k; Some (Found_below v, d, r) }) = Some (x, d', r')" by blast
  with Cons.IH [of d' "after p M" r'] show ?case by auto
qed simp

lemma insert_all:
  assumes "rep d M"
  shows "\<exists>d' r'. foldM (\<lambda>k (d, r). do { (b, d, r) \<leftarrow> ins d r k v; Some (d, r) }) ks (d, r) = Some (d', r') \<and>
           rep d' (\<lambda>k. if k \<in> set ks then Some v else M k)"
  using assms
proof (induction ks arbitrary: d r M)
  case (Cons k ks)
  from insert_law [OF Cons.prems, of r k v] obtain d1 r1 where "ins d r k v = Some (M k \<noteq> None, d1, r1)" and rep1: "rep d1 (M(k \<mapsto> v))" by blast
  moreover have "(\<lambda>x. if x \<in> set ks then Some v else (M(k \<mapsto> v)) x) = (\<lambda>x. if x \<in> set (k # ks) then Some v else M x)" by auto
  ultimately show ?case using Cons.IH [OF rep1, of r1] by simp
qed simp

end

lemma sk_map_in: "sorted_wrt (\<lambda>a b. ky sk a < ky sk b) cs \<Longrightarrow> a \<in> set cs \<Longrightarrow> sk_map sk cs (ky sk a) = Some (dt sk a)"
proof -
  assume "sorted_wrt (\<lambda>a b. ky sk a < ky sk b) cs" "a \<in> set cs"
  then have "distinct (map fst (map (\<lambda>a. (ky sk a, dt sk a)) cs))"
    by (simp add: strict_sorted_iff comp_def flip: sorted_wrt_map)
  moreover have "(ky sk a, dt sk a) \<in> set (map (\<lambda>a. (ky sk a, dt sk a)) cs)" using \<open>a \<in> set cs\<close> by auto
  ultimately show ?thesis unfolding sk_map_def by (rule map_of_is_SomeI)
qed

lemma find_below_law:
  assumes "represents sk M"
  shows "\<exists>b. caml_skiplist_find_below sk k = Some b \<and> below M k b"
proof -
  obtain cs where inv: "sk_inv sk cs" and M: "M = sk_map sk cs" using assms by (auto simp: represents_def)
  note so = sk_invD(2) [OF inv]
  let ?lo = "takeWhile (\<lambda>a. ky sk a \<le> k) cs"
  have lo: "a \<in> set (takeWhile (\<lambda>a. ky sk a \<le> k) zs)"
    if "sorted_wrt (\<lambda>a b. ky sk a < ky sk b) zs" "a \<in> set zs" "ky sk a \<le> k" for a zs
    using that by (induction zs) (auto dest: order_less_le_trans)
  have sub: "set ?lo \<subseteq> set cs" by (auto dest: set_takeWhileD)
  have dom: "\<exists>a \<in> set cs. ky sk a = y" if "M y \<noteq> None" for y using that M by (auto simp: sk_map_def dest!: map_of_SomeD)
  have "below M k (if ?lo = [] then None else Some (ky sk (last ?lo), dt sk (last ?lo)))"
  proof (cases "?lo = []")
    case True
    have "M y = None" if "y \<le> k" for y
    proof (rule ccontr)
      assume "M y \<noteq> None"
      then obtain a where "a \<in> set cs" "ky sk a = y" using dom by blast
      with lo [OF so, of a] that True show False by simp
    qed
    with True show ?thesis by (simp add: below_def)
  next
    case False
    let ?a = "last ?lo"
    have a: "?a \<in> set ?lo" using False by simp
    then have ka: "ky sk ?a \<le> k" using set_takeWhileD [of ?a "\<lambda>a. ky sk a \<le> k" cs] by simp
    have va: "M (ky sk ?a) = Some (dt sk ?a)" using sk_map_in [OF so, of ?a] a sub M by auto
    have "y \<le> ky sk ?a" if y: "y \<le> k" "M y \<noteq> None" for y
    proof -
      obtain b where b: "b \<in> set cs" "ky sk b = y" using dom [OF y(2)] by blast
      then have bl: "b \<in> set ?lo" using lo [OF so, of b] y(1) by simp
      have "sorted_wrt (\<lambda>a b. ky sk a < ky sk b) (?lo @ dropWhile (\<lambda>a. ky sk a \<le> k) cs)" using so by simp
      then have "sorted_wrt (\<lambda>a b. ky sk a < ky sk b) ?lo" unfolding sorted_wrt_append by blast
      then have "sorted_wrt (\<lambda>a b. ky sk a < ky sk b) (butlast ?lo @ [?a])" using False by simp
      then have "\<forall>c \<in> set (butlast ?lo). ky sk c < ky sk ?a" by (simp add: sorted_wrt_append)
      moreover have "set ?lo = set (butlast ?lo) \<union> {?a}" using False by (metis append_butlast_last_id list.set(1) list.set(2) set_append)
      ultimately show ?thesis using b(2) bl by auto
    qed
    with False ka va show ?thesis by (simp add: below_def)
  qed
  then show ?thesis using find_below_ok [OF inv, of k] by (simp add: Let_def)
qed

interpretation sk: dictionary represents caml_skiplist_find caml_skiplist_find_below caml_skiplist_insert caml_skiplist_remove skiplist_elements
proof
  fix d M k assume "represents d M"
  then show "caml_skiplist_find d k = Some (M k)" by (auto simp: represents_def find_ok)
next
  fix d M assume "represents d M"
  then show "\<exists>xs. skiplist_elements d = Some xs \<and> sorted_wrt (<) (map fst xs) \<and> map_of xs = M"
    by (auto simp: represents_def elements_ok sk_map_def sorted_wrt_map comp_def dest: sk_invD(2))
qed (fact find_below_law insert_ok remove_ok)+

text \<open>
  C6. A skip list is a dictionary: whatever sequence of insertions, removals and searches is run on a fresh list, with
  whatever seed for the random levels, the code ends without touching a freed cell or a missing forward
  pointer, and every answer is the one that a finite map gives (whether the key was present, the value
  found, the entry with the largest key below).
\<close>

theorem skiplist_is_dictionary:
  "\<exists>rs. run_ops caml_skiplist_find caml_skiplist_find_below caml_skiplist_insert caml_skiplist_remove ops
      (caml_skiplist_init n) seed = Some rs \<and> meets_spec ops Map.empty rs"
  by (rule sk.run_meets_spec [OF init_ok])

end
