(* ===== verification/Globroots.thy ===== *)
theory Globroots
  imports Skiplist
begin

text \<open>
  Global memory roots (\<^verbatim>\<open>src/runtime/globroots.c\<close>): the three skip lists of roots and the operations that keep a generational
  root in the list that its contents ask for. The memory that the roots are in is a map from addresses to
  words; the bounds of the minor heaps are parameters. Mutual exclusion by \<open>roots_mutex\<close> is not modelled: each
  operation is one step. A scanning action is the function that it applies to the contents of a root.
\<close>

section \<open>The code\<close>

record roots =
  global_roots :: skiplist
  global_roots_young :: skiplist
  global_roots_old :: skiplist
  random_seed :: u32
  mem :: "u64 \<Rightarrow> u64"

datatype gc_root_class = YOUNG | OLD | UNTRACKED

definition classify_gc_root :: "u64 \<times> u64 \<Rightarrow> u64 \<Rightarrow> gc_root_class" where
  "classify_gc_root minor v =
     (if odd v then UNTRACKED
      else if v < snd minor \<and> fst minor < v then YOUNG
      else OLD)"

definition caml_insert_global_root :: "skiplist \<Rightarrow> u64 \<Rightarrow> u32 \<Rightarrow> (skiplist \<times> u32) option" where
  "caml_insert_global_root sk r seed = do { (b, sk, seed) \<leftarrow> caml_skiplist_insert sk seed r 0; Some (sk, seed) }"

definition caml_delete_global_root :: "skiplist \<Rightarrow> u64 \<Rightarrow> skiplist option" where
  "caml_delete_global_root sk r = do { (b, sk) \<leftarrow> caml_skiplist_remove sk r; Some sk }"

definition caml_register_global_root :: "u64 \<Rightarrow> roots \<Rightarrow> roots option" where
  "caml_register_global_root r g = do {
     (sk, seed) \<leftarrow> caml_insert_global_root (global_roots g) r (random_seed g);
     Some (g\<lparr>global_roots := sk, random_seed := seed\<rparr>) }"

definition caml_remove_global_root :: "u64 \<Rightarrow> roots \<Rightarrow> roots option" where
  "caml_remove_global_root r g = do {
     sk \<leftarrow> caml_delete_global_root (global_roots g) r;
     Some (g\<lparr>global_roots := sk\<rparr>) }"

definition insert_young :: "u64 \<Rightarrow> roots \<Rightarrow> roots option" where
  "insert_young r g = do {
     (sk, seed) \<leftarrow> caml_insert_global_root (global_roots_young g) r (random_seed g);
     Some (g\<lparr>global_roots_young := sk, random_seed := seed\<rparr>) }"

definition insert_old :: "u64 \<Rightarrow> roots \<Rightarrow> roots option" where
  "insert_old r g = do {
     (sk, seed) \<leftarrow> caml_insert_global_root (global_roots_old g) r (random_seed g);
     Some (g\<lparr>global_roots_old := sk, random_seed := seed\<rparr>) }"

definition delete_young :: "u64 \<Rightarrow> roots \<Rightarrow> roots option" where
  "delete_young r g = do { sk \<leftarrow> caml_delete_global_root (global_roots_young g) r; Some (g\<lparr>global_roots_young := sk\<rparr>) }"

definition delete_old :: "u64 \<Rightarrow> roots \<Rightarrow> roots option" where
  "delete_old r g = do { sk \<leftarrow> caml_delete_global_root (global_roots_old g) r; Some (g\<lparr>global_roots_old := sk\<rparr>) }"

definition caml_register_generational_global_root :: "u64 \<times> u64 \<Rightarrow> u64 \<Rightarrow> roots \<Rightarrow> roots option" where
  "caml_register_generational_global_root minor r g = (case classify_gc_root minor (mem g r) of
     YOUNG \<Rightarrow> insert_young r g
   | OLD \<Rightarrow> insert_old r g
   | UNTRACKED \<Rightarrow> Some g)"

definition caml_remove_generational_global_root :: "u64 \<times> u64 \<Rightarrow> u64 \<Rightarrow> roots \<Rightarrow> roots option" where
  "caml_remove_generational_global_root minor r g = (case classify_gc_root minor (mem g r) of
     OLD \<Rightarrow> do { g \<leftarrow> delete_old r g; delete_young r g }
   | YOUNG \<Rightarrow> delete_young r g
   | UNTRACKED \<Rightarrow> Some g)"

definition caml_modify_generational_global_root :: "u64 \<times> u64 \<Rightarrow> u64 \<Rightarrow> u64 \<Rightarrow> roots \<Rightarrow> roots option" where
  "caml_modify_generational_global_root minor r newval g = do {
     g \<leftarrow> (case classify_gc_root minor newval of
         YOUNG \<Rightarrow> do {
           let c = classify_gc_root minor (mem g r);
           g \<leftarrow> (if c = OLD then delete_old r g else Some g);
           if c \<noteq> YOUNG then insert_young r g else Some g }
       | OLD \<Rightarrow> if classify_gc_root minor (mem g r) = UNTRACKED then insert_old r g else Some g
       | UNTRACKED \<Rightarrow> caml_remove_generational_global_root minor r g);
     Some (g\<lparr>mem := (mem g)(r := newval)\<rparr>) }"

definition caml_iterate_global_roots :: "(u64 \<Rightarrow> u64) \<Rightarrow> skiplist \<Rightarrow> (u64 \<Rightarrow> u64) \<Rightarrow> (u64 \<Rightarrow> u64) option" where
  "caml_iterate_global_roots f rootlist h = do {
     xs \<leftarrow> skiplist_elements rootlist;
     Some (fold (\<lambda>r h. h(r := f (h r))) (map fst xs) h) }"

definition caml_scan_global_roots :: "(u64 \<Rightarrow> u64) \<Rightarrow> roots \<Rightarrow> roots option" where
  "caml_scan_global_roots f g = do {
     m \<leftarrow> caml_iterate_global_roots f (global_roots g) (mem g);
     m \<leftarrow> caml_iterate_global_roots f (global_roots_young g) m;
     m \<leftarrow> caml_iterate_global_roots f (global_roots_old g) m;
     Some (g\<lparr>mem := m\<rparr>) }"

definition caml_scan_global_young_roots :: "(u64 \<Rightarrow> u64) \<Rightarrow> roots \<Rightarrow> roots option" where
  "caml_scan_global_young_roots f g = do {
     m \<leftarrow> caml_iterate_global_roots f (global_roots g) (mem g);
     m \<leftarrow> caml_iterate_global_roots f (global_roots_young g) m;
     xs \<leftarrow> skiplist_elements (global_roots_young g);
     (old, seed) \<leftarrow> foldM (\<lambda>k (sk, seed). do { (b, sk, seed) \<leftarrow> caml_skiplist_insert sk seed k 0; Some (sk, seed) })
       (map fst xs) (global_roots_old g, random_seed g);
     young \<leftarrow> caml_skiplist_empty (global_roots_young g);
     Some (g\<lparr>mem := m, global_roots_old := old, random_seed := seed, global_roots_young := young\<rparr>) }"

section \<open>The invariant of generational roots\<close>

text \<open>
  \<open>G\<close> is the set of the registered generational roots, \<open>Y\<close> and \<open>Z\<close> are the sets of roots in the two lists.
\<close>

definition root_lists :: "roots \<Rightarrow> u64 set \<Rightarrow> u64 set \<Rightarrow> bool" where
  "root_lists g Y Z \<longleftrightarrow> (\<exists>M N. represents (global_roots_young g) M \<and> dom M = Y \<and> represents (global_roots_old g) N \<and> dom N = Z) \<and>
     (\<exists>R. represents (global_roots g) R)"

definition placed :: "gc_root_class \<Rightarrow> bool \<Rightarrow> bool \<Rightarrow> bool" where
  "placed c y z = (case c of YOUNG \<Rightarrow> y \<and> \<not> z | OLD \<Rightarrow> y \<or> z | UNTRACKED \<Rightarrow> \<not> y \<and> \<not> z)"

definition tracked :: "u64 \<times> u64 \<Rightarrow> (u64 \<Rightarrow> u64) \<Rightarrow> u64 set \<Rightarrow> u64 set \<Rightarrow> u64 set \<Rightarrow> bool" where
  "tracked minor h G Y Z \<longleftrightarrow> Y \<subseteq> G \<and> Z \<subseteq> G \<and> (\<forall>r \<in> G. placed (classify_gc_root minor (h r)) (r \<in> Y) (r \<in> Z))"

definition roots_inv :: "u64 \<times> u64 \<Rightarrow> roots \<Rightarrow> u64 set \<Rightarrow> bool" where
  "roots_inv minor g G \<longleftrightarrow> (\<exists>Y Z. root_lists g Y Z \<and> tracked minor (mem g) G Y Z)"

lemma roots_invI: "root_lists g Y Z \<Longrightarrow> tracked minor (mem g) G Y Z \<Longrightarrow> roots_inv minor g G"
  by (auto simp: roots_inv_def)

lemma insert_root_ok:
  assumes "represents sk M"
  shows "\<exists>sk' seed' N. caml_insert_global_root sk r seed = Some (sk', seed') \<and> represents sk' N \<and> dom N = insert r (dom M)"
proof -
  obtain sk' seed' where "caml_skiplist_insert sk seed r 0 = Some (M r \<noteq> None, sk', seed')" "represents sk' (M(r \<mapsto> 0))"
    using sk.insert_law [OF assms] by blast
  then show ?thesis by (auto simp: caml_insert_global_root_def intro!: exI [of _ "M(r \<mapsto> 0)"])
qed

lemma delete_root_ok:
  assumes "represents sk M"
  shows "\<exists>sk' N. caml_delete_global_root sk r = Some sk' \<and> represents sk' N \<and> dom N = dom M - {r}"
proof -
  obtain sk' where "caml_skiplist_remove sk r = Some (M r \<noteq> None, sk')" "represents sk' (M(r := None))"
    using sk.remove_law [OF assms] by blast
  moreover have "dom (M(r := None)) = dom M - {r}" by (auto split: if_splits)
  ultimately show ?thesis unfolding caml_delete_global_root_def by (intro exI [of _ sk'] exI [of _ "M(r := None)"]) simp
qed

lemma insert_young_ok: "root_lists g Y Z \<Longrightarrow> wp (insert_young r g) (\<lambda>g'. root_lists g' (insert r Y) Z \<and> mem g' = mem g)"
  using insert_root_ok [of "global_roots_young g" _ r "random_seed g"] by (fastforce simp: root_lists_def insert_young_def wp_def)

lemma insert_old_ok: "root_lists g Y Z \<Longrightarrow> wp (insert_old r g) (\<lambda>g'. root_lists g' Y (insert r Z) \<and> mem g' = mem g)"
  using insert_root_ok [of "global_roots_old g" _ r "random_seed g"] by (fastforce simp: root_lists_def insert_old_def wp_def)

lemma delete_young_ok:
  assumes "root_lists g Y Z"
  shows "wp (delete_young r g) (\<lambda>g'. root_lists g' (Y - {r}) Z \<and> mem g' = mem g)"
proof -
  obtain M where "represents (global_roots_young g) M" "dom M = Y" using assms by (auto simp: root_lists_def)
  then obtain sk' M' where "caml_delete_global_root (global_roots_young g) r = Some sk'" "represents sk' M'" "dom M' = Y - {r}"
    using delete_root_ok by metis
  with assms show ?thesis by (simp add: delete_young_def wp_simps root_lists_def) metis
qed

lemma delete_old_ok:
  assumes "root_lists g Y Z"
  shows "wp (delete_old r g) (\<lambda>g'. root_lists g' Y (Z - {r}) \<and> mem g' = mem g)"
proof -
  obtain N where "represents (global_roots_old g) N" "dom N = Z" using assms by (auto simp: root_lists_def)
  then obtain sk' N' where "caml_delete_global_root (global_roots_old g) r = Some sk'" "represents sk' N'" "dom N' = Z - {r}"
    using delete_root_ok by metis
  with assms show ?thesis by (simp add: delete_old_def wp_simps root_lists_def) metis
qed

lemma remove_generational_ok:
  assumes "root_lists g Y Z" "placed (classify_gc_root minor (mem g r)) (r \<in> Y) (r \<in> Z)"
  shows "wp (caml_remove_generational_global_root minor r g) (\<lambda>g'. root_lists g' (Y - {r}) (Z - {r}) \<and> mem g' = mem g)"
proof (cases "classify_gc_root minor (mem g r)")
  case YOUNG
  then have "Z - {r} = Z" using assms(2) by (auto simp: placed_def)
  with YOUNG delete_young_ok [OF assms(1)] show ?thesis by (simp add: caml_remove_generational_global_root_def)
next
  case OLD
  then have e: "caml_remove_generational_global_root minor r g = Option.bind (delete_old r g) (delete_young r)"
    by (simp add: caml_remove_generational_global_root_def)
  show ?thesis
    unfolding e wp_bind
  proof (rule wp_mono [OF delete_old_ok [OF assms(1)]], elim conjE)
    fix g' assume l: "root_lists g' Y (Z - {r})" and m: "mem g' = mem g"
    show "wp (delete_young r g') (\<lambda>g'. root_lists g' (Y - {r}) (Z - {r}) \<and> mem g' = mem g)"
      using delete_young_ok [OF l, of r] unfolding m .
  qed
next
  case UNTRACKED
  then have "Y - {r} = Y" "Z - {r} = Z" using assms(2) by (auto simp: placed_def)
  with UNTRACKED assms(1) show ?thesis by (simp add: caml_remove_generational_global_root_def wp_simps)
qed

lemma trackedD: "tracked minor h G Y Z \<Longrightarrow> r \<in> G \<Longrightarrow> placed (classify_gc_root minor (h r)) (r \<in> Y) (r \<in> Z)"
  by (simp add: tracked_def)

text \<open>One root changes: the others stay as they are.\<close>

lemma tracked_upd:
  assumes "tracked minor h G Y Z" "\<And>x. x \<noteq> r \<Longrightarrow> h' x = h x \<and> (x \<in> G' \<longleftrightarrow> x \<in> G) \<and> (x \<in> Y' \<longleftrightarrow> x \<in> Y) \<and> (x \<in> Z' \<longleftrightarrow> x \<in> Z)"
    and "r \<in> Y' \<union> Z' \<longrightarrow> r \<in> G'" "r \<in> G' \<longrightarrow> placed (classify_gc_root minor (h' r)) (r \<in> Y') (r \<in> Z')"
  shows "tracked minor h' G' Y' Z'"
proof -
  have "x \<in> G'" if "x \<in> Y' \<or> x \<in> Z'" for x
    using that assms(1,3) assms(2) [of x] by (cases "x = r") (auto simp: tracked_def)
  moreover have "placed (classify_gc_root minor (h' x)) (x \<in> Y') (x \<in> Z')" if "x \<in> G'" for x
    using that assms(1,4) assms(2) [of x] by (cases "x = r") (auto simp: tracked_def)
  ultimately show ?thesis by (auto simp: tracked_def)
qed

lemma register_ok:
  assumes "roots_inv minor g G" "r \<notin> G"
  shows "wp (caml_register_generational_global_root minor r g) (\<lambda>g'. roots_inv minor g' (insert r G) \<and> mem g' = mem g)"
proof -
  obtain Y Z where l: "root_lists g Y Z" and t: "tracked minor (mem g) G Y Z" using assms(1) by (auto simp: roots_inv_def)
  have r: "r \<notin> Y" "r \<notin> Z" using t assms(2) by (auto simp: tracked_def)
  show ?thesis
  proof (cases "classify_gc_root minor (mem g r)")
    case YOUNG
    then have "tracked minor (mem g) (insert r G) (insert r Y) Z" using r by (intro tracked_upd [OF t, of r]) (auto simp: placed_def)
    with YOUNG show ?thesis
      by (auto simp: caml_register_generational_global_root_def intro: roots_invI intro!: wp_mono [OF insert_young_ok [OF l]])
  next
    case OLD
    then have "tracked minor (mem g) (insert r G) Y (insert r Z)" using r by (intro tracked_upd [OF t, of r]) (auto simp: placed_def)
    with OLD show ?thesis
      by (auto simp: caml_register_generational_global_root_def intro: roots_invI intro!: wp_mono [OF insert_old_ok [OF l]])
  next
    case UNTRACKED
    then have "tracked minor (mem g) (insert r G) Y Z" using r by (intro tracked_upd [OF t, of r]) (auto simp: placed_def)
    with UNTRACKED l show ?thesis by (auto simp: caml_register_generational_global_root_def wp_simps intro: roots_invI)
  qed
qed

lemma unregister_ok:
  assumes "roots_inv minor g G" "r \<in> G"
  shows "wp (caml_remove_generational_global_root minor r g) (\<lambda>g'. roots_inv minor g' (G - {r}) \<and> mem g' = mem g)"
proof -
  obtain Y Z where l: "root_lists g Y Z" and t: "tracked minor (mem g) G Y Z" using assms(1) by (auto simp: roots_inv_def)
  have "tracked minor (mem g) (G - {r}) (Y - {r}) (Z - {r})" by (intro tracked_upd [OF t, of r]) (auto simp: placed_def)
  then show ?thesis
    by (auto intro: roots_invI intro!: wp_mono [OF remove_generational_ok [OF l trackedD [OF t assms(2)]]])
qed

lemma modify_ok:
  assumes "roots_inv minor g G" "r \<in> G"
  shows "wp (caml_modify_generational_global_root minor r v g) (\<lambda>g'. roots_inv minor g' G \<and> mem g' = (mem g)(r := v))"
proof -
  obtain Y Z where l: "root_lists g Y Z" and t: "tracked minor (mem g) G Y Z" using assms(1) by (auto simp: roots_inv_def)
  have td: "placed (classify_gc_root minor (mem g r)) (r \<in> Y) (r \<in> Z)" using trackedD [OF t assms(2)] .
  have fin: "roots_inv minor (g'\<lparr>mem := (mem g')(r := v)\<rparr>) G \<and> (mem g')(r := v) = (mem g)(r := v)"
    if "root_lists g' Y' Z'" "mem g' = mem g" "tracked minor ((mem g)(r := v)) G Y' Z'" for g' Y' Z'
    using that by (auto simp: roots_inv_def root_lists_def)
  show ?thesis
  proof (cases "classify_gc_root minor v")
    case YOUNG
    then have t': "tracked minor ((mem g)(r := v)) G (insert r Y) (Z - {r})" using assms(2) by (intro tracked_upd [OF t, of r]) (auto simp: placed_def)
    let ?c = "classify_gc_root minor (mem g r)"
    have 1: "wp (if ?c = OLD then delete_old r g else Some g) (\<lambda>g'. root_lists g' Y (Z - {r}) \<and> mem g' = mem g)"
      using delete_old_ok [OF l, of r] l td by (cases ?c) (auto simp: wp_simps placed_def)
    have 2: "wp (if ?c \<noteq> YOUNG then insert_young r g' else Some g') (\<lambda>g''. root_lists g'' (insert r Y) (Z - {r}) \<and> mem g'' = mem g)"
      if "root_lists g' Y (Z - {r}) \<and> mem g' = mem g" for g'
      using that td insert_young_ok [of g' Y "Z - {r}" r] by (cases ?c) (auto simp: wp_simps insert_absorb placed_def)
    have e: "caml_modify_generational_global_root minor r v g = do {
        g' \<leftarrow> (if ?c = OLD then delete_old r g else Some g);
        g' \<leftarrow> (if ?c \<noteq> YOUNG then insert_young r g' else Some g');
        Some (g'\<lparr>mem := (mem g')(r := v)\<rparr>) }"
      using YOUNG by (simp add: caml_modify_generational_global_root_def Let_def)
    show ?thesis
      unfolding e wp_bind
      by (rule wp_mono [OF 1], rule wp_mono [OF 2], assumption) (use fin [OF _ _ t'] in \<open>simp add: wp_simps\<close>)
  next
    case OLD
    show ?thesis
    proof (cases "classify_gc_root minor (mem g r) = UNTRACKED")
      case True
      have t': "tracked minor ((mem g)(r := v)) G Y (insert r Z)" using OLD assms(2) by (intro tracked_upd [OF t, of r]) (auto simp: placed_def)
      show ?thesis
        using OLD True fin [OF _ _ t']
        by (auto simp: caml_modify_generational_global_root_def wp_simps intro!: wp_mono [OF insert_old_ok [OF l]])
    next
      case False
      then have "r \<in> Y \<or> r \<in> Z" using td by (cases "classify_gc_root minor (mem g r)") (auto simp: placed_def)
      then have t': "tracked minor ((mem g)(r := v)) G Y Z" using OLD assms(2) by (intro tracked_upd [OF t, of r]) (auto simp: placed_def)
      show ?thesis using OLD False fin [OF l _ t'] by (auto simp: caml_modify_generational_global_root_def wp_simps)
    qed
  next
    case UNTRACKED
    have t': "tracked minor ((mem g)(r := v)) G (Y - {r}) (Z - {r})" using UNTRACKED by (intro tracked_upd [OF t, of r]) (auto simp: placed_def)
    show ?thesis
      using UNTRACKED fin [OF _ _ t']
      by (auto simp: caml_modify_generational_global_root_def wp_simps intro!: wp_mono [OF remove_generational_ok [OF l td]])
  qed
qed

section \<open>Minor collections\<close>

text \<open>What a scanning action of a minor collection does to a word: it promotes young blocks and leaves the rest.\<close>

definition promotes :: "u64 \<times> u64 \<Rightarrow> (u64 \<Rightarrow> u64) \<Rightarrow> bool" where
  "promotes minor f \<longleftrightarrow> (\<forall>v. if classify_gc_root minor v = YOUNG then classify_gc_root minor (f v) = OLD else f v = v)"

lemma promotesD:
  assumes "promotes minor f"
  shows "classify_gc_root minor v = YOUNG \<Longrightarrow> classify_gc_root minor (f v) = OLD" "classify_gc_root minor v \<noteq> YOUNG \<Longrightarrow> f v = v"
  using assms [unfolded promotes_def, rule_format, of v] by auto

lemma promotes_idem: "promotes minor f \<Longrightarrow> f (f v) = f v"
  unfolding promotes_def by (metis gc_root_class.distinct(1))

lemma fold_visit:
  assumes "\<And>v. f (f v) = f v"
  shows "fold (\<lambda>r h. h(r := f (h r))) ks h x = (if x \<in> set ks then f (h x) else h x)"
  by (induction ks arbitrary: h) (auto simp: assms)

lemma iterate_ok:
  assumes "represents sk M" "\<And>v. f (f v) = f v"
  shows "caml_iterate_global_roots f sk h = Some (\<lambda>x. if x \<in> dom M then f (h x) else h x)"
proof -
  obtain xs where "skiplist_elements sk = Some xs" "map_of xs = M" using sk.elements_law [OF assms(1)] by blast
  moreover from this have "set (map fst xs) = dom M" by (metis dom_map_of_conv_image_fst list.set_map)
  ultimately show ?thesis by (simp add: caml_iterate_global_roots_def fun_eq_iff fold_visit [OF assms(2)])
qed

lemma scan_young_ok:
  assumes "roots_inv minor g G" "promotes minor f"
  shows "wp (caml_scan_global_young_roots f g) (\<lambda>g'. roots_inv minor g' G \<and>
           (\<forall>r \<in> G. mem g' r = f (mem g r)) \<and> root_lists g' {} ({r \<in> G. classify_gc_root minor (mem g r) \<noteq> UNTRACKED}))"
proof -
  note idem = promotes_idem [OF assms(2)]
  obtain Y Z where l: "root_lists g Y Z" and t: "tracked minor (mem g) G Y Z" using assms(1) by (auto simp: roots_inv_def)
  obtain M N R where r: "represents (global_roots_young g) M" "dom M = Y" "represents (global_roots_old g) N" "dom N = Z"
    "represents (global_roots g) R" using l by (auto simp: root_lists_def)
  obtain xs where xs: "skiplist_elements (global_roots_young g) = Some xs" "map_of xs = M" using sk.elements_law [OF r(1)] by blast
  then have ks: "set (map fst xs) = Y" using r(2) by (metis dom_map_of_conv_image_fst list.set_map)
  obtain sk' seed' where old: "foldM (\<lambda>k (sk, seed). do { (b, sk, seed) \<leftarrow> caml_skiplist_insert sk seed k 0; Some (sk, seed) })
       (map fst xs) (global_roots_old g, random_seed g) = Some (sk', seed')"
    "represents sk' (\<lambda>k. if k \<in> set (map fst xs) then Some 0 else N k)" using sk.insert_all [OF r(3)] by blast
  obtain cs where "sk_inv (global_roots_young g) cs" using r(1) by (auto simp: represents_def)
  then obtain sk0 where y: "caml_skiplist_empty (global_roots_young g) = Some sk0" "represents sk0 Map.empty" using empty_ok by blast
  define h where "h = (\<lambda>x. if x \<in> Y then f (if x \<in> dom R then f (mem g x) else mem g x) else (if x \<in> dom R then f (mem g x) else mem g x))"
  let ?g = "g\<lparr>mem := h, global_roots_old := sk', random_seed := seed', global_roots_young := sk0\<rparr>"
  have run: "caml_scan_global_young_roots f g = Some ?g"
    using iterate_ok [OF r(5) idem] iterate_ok [OF r(1) idem] xs(1) old(1) y(1) r(2)
    by (simp add: caml_scan_global_young_roots_def h_def)
  have pl: "placed (classify_gc_root minor (mem g x)) (x \<in> Y) (x \<in> Z)" if "x \<in> G" for x using trackedD [OF t that] .
  have hG: "h x = f (mem g x)" if "x \<in> G" for x
  proof (cases "classify_gc_root minor (mem g x) = YOUNG")
    case True
    then have "x \<in> Y" using pl [OF that] by (simp add: placed_def)
    then show ?thesis by (simp add: h_def idem)
  next
    case False
    then show ?thesis using promotesD(2) [OF assms(2)] by (simp add: h_def)
  qed
  have lists': "root_lists ?g {} (Y \<union> Z)"
  proof -
    have "dom (\<lambda>k. if k \<in> set (map fst xs) then Some 0 else N k) = Y \<union> Z" unfolding ks using r(4) by (auto split: if_splits)
    moreover have "dom Map.empty = ({} :: u64 set)" by simp
    ultimately have "\<exists>M N. represents sk0 M \<and> dom M = {} \<and> represents sk' N \<and> dom N = Y \<union> Z" using y(2) old(2) by blast
    then show ?thesis using r(5) by (auto simp: root_lists_def)
  qed
  have "tracked minor h G {} (Y \<union> Z)"
  proof -
    have "placed (classify_gc_root minor (h x)) False (x \<in> Y \<or> x \<in> Z)" if "x \<in> G" for x
      using pl [OF that] hG [OF that] promotesD [OF assms(2), of "mem g x"]
      by (cases "classify_gc_root minor (mem g x)") (simp_all add: placed_def)
    then show ?thesis using t by (simp add: tracked_def)
  qed
  moreover have "Y \<union> Z = {r \<in> G. classify_gc_root minor (mem g r) \<noteq> UNTRACKED}"
  proof -
    have "x \<in> Y \<union> Z \<longleftrightarrow> x \<in> G \<and> classify_gc_root minor (mem g x) \<noteq> UNTRACKED" for x
    proof (cases "x \<in> G")
      case True
      then show ?thesis using pl [OF True] by (cases "classify_gc_root minor (mem g x)") (simp_all add: placed_def)
    qed (use t in \<open>auto simp: tracked_def\<close>)
    then show ?thesis by (auto simp: dom_def)
  qed
  ultimately show ?thesis using run lists' hG by (auto simp: wp_simps intro: roots_invI)
qed


definition sample_roots :: roots where
  "sample_roots = \<lparr>global_roots = caml_skiplist_init 0, global_roots_young = caml_skiplist_init 0,
     global_roots_old = caml_skiplist_init 0, random_seed = 0, mem = (\<lambda>_. 0x1800)\<rparr>"


end
