(* ===== verification/Lexing.thy ===== *)
theory Lexing
  imports Shorts "HOL-Library.Sublist"
begin

text \<open>
  The engines that run the automata of generated lexers (\<^verbatim>\<open>src/runtime/lexing.c\<close>): the plain engine and
  the one with a memory of positions. The tables are OCaml strings that hold 16-bit numbers, low byte
  first; positions are kept without their tag bit. A run ends with an action (a negative one is a
  request to refill the buffer) or with the failure on an empty token. The theorems give the engine its
  specification as a longest-match scanner, show that a run interrupted by a refill continues as if the
  buffer had been full from the start, and that the memory of positions does not change what is matched.
\<close>

section \<open>Tables and buffers\<close>

record lexer_buffer =
  lex_buffer :: "u8 list"
  lex_buffer_len :: nat
  lex_start_pos :: nat
  lex_curr_pos :: nat
  lex_last_pos :: nat
  lex_last_action :: int
  lex_eof_reached :: bool
  lex_mem :: "int list"

record lexing_table =
  lex_base :: "u8 list"
  lex_backtrk :: "u8 list"
  lex_default :: "u8 list"
  lex_trans :: "u8 list"
  lex_check :: "u8 list"
  lex_base_code :: "u8 list"
  lex_backtrk_code :: "u8 list"
  lex_default_code :: "u8 list"
  lex_trans_code :: "u8 list"
  lex_check_code :: "u8 list"
  lex_code :: "u8 list"

datatype lex_exit = Lex_action int lexer_buffer | Empty_token lexer_buffer

section \<open>caml\_lex\_engine\<close>

definition lex_entry :: "int \<Rightarrow> lexer_buffer \<Rightarrow> int \<times> lexer_buffer" where
  "lex_entry start_state lexbuf =
     (if 0 \<le> start_state
      then (start_state, lexbuf\<lparr>lex_start_pos := lex_curr_pos lexbuf, lex_last_pos := lex_curr_pos lexbuf,
              lex_last_action := - 1\<rparr>)
      else (- start_state - 1, lexbuf))"

definition mark_backtrk :: "int \<Rightarrow> lexer_buffer \<Rightarrow> lexer_buffer" where
  "mark_backtrk backtrk lexbuf =
     (if 0 \<le> backtrk then lexbuf\<lparr>lex_last_pos := lex_curr_pos lexbuf, lex_last_action := backtrk\<rparr> else lexbuf)"

text \<open>The next input character, 256 at the end of the input, or a refill request.\<close>

definition next_char :: "int \<Rightarrow> lexer_buffer \<Rightarrow> (lex_exit + int \<times> lexer_buffer) option" where
  "next_char state lexbuf =
     (if lex_buffer_len lexbuf \<le> lex_curr_pos lexbuf
      then (if lex_eof_reached lexbuf then returnE (256, lexbuf) else throwE (Lex_action (- state - 1) lexbuf))
      else liftE (do {
        c \<leftarrow> rd (lex_buffer lexbuf) (lex_curr_pos lexbuf);
        Some (uint c, lexbuf\<lparr>lex_curr_pos := lex_curr_pos lexbuf + 1\<rparr>) }))"

definition next_state :: "lexing_table \<Rightarrow> int \<Rightarrow> int \<Rightarrow> int \<Rightarrow> int option" where
  "next_state tbl base state c = do {
     chk \<leftarrow> Short (lex_check tbl) (base + c);
     if chk = state then Short (lex_trans tbl) (base + c) else Short (lex_default tbl) state }"

definition backtrack :: "lexer_buffer \<Rightarrow> lex_exit" where
  "backtrack lexbuf = (let lexbuf = lexbuf\<lparr>lex_curr_pos := lex_last_pos lexbuf\<rparr> in
     if lex_last_action lexbuf = - 1 then Empty_token lexbuf else Lex_action (lex_last_action lexbuf) lexbuf)"

definition erase_eof :: "int \<Rightarrow> lexer_buffer \<Rightarrow> lexer_buffer" where
  "erase_eof c lexbuf = (if c = 256 then lexbuf\<lparr>lex_eof_reached := False\<rparr> else lexbuf)"

definition lex_step :: "lexing_table \<Rightarrow> int \<times> lexer_buffer \<Rightarrow> (lex_exit + int \<times> lexer_buffer) option" where
  "lex_step tbl = (\<lambda>(state, lexbuf).
     bindE (liftE (Short (lex_base tbl) state)) (\<lambda>base.
     if base < 0 then throwE (Lex_action (- base - 1) lexbuf)
     else bindE (liftE (Short (lex_backtrk tbl) state)) (\<lambda>backtrk.
       bindE (next_char state (mark_backtrk backtrk lexbuf)) (\<lambda>(c, lexbuf).
       bindE (liftE (next_state tbl base state c)) (\<lambda>state'.
       if state' < 0 then throwE (backtrack lexbuf) else returnE (state', erase_eof c lexbuf))))))"

definition caml_lex_engine :: "lexing_table \<Rightarrow> int \<Rightarrow> lexer_buffer \<Rightarrow> (lex_exit + int \<times> lexer_buffer) option" where
  "caml_lex_engine tbl start_state lexbuf = whileE (\<lambda>_. True) (lex_step tbl) (lex_entry start_state lexbuf)"

section \<open>caml\_new\_lex\_engine\<close>

text \<open>The memory moves: pairs of bytes up to 255; a source of 255 stands for the given value.\<close>

definition run_moves :: "u8 list \<Rightarrow> nat \<Rightarrow> int \<Rightarrow> int list \<Rightarrow> int list option" where
  "run_moves code pc v mem = do {
     (pc, mem) \<leftarrow> whileM (\<lambda>(pc, mem). do { dst \<leftarrow> rd code pc; Some (dst \<noteq> 255) })
       (\<lambda>(pc, mem). do {
          dst \<leftarrow> rd code pc;
          src \<leftarrow> rd code (pc + 1);
          x \<leftarrow> (if src = 255 then Some v else rd mem (unat src));
          mem \<leftarrow> wr mem (unat dst) x;
          Some (pc + 2, mem) }) (pc, mem);
     Some mem }"

definition run_mem :: "u8 list \<Rightarrow> nat \<Rightarrow> int list \<Rightarrow> nat \<Rightarrow> int list option" where
  "run_mem code pc mem curr_pos = run_moves code pc (int curr_pos) mem"

definition run_tag :: "u8 list \<Rightarrow> nat \<Rightarrow> int list \<Rightarrow> int list option" where
  "run_tag code pc mem = run_moves code pc (- 1) mem"

definition tag_buffer :: "lexing_table \<Rightarrow> u8 list \<Rightarrow> int \<Rightarrow> lexer_buffer \<Rightarrow> lexer_buffer option" where
  "tag_buffer tbl offsets state lexbuf = do {
     pc_off \<leftarrow> UShort offsets state;
     mem \<leftarrow> run_tag (lex_code tbl) (nat pc_off) (lex_mem lexbuf);
     Some (lexbuf\<lparr>lex_mem := mem\<rparr>) }"

definition perform_moves :: "lexing_table \<Rightarrow> int \<Rightarrow> int \<Rightarrow> lexer_buffer \<Rightarrow> lexer_buffer option" where
  "perform_moves tbl pstate c lexbuf = do {
     base_code \<leftarrow> UShort (lex_base_code tbl) pstate;
     chk \<leftarrow> Short (lex_check_code tbl) (base_code + c);
     pc_off \<leftarrow> (if chk = pstate then UShort (lex_trans_code tbl) (base_code + c)
                 else UShort (lex_default_code tbl) pstate);
     if 0 < pc_off then do {
       mem \<leftarrow> run_mem (lex_code tbl) (nat pc_off) (lex_mem lexbuf) (lex_curr_pos lexbuf);
       Some (lexbuf\<lparr>lex_mem := mem\<rparr>) }
     else Some lexbuf }"

definition new_lex_step :: "lexing_table \<Rightarrow> int \<times> lexer_buffer \<Rightarrow> (lex_exit + int \<times> lexer_buffer) option" where
  "new_lex_step tbl = (\<lambda>(state, lexbuf).
     bindE (liftE (Short (lex_base tbl) state)) (\<lambda>base.
     if base < 0 then
       bindE (liftE (tag_buffer tbl (lex_base_code tbl) state lexbuf)) (\<lambda>lexbuf. throwE (Lex_action (- base - 1) lexbuf))
     else bindE (liftE (Short (lex_backtrk tbl) state)) (\<lambda>backtrk.
       bindE (liftE (if 0 \<le> backtrk then tag_buffer tbl (lex_backtrk_code tbl) state lexbuf else Some lexbuf)) (\<lambda>lexbuf.
       bindE (next_char state (mark_backtrk backtrk lexbuf)) (\<lambda>(c, lexbuf).
       bindE (liftE (next_state tbl base state c)) (\<lambda>state'.
       if state' < 0 then throwE (backtrack lexbuf)
       else bindE (liftE (perform_moves tbl state c lexbuf)) (\<lambda>lexbuf. returnE (state', erase_eof c lexbuf))))))))"

definition caml_new_lex_engine :: "lexing_table \<Rightarrow> int \<Rightarrow> lexer_buffer \<Rightarrow> (lex_exit + int \<times> lexer_buffer) option" where
  "caml_new_lex_engine tbl start_state lexbuf = whileE (\<lambda>_. True) (new_lex_step tbl) (lex_entry start_state lexbuf)"

section \<open>The automaton behind the tables\<close>

abbreviation base_of :: "lexing_table \<Rightarrow> int \<Rightarrow> int" where
  "base_of tbl q \<equiv> the (Short (lex_base tbl) q)"

abbreviation backtrk_of :: "lexing_table \<Rightarrow> int \<Rightarrow> int" where
  "backtrk_of tbl q \<equiv> the (Short (lex_backtrk tbl) q)"

definition delta :: "lexing_table \<Rightarrow> int \<Rightarrow> int \<Rightarrow> int option" where
  "delta tbl c q = (if base_of tbl q < 0 then None else
     (case next_state tbl (base_of tbl q) q c of Some q' \<Rightarrow> if q' < 0 then None else Some q' | None \<Rightarrow> None))"

text \<open>The state after a word, \<open>None\<close> when the automaton stops inside the word.\<close>

abbreviation run :: "lexing_table \<Rightarrow> int list \<Rightarrow> int \<Rightarrow> int option" where
  "run tbl \<equiv> foldM (delta tbl)"

text \<open>The action of a state: final states always have one, the others when they are backtrack points.\<close>

definition label :: "lexing_table \<Rightarrow> int \<Rightarrow> int option" where
  "label tbl q = (if base_of tbl q < 0 then Some (- base_of tbl q - 1)
     else if 0 \<le> backtrk_of tbl q then Some (backtrk_of tbl q) else None)"

definition accepts :: "lexing_table \<Rightarrow> int \<Rightarrow> int list \<Rightarrow> int option" where
  "accepts tbl q w = Option.bind (run tbl w q) (label tbl)"

text \<open>The input a run sees: the bytes in the buffer, then 256 if the end of the input was reached.\<close>

definition pending :: "lexer_buffer \<Rightarrow> int list" where
  "pending lexbuf = map uint (drop (lex_curr_pos lexbuf) (take (lex_buffer_len lexbuf) (lex_buffer lexbuf))) @ (if lex_eof_reached lexbuf then [256] else [])"

definition wf_buffer :: "lexer_buffer \<Rightarrow> bool" where
  "wf_buffer lexbuf \<longleftrightarrow> lex_buffer_len lexbuf \<le> length (lex_buffer lexbuf) \<and> lex_curr_pos lexbuf \<le> lex_buffer_len lexbuf"

text \<open>Tables with \<open>n\<close> states: every entry the engine may read is there and leads to a state or nowhere.\<close>

definition wf_state :: "lexing_table \<Rightarrow> nat \<Rightarrow> int \<Rightarrow> bool" where
  "wf_state tbl n q \<longleftrightarrow> Short (lex_base tbl) q \<noteq> None \<and> (0 \<le> base_of tbl q \<longrightarrow>
     Short (lex_backtrk tbl) q \<noteq> None \<and>
     list_all (\<lambda>c. case next_state tbl (base_of tbl q) q (int c) of Some q' \<Rightarrow> q' < int n | None \<Rightarrow> False) [0..<257])"

definition wf_lexing_table :: "lexing_table \<Rightarrow> nat \<Rightarrow> bool" where
  "wf_lexing_table tbl n \<longleftrightarrow> list_all (\<lambda>q. wf_state tbl n (int q)) [0..<n]"


lemma wf_lexing_tableD:
  assumes "wf_lexing_table tbl n" "0 \<le> q" "q < int n"
  shows "Short (lex_base tbl) q = Some (base_of tbl q)"
    and "0 \<le> base_of tbl q \<Longrightarrow> Short (lex_backtrk tbl) q = Some (backtrk_of tbl q)"
    and "0 \<le> base_of tbl q \<Longrightarrow> 0 \<le> c \<Longrightarrow> c \<le> 256 \<Longrightarrow>
      \<exists>q'. next_state tbl (base_of tbl q) q c = Some q' \<and> q' < int n"
proof -
  have "int (nat q) = q" "nat q < n" using assms by auto
  with assms(1) have wf: "wf_state tbl n q" by (auto simp: wf_lexing_table_def list_all_iff dest!: bspec [of _ _ "nat q"])
  then show "Short (lex_base tbl) q = Some (base_of tbl q)"
    "0 \<le> base_of tbl q \<Longrightarrow> Short (lex_backtrk tbl) q = Some (backtrk_of tbl q)"
    by (auto simp: wf_state_def)
  assume "0 \<le> base_of tbl q" "0 \<le> c" "c \<le> 256"
  with wf have "case next_state tbl (base_of tbl q) q (int (nat c)) of Some q' \<Rightarrow> q' < int n | None \<Rightarrow> False"
    unfolding wf_state_def list_all_iff by (auto dest!: bspec [of _ _ "nat c"])
  then show "\<exists>q'. next_state tbl (base_of tbl q) q c = Some q' \<and> q' < int n"
    using \<open>0 \<le> c\<close> by (simp split: option.splits)
qed

lemma foldM_Nil_eq: "foldM f [] = Some"
  by (rule ext) simp

lemma run_Suc:
  "i < length s \<Longrightarrow> run tbl (take (Suc i) s) q = Option.bind (run tbl (take i s) q) (delta tbl (s ! i))"
  by (cases "run tbl (take i s) q") (auto simp: take_Suc_conv_app_nth foldM_append foldM_Nil_eq simp del: foldM.simps(1))

lemma delta_states:
  assumes "wf_lexing_table tbl n" "0 \<le> q" "q < int n" "0 \<le> c" "c \<le> 256" "delta tbl c q = Some q'"
  shows "0 \<le> q' \<and> q' < int n"
  using assms(6) wf_lexing_tableD(3) [OF assms(1-3) _ assms(4,5)]
  by (auto simp: delta_def split: if_splits option.splits)

section \<open>The position of a run in its input\<close>

definition pos_at :: "lexer_buffer \<Rightarrow> nat \<Rightarrow> nat" where
  "pos_at lexbuf i = min (lex_curr_pos lexbuf + i) (lex_buffer_len lexbuf)"

text \<open>The buffer after \<open>i\<close> symbols; \<open>m\<close> is the last match, an action and a position.\<close>

definition lexbuf_at :: "lexer_buffer \<Rightarrow> nat \<Rightarrow> int \<times> nat \<Rightarrow> lexer_buffer" where
  "lexbuf_at lexbuf i m = lexbuf\<lparr>lex_curr_pos := pos_at lexbuf i, lex_last_pos := snd m, lex_last_action := fst m,
     lex_eof_reached := lex_eof_reached lexbuf \<and> i \<le> lex_buffer_len lexbuf - lex_curr_pos lexbuf\<rparr>"

primrec best :: "lexing_table \<Rightarrow> int \<Rightarrow> lexer_buffer \<Rightarrow> nat \<Rightarrow> int \<times> nat" where
  "best tbl q lexbuf 0 = (lex_last_action lexbuf, lex_last_pos lexbuf)"
| "best tbl q lexbuf (Suc i) = (case accepts tbl q (take i (pending lexbuf)) of
     Some a \<Rightarrow> (a, pos_at lexbuf i) | None \<Rightarrow> best tbl q lexbuf i)"

lemma length_pending:
  "wf_buffer lexbuf \<Longrightarrow> length (pending lexbuf) = lex_buffer_len lexbuf - lex_curr_pos lexbuf + (if lex_eof_reached lexbuf then 1 else 0)"
  by (simp add: pending_def wf_buffer_def)

lemma pending_range: "c \<in> set (pending lexbuf) \<Longrightarrow> 0 \<le> c \<and> c \<le> 256"
proof -
  have "uint b \<le> 256" for b :: u8 using uint_lt2p [of b] by simp
  then show "c \<in> set (pending lexbuf) \<Longrightarrow> 0 \<le> c \<and> c \<le> 256" by (auto simp: pending_def split: if_splits)
qed

lemma pending_nth:
  assumes "wf_buffer lexbuf" "i < length (pending lexbuf)"
  shows "pending lexbuf ! i = (if lex_curr_pos lexbuf + i < lex_buffer_len lexbuf
    then uint (lex_buffer lexbuf ! (lex_curr_pos lexbuf + i)) else 256)"
  using assms by (auto simp: pending_def nth_append wf_buffer_def split: if_splits)

lemma next_char_at:
  assumes "wf_buffer lexbuf" "i \<le> length (pending lexbuf)"
  shows "next_char q (lexbuf_at lexbuf i m) =
    (if i = length (pending lexbuf) then throwE (Lex_action (- q - 1) (lexbuf_at lexbuf i m))
     else returnE (pending lexbuf ! i, (lexbuf_at lexbuf i m)\<lparr>lex_curr_pos := pos_at lexbuf (Suc i)\<rparr>))"
proof (cases "lex_curr_pos lexbuf + i < lex_buffer_len lexbuf")
  case True
  with assms show ?thesis
    by (auto simp: next_char_def lexbuf_at_def pos_at_def pending_nth length_pending wf_buffer_def rd_def returnE_def liftE_def)
next
  case False
  with assms show ?thesis
    by (auto simp: next_char_def lexbuf_at_def pos_at_def pending_nth length_pending wf_buffer_def returnE_def throwE_def)
qed

lemma erase_eof_at:
  assumes "wf_buffer lexbuf" "i < length (pending lexbuf)"
  shows "erase_eof (pending lexbuf ! i) ((lexbuf_at lexbuf i m)\<lparr>lex_curr_pos := pos_at lexbuf (Suc i)\<rparr>) = lexbuf_at lexbuf (Suc i) m"
proof -
  have byte: "uint b \<noteq> 256" for b :: u8 using uint_lt2p [of b] by simp
  show ?thesis
  proof (cases "lex_curr_pos lexbuf + i < lex_buffer_len lexbuf")
    case True
    then have "i \<le> lex_buffer_len lexbuf - lex_curr_pos lexbuf" "Suc i \<le> lex_buffer_len lexbuf - lex_curr_pos lexbuf" by simp_all
    with True assms byte show ?thesis by (simp add: erase_eof_def lexbuf_at_def pending_nth)
  next
    case False
    with assms have "\<not> Suc i \<le> lex_buffer_len lexbuf - lex_curr_pos lexbuf" by simp
    with False assms show ?thesis by (simp add: erase_eof_def lexbuf_at_def pending_nth)
  qed
qed

lemma mark_best:
  assumes "run tbl (take i (pending lexbuf)) q0 = Some q" "0 \<le> base_of tbl q"
  shows "mark_backtrk (backtrk_of tbl q) (lexbuf_at lexbuf i (best tbl q0 lexbuf i)) = lexbuf_at lexbuf i (best tbl q0 lexbuf (Suc i))"
  using assms by (simp add: mark_backtrk_def lexbuf_at_def accepts_def label_def)

lemma lex_step_at:
  assumes "wf_lexing_table tbl n" "wf_buffer lexbuf" "i \<le> length (pending lexbuf)"
    and q: "run tbl (take i (pending lexbuf)) q0 = Some q" "0 \<le> q" "q < int n"
  shows "lex_step tbl (q, lexbuf_at lexbuf i (best tbl q0 lexbuf i)) =
    (if base_of tbl q < 0 then throwE (Lex_action (- base_of tbl q - 1) (lexbuf_at lexbuf i (best tbl q0 lexbuf i)))
     else if i = length (pending lexbuf) then throwE (Lex_action (- q - 1) (lexbuf_at lexbuf i (best tbl q0 lexbuf (Suc i))))
     else case delta tbl (pending lexbuf ! i) q of
       None \<Rightarrow> throwE (backtrack (lexbuf_at lexbuf i (best tbl q0 lexbuf (Suc i))))
     | Some q' \<Rightarrow> returnE (q', lexbuf_at lexbuf (Suc i) (best tbl q0 lexbuf (Suc i))))"
proof -
  note tab = wf_lexing_tableD [OF assms(1) q(2,3)]
  obtain b where b: "Short (lex_base tbl) q = Some b" using tab(1) by blast
  consider "base_of tbl q < 0" | "0 \<le> base_of tbl q" "i = length (pending lexbuf)"
    | "0 \<le> base_of tbl q" "i < length (pending lexbuf)" using assms(3) by linarith
  then show ?thesis
  proof cases
    case 1
    then show ?thesis by (simp add: lex_step_def b bindE_eval)
  next
    case 2
    have "next_char q (mark_backtrk (backtrk_of tbl q) (lexbuf_at lexbuf i (best tbl q0 lexbuf i))) =
        throwE (Lex_action (- q - 1) (lexbuf_at lexbuf i (best tbl q0 lexbuf (Suc i))))"
      unfolding mark_best [OF q(1) 2(1)] using next_char_at [OF assms(2,3)] 2(2) by simp
    moreover obtain t where t: "Short (lex_backtrk tbl) q = Some t" using tab(2) [OF 2(1)] by blast
    ultimately show ?thesis using 2 by (simp add: lex_step_def b bindE_eval del: best.simps)
  next
    case 3
    define c where "c = pending lexbuf ! i"
    from 3 have "0 \<le> c" "c \<le> 256" using pending_range [of c lexbuf] by (simp_all add: c_def)
    with tab(3) 3 obtain q' where q': "next_state tbl (base_of tbl q) q c = Some q'" by blast
    obtain t where t: "Short (lex_backtrk tbl) q = Some t" using tab(2) [OF 3(1)] by blast
    have nc: "next_char q (mark_backtrk (backtrk_of tbl q) (lexbuf_at lexbuf i (best tbl q0 lexbuf i))) =
        returnE (c, (lexbuf_at lexbuf i (best tbl q0 lexbuf (Suc i)))\<lparr>lex_curr_pos := pos_at lexbuf (Suc i)\<rparr>)"
      unfolding mark_best [OF q(1) 3(1)] using next_char_at [OF assms(2,3)] 3(2) by (simp add: c_def)
    have er: "erase_eof c ((lexbuf_at lexbuf i (best tbl q0 lexbuf (Suc i)))\<lparr>lex_curr_pos := pos_at lexbuf (Suc i)\<rparr>) =
        lexbuf_at lexbuf (Suc i) (best tbl q0 lexbuf (Suc i))"
      unfolding c_def by (rule erase_eof_at [OF assms(2) 3(2)])
    have bt: "backtrack (lb\<lparr>lex_curr_pos := p\<rparr>) = backtrack lb" for lb p by (simp add: backtrack_def Let_def)
    have "lex_step tbl (q, lexbuf_at lexbuf i (best tbl q0 lexbuf i)) =
      (if q' < 0 then throwE (backtrack (lexbuf_at lexbuf i (best tbl q0 lexbuf (Suc i))))
       else returnE (q', lexbuf_at lexbuf (Suc i) (best tbl q0 lexbuf (Suc i))))"
      using 3(1) nc q' er by (simp add: lex_step_def b t bindE_eval bt del: best.simps)
    moreover have "delta tbl c q = (if q' < 0 then None else Some q')" using 3(1) q' by (simp add: delta_def)
    ultimately show ?thesis using 3 by (simp add: c_def del: best.simps)
  qed
qed


definition lex_stop :: "lexing_table \<Rightarrow> int \<Rightarrow> lexer_buffer \<Rightarrow> nat \<Rightarrow> int \<Rightarrow> lex_exit \<Rightarrow> bool" where
  "lex_stop tbl q0 lexbuf i q r \<longleftrightarrow>
     (if base_of tbl q < 0 then r = Lex_action (- base_of tbl q - 1) (lexbuf_at lexbuf i (best tbl q0 lexbuf i))
      else if i = length (pending lexbuf) then r = Lex_action (- q - 1) (lexbuf_at lexbuf i (best tbl q0 lexbuf (Suc i)))
      else delta tbl (pending lexbuf ! i) q = None \<and> r = backtrack (lexbuf_at lexbuf i (best tbl q0 lexbuf (Suc i))))"

lemma lex_loop:
  assumes "wf_lexing_table tbl n" "wf_buffer lexbuf" "i \<le> length (pending lexbuf)"
    and "run tbl (take i (pending lexbuf)) q0 = Some q" "0 \<le> q" "q < int n"
  shows "\<exists>j q' r. whileE (\<lambda>_. True) (lex_step tbl) (q, lexbuf_at lexbuf i (best tbl q0 lexbuf i)) = Some (Inl r) \<and>
    i \<le> j \<and> j \<le> length (pending lexbuf) \<and> run tbl (take j (pending lexbuf)) q0 = Some q' \<and> 0 \<le> q' \<and> q' < int n \<and>
    lex_stop tbl q0 lexbuf j q' r"
  using assms(3-)
proof (induction "length (pending lexbuf) - i" arbitrary: i q rule: less_induct)
  case less
  note step = lex_step_at [OF assms(1,2) less.prems]
  note unroll = whileE_True [of "\<lambda>_. True", OF TrueI, where c = "lex_step tbl"]
  show ?case
  proof (cases "base_of tbl q < 0 \<or> i = length (pending lexbuf) \<or> delta tbl (pending lexbuf ! i) q = None")
    case True
    with step obtain r where "lex_step tbl (q, lexbuf_at lexbuf i (best tbl q0 lexbuf i)) = throwE r"
      "lex_stop tbl q0 lexbuf i q r"
      unfolding lex_stop_def by (cases "base_of tbl q < 0"; cases "i = length (pending lexbuf)") (auto simp del: best.simps)
    with less.prems show ?thesis
      by (intro exI [of _ i] exI [of _ q] exI [of _ r]) (simp add: unroll bindE_eval throwE_def [symmetric] del: best.simps)
  next
    case False
    with less.prems have i: "i < length (pending lexbuf)" by simp
    from False obtain q' where q': "delta tbl (pending lexbuf ! i) q = Some q'" by auto
    have "pending lexbuf ! i \<in> set (pending lexbuf)" using i by simp
    with delta_states [OF assms(1) less.prems(3,4) _ _ q'] have st: "0 \<le> q'" "q' < int n"
      using pending_range by blast+
    have run: "run tbl (take (Suc i) (pending lexbuf)) q0 = Some q'" using run_Suc [OF i] less.prems(2) q' by simp
    have "length (pending lexbuf) - Suc i < length (pending lexbuf) - i" "Suc i \<le> length (pending lexbuf)" using i by simp_all
    from less.hyps [OF this run st] obtain j q'' r where IH:
      "whileE (\<lambda>_. True) (lex_step tbl) (q', lexbuf_at lexbuf (Suc i) (best tbl q0 lexbuf (Suc i))) = Some (Inl r)"
      "Suc i \<le> j" "j \<le> length (pending lexbuf)" "run tbl (take j (pending lexbuf)) q0 = Some q''" "0 \<le> q''" "q'' < int n"
      "lex_stop tbl q0 lexbuf j q'' r" by blast
    have "whileE (\<lambda>_. True) (lex_step tbl) (q, lexbuf_at lexbuf i (best tbl q0 lexbuf i)) = Some (Inl r)"
      using False step q' IH(1) by (simp add: unroll bindE_eval del: best.simps)
    with IH show ?thesis by (intro exI [of _ j] exI [of _ q''] exI [of _ r]) simp
  qed
qed

section \<open>Longest match\<close>

definition longest_match :: "lexing_table \<Rightarrow> int \<Rightarrow> int list \<Rightarrow> int list \<Rightarrow> int \<Rightarrow> bool" where
  "longest_match tbl q s w a \<longleftrightarrow> prefix w s \<and> accepts tbl q w = Some a \<and>
     (\<forall>v. prefix v s \<and> accepts tbl q v \<noteq> None \<longrightarrow> length v \<le> length w)"

lemma label_nonneg: "label tbl q = Some a \<Longrightarrow> 0 \<le> a"
  by (auto simp: label_def split: if_splits)

lemma accepts_nonneg: "accepts tbl q w = Some a \<Longrightarrow> 0 \<le> a"
  by (auto simp: accepts_def label_nonneg split: Option.bind_splits)

text \<open>What \<open>best\<close> holds when the entry has cleared the last action.\<close>

lemma best_longest:
  assumes "lex_last_action lexbuf = - 1" "lex_last_pos lexbuf = lex_curr_pos lexbuf"
  shows "(fst (best tbl q lexbuf i) = - 1 \<and> snd (best tbl q lexbuf i) = lex_curr_pos lexbuf \<and>
      (\<forall>j < i. accepts tbl q (take j (pending lexbuf)) = None)) \<or>
    (\<exists>j < i. accepts tbl q (take j (pending lexbuf)) = Some (fst (best tbl q lexbuf i)) \<and>
      snd (best tbl q lexbuf i) = pos_at lexbuf j \<and>
      (\<forall>k < i. accepts tbl q (take k (pending lexbuf)) \<noteq> None \<longrightarrow> k \<le> j))"
proof (induction i)
  case 0
  then show ?case using assms by simp
next
  case (Suc i)
  show ?case
  proof (cases "accepts tbl q (take i (pending lexbuf))")
    case None
    with Suc show ?thesis by (auto simp: less_Suc_eq)
  next
    case (Some a)
    then show ?thesis by (intro disjI2 exI [of _ i]) (auto simp: less_Suc_eq)
  qed
qed

lemma run_stuck:
  assumes "run tbl (take i s) q0 = Some q" "i < j" "j \<le> length s" "delta tbl (s ! i) q = None"
  shows "run tbl (take j s) q0 = None"
proof -
  have "take j s = take (Suc i) s @ drop (Suc i) (take j s)"
    using assms by (metis Suc_leI append_take_drop_id take_take min.absorb1)
  moreover have "run tbl (take (Suc i) s) q0 = None" using assms run_Suc [of i s tbl q0] by simp
  ultimately show ?thesis by (metis foldM_append Option.bind.bind_lzero)
qed

lemma longest_matchI:
  assumes "j \<le> length s" "accepts tbl q (take j s) = Some a"
    "\<And>k. k \<le> length s \<Longrightarrow> accepts tbl q (take k s) \<noteq> None \<Longrightarrow> k \<le> j"
  shows "longest_match tbl q s (take j s) a"
  unfolding longest_match_def
proof (intro conjI allI impI)
  fix v assume v: "prefix v s \<and> accepts tbl q v \<noteq> None"
  then have "v = take (length v) s" "length v \<le> length s" by (auto simp: prefix_def)
  with v assms(1,3) show "length v \<le> length (take j s)" by (metis length_take min.absorb2)
qed (use assms in \<open>auto simp: take_is_prefix\<close>)

definition lex_spec :: "lexing_table \<Rightarrow> int \<Rightarrow> lexer_buffer \<Rightarrow> lex_exit \<Rightarrow> bool" where
  "lex_spec tbl q lexbuf r \<longleftrightarrow>
     (if \<exists>q'. run tbl (pending lexbuf) q = Some q' \<and> 0 \<le> base_of tbl q'
      then \<exists>lexbuf' q'. r = Lex_action (- q' - 1) lexbuf' \<and> 0 \<le> q' \<and> run tbl (pending lexbuf) q = Some q' \<and>
        lex_curr_pos lexbuf' = lex_buffer_len lexbuf \<and> \<not> lex_eof_reached lexbuf'
      else case r of
        Lex_action a lexbuf' \<Rightarrow> \<exists>w. longest_match tbl q (pending lexbuf) w a \<and> lex_start_pos lexbuf' = lex_curr_pos lexbuf \<and>
          lex_curr_pos lexbuf' = pos_at lexbuf (length w)
      | Empty_token lexbuf' \<Rightarrow> (\<forall>w. prefix w (pending lexbuf) \<longrightarrow> accepts tbl q w = None) \<and>
          lex_curr_pos lexbuf' = lex_curr_pos lexbuf)"

lemma lex_stop_spec:
  assumes wf: "wf_buffer lexbuf" and entry: "lex_last_action lexbuf = - 1" "lex_last_pos lexbuf = lex_curr_pos lexbuf"
      "lex_start_pos lexbuf = lex_curr_pos lexbuf"
    and i: "i \<le> length (pending lexbuf)" and q: "run tbl (take i (pending lexbuf)) q0 = Some q" "0 \<le> q"
    and r: "lex_stop tbl q0 lexbuf i q r"
  shows "lex_spec tbl q0 lexbuf r"
proof -
  let ?s = "pending lexbuf"
  consider (final) "base_of tbl q < 0" | (refill) "0 \<le> base_of tbl q" "i = length ?s"
    | (stuck) "0 \<le> base_of tbl q" "i < length ?s" using i by linarith
  then show ?thesis
  proof cases
    case final
    then have stuck: "delta tbl c q = None" for c by (simp add: delta_def)
    have none: "run tbl (take k ?s) q0 = None" if "i < k" "k \<le> length ?s" for k
      using run_stuck [OF q(1) that stuck] .
    have "\<not> (\<exists>q'. run tbl ?s q0 = Some q' \<and> 0 \<le> base_of tbl q')"
      using final none [of "length ?s"] i q(1) by (cases "i = length ?s") auto
    moreover have "longest_match tbl q0 ?s (take i ?s) (- base_of tbl q - 1)"
    proof (rule longest_matchI [OF i])
      fix k assume "k \<le> length ?s" "accepts tbl q0 (take k ?s) \<noteq> None"
      with none [of k] show "k \<le> i" by (cases "i < k") (auto simp: accepts_def)
    qed (use final q in \<open>simp add: accepts_def label_def\<close>)
    moreover have "lex_curr_pos (lexbuf_at lexbuf i m) = pos_at lexbuf (length (take i ?s))"
      "lex_start_pos (lexbuf_at lexbuf i m) = lex_curr_pos lexbuf" for m
      using i entry by (simp_all add: lexbuf_at_def)
    ultimately show ?thesis using r final unfolding lex_spec_def lex_stop_def by auto
  next
    case refill
    then have "lex_curr_pos (lexbuf_at lexbuf i m) = lex_buffer_len lexbuf" "\<not> lex_eof_reached (lexbuf_at lexbuf i m)" for m
      using wf by (auto simp: lexbuf_at_def pos_at_def length_pending wf_buffer_def)
    then show ?thesis using r refill q unfolding lex_spec_def lex_stop_def by (auto simp del: best.simps)
  next
    case stuck
    with r have d: "delta tbl (?s ! i) q = None" and r: "r = backtrack (lexbuf_at lexbuf i (best tbl q0 lexbuf (Suc i)))"
      by (simp_all add: lex_stop_def)
    have none: "run tbl (take k ?s) q0 = None" if "i < k" "k \<le> length ?s" for k
      using run_stuck [OF q(1) that d] .
    then have acc: "accepts tbl q0 (take k ?s) = None" if "i < k" "k \<le> length ?s" for k using that by (simp add: accepts_def)
    have no: "\<not> (\<exists>q'. run tbl ?s q0 = Some q' \<and> 0 \<le> base_of tbl q')" using none [of "length ?s"] stuck by simp
    from best_longest [OF entry(1,2), of tbl q0 "Suc i"] show ?thesis
    proof (elim disjE exE conjE)
      assume b: "fst (best tbl q0 lexbuf (Suc i)) = - 1" "snd (best tbl q0 lexbuf (Suc i)) = lex_curr_pos lexbuf"
        and small: "\<forall>j < Suc i. accepts tbl q0 (take j ?s) = None"
      have "accepts tbl q0 w = None" if w: "prefix w ?s" for w
      proof -
        from w have "w = take (length w) ?s" "length w \<le> length ?s" by (auto simp: prefix_def)
        with small acc show ?thesis by (metis less_Suc_eq_le not_le)
      qed
      with b no r show ?thesis by (simp add: lex_spec_def backtrack_def lexbuf_at_def del: best.simps)
    next
      fix j assume j: "j < Suc i" "accepts tbl q0 (take j ?s) = Some (fst (best tbl q0 lexbuf (Suc i)))"
        "snd (best tbl q0 lexbuf (Suc i)) = pos_at lexbuf j"
        "\<forall>k < Suc i. accepts tbl q0 (take k ?s) \<noteq> None \<longrightarrow> k \<le> j"
      have "longest_match tbl q0 ?s (take j ?s) (fst (best tbl q0 lexbuf (Suc i)))"
      proof (rule longest_matchI [OF _ j(2)])
        fix k assume k: "k \<le> length ?s" "accepts tbl q0 (take k ?s) \<noteq> None"
        with acc [of k] have "k < Suc i" by (cases "i < k") auto
        with j(4) k(2) show "k \<le> j" by blast
      qed (use j(1) stuck(2) in simp)
      moreover have "fst (best tbl q0 lexbuf (Suc i)) \<noteq> - 1" using accepts_nonneg [OF j(2)] by simp
      ultimately show ?thesis using no r j(1,3) stuck entry
        by (simp add: lex_spec_def backtrack_def lexbuf_at_def del: best.simps) (metis length_take min.absorb2 less_Suc_eq_le order_trans less_imp_le)
    qed
  qed
qed

lemma lexbuf_at_0: "wf_buffer lexbuf \<Longrightarrow> lexbuf_at lexbuf 0 (lex_last_action lexbuf, lex_last_pos lexbuf) = lexbuf"
  by (simp add: lexbuf_at_def pos_at_def wf_buffer_def)

text \<open>
  C5. Started in a state of the automaton, the lexer engine ends, never reads outside its tables or the
  buffer, and returns what a longest-match scanner returns: if the automaton can still read more input at
  the end of the buffer, a request for a refill that names the state reached; otherwise the action of the
  longest prefix of the input that the automaton accepts, with the current position behind it; and the
  failure on an empty token exactly when no prefix is accepted.
\<close>

theorem lex_engine_longest_match:
  assumes "wf_lexing_table tbl n" "wf_buffer lexbuf" "0 \<le> q" "q < int n"
  shows "\<exists>r. caml_lex_engine tbl q lexbuf = Some (Inl r) \<and> lex_spec tbl q lexbuf r"
proof -
  let ?e = "lexbuf\<lparr>lex_start_pos := lex_curr_pos lexbuf, lex_last_pos := lex_curr_pos lexbuf, lex_last_action := - 1\<rparr>"
  have e: "wf_buffer ?e" "pending ?e = pending lexbuf" "lex_entry q lexbuf = (q, ?e)"
    using assms by (simp_all add: wf_buffer_def pending_def lex_entry_def)
  have pos: "pos_at ?e = pos_at lexbuf" by (rule ext) (simp add: pos_at_def)
  have spec: "lex_spec tbl q ?e r = lex_spec tbl q lexbuf r" for r by (cases r; simp add: lex_spec_def e pos; blast)
  have "\<exists>j q' r. whileE (\<lambda>_. True) (lex_step tbl) (q, lexbuf_at ?e 0 (best tbl q ?e 0)) = Some (Inl r) \<and>
    0 \<le> j \<and> j \<le> length (pending ?e) \<and> run tbl (take j (pending ?e)) q = Some q' \<and> 0 \<le> q' \<and> q' < int n \<and>
    lex_stop tbl q ?e j q' r"
    by (rule lex_loop [OF assms(1) e(1)]) (use assms in simp_all)
  then obtain j q' r where r: "whileE (\<lambda>_. True) (lex_step tbl) (q, ?e) = Some (Inl r)"
    "j \<le> length (pending ?e)" "run tbl (take j (pending ?e)) q = Some q'" "0 \<le> q'" "lex_stop tbl q ?e j q' r"
    using lexbuf_at_0 [OF e(1)] by auto
  have "lex_spec tbl q ?e r" by (rule lex_stop_spec [OF e(1) _ _ _ r(2-5)]) simp_all
  with r(1) e(3) spec show ?thesis by (auto simp: caml_lex_engine_def)
qed


section \<open>Refilling the buffer\<close>

text \<open>A refill puts \<open>t\<close> behind the text in the buffer and may report the end of the input.\<close>

definition refilled :: "u8 list \<Rightarrow> bool \<Rightarrow> lexer_buffer \<Rightarrow> lexer_buffer" where
  "refilled t eof lexbuf = lexbuf\<lparr>lex_buffer := take (lex_buffer_len lexbuf) (lex_buffer lexbuf) @ t,
     lex_buffer_len := lex_buffer_len lexbuf + length t, lex_eof_reached := eof\<rparr>"

lemma mark_backtrk_twice: "mark_backtrk b (refilled t eof (mark_backtrk b lexbuf)) = mark_backtrk b (refilled t eof lexbuf)"
  by (simp add: mark_backtrk_def refilled_def)

lemma lex_step_marked:
  assumes "Short (lex_base tbl) q = Some b" "0 \<le> b" "Short (lex_backtrk tbl) q = Some t"
  shows "lex_step tbl (q, refilled u eof (mark_backtrk t lexbuf)) = lex_step tbl (q, refilled u eof lexbuf)"
  using assms by (simp add: lex_step_def bindE_eval mark_backtrk_twice)

definition refilled_exit :: "u8 list \<Rightarrow> bool \<Rightarrow> lex_exit + int \<times> lexer_buffer \<Rightarrow> lex_exit + int \<times> lexer_buffer" where
  "refilled_exit t eof r = (case r of
     Inl (Lex_action a lexbuf) \<Rightarrow> Inl (Lex_action a (refilled t eof lexbuf))
   | Inl (Empty_token lexbuf) \<Rightarrow> Inl (Empty_token (refilled t eof lexbuf))
   | Inr (q, lexbuf) \<Rightarrow> Inr (q, refilled t eof lexbuf))"

lemma backtrack_refilled: "Inl (backtrack (refilled t eof lexbuf)) = refilled_exit t eof (Inl (backtrack lexbuf))"
  by (simp add: backtrack_def Let_def refilled_def refilled_exit_def)

lemma lex_step_refilled:
  assumes "wf_lexing_table tbl n" "0 \<le> q" "q < int n" "wf_buffer lexbuf" "lex_curr_pos lexbuf < lex_buffer_len lexbuf"
  shows "lex_step tbl (q, refilled t eof lexbuf) = map_option (refilled_exit t eof) (lex_step tbl (q, lexbuf))"
proof -
  note tab = wf_lexing_tableD [OF assms(1-3)]
  obtain b where b: "Short (lex_base tbl) q = Some b" using tab(1) by blast
  have rd: "rd (take (lex_buffer_len lexbuf) (lex_buffer lexbuf) @ t) (lex_curr_pos lexbuf) = rd (lex_buffer lexbuf) (lex_curr_pos lexbuf)"
    using assms(4,5) by (simp add: rd_def wf_buffer_def nth_append)
  obtain c where c: "rd (lex_buffer lexbuf) (lex_curr_pos lexbuf) = Some c" using assms(4,5) by (simp add: rd_def wf_buffer_def)
  have "uint c < 256" using uint_lt2p [of c] by simp
  show ?thesis
  proof (cases "b < 0")
    case True
    then show ?thesis by (simp add: lex_step_def b bindE_eval throwE_def refilled_exit_def)
  next
    case False
    then obtain k where k: "Short (lex_backtrk tbl) q = Some k" using tab(2) b by auto
    obtain q' where q': "next_state tbl b q (uint c) = Some q'" using tab(3) b False \<open>uint c < 256\<close> by force
    define lb where "lb = mark_backtrk k lexbuf\<lparr>lex_curr_pos := lex_curr_pos lexbuf + 1\<rparr>"
    have nc: "next_char q (mark_backtrk k (refilled t eof lexbuf)) = returnE (uint c, refilled t eof lb)"
      "next_char q (mark_backtrk k lexbuf) = returnE (uint c, lb)"
      using assms(5) rd c by (simp_all add: next_char_def mark_backtrk_def refilled_def returnE_def liftE_def lb_def)
    show ?thesis
    proof (cases "q' < 0")
      case True
      then show ?thesis using False by (simp add: lex_step_def b k q' nc bindE_eval throwE_def backtrack_refilled)
    next
      case st: False
      then show ?thesis using False \<open>uint c < 256\<close>
        by (simp add: lex_step_def b k q' nc bindE_eval returnE_def refilled_exit_def erase_eof_def)
    qed
  qed
qed

text \<open>A run that asked for a refill, and the run on the refilled buffer from the same point.\<close>

lemma lex_loop_refilled:
  assumes "wf_lexing_table tbl n" "0 \<le> q" "q < int n" "wf_buffer lexbuf" "\<not> lex_eof_reached lexbuf" "- 1 \<le> lex_last_action lexbuf"
    and "whileE (\<lambda>_. True) (lex_step tbl) (q, lexbuf) = Some (Inl (Lex_action a lexbuf'))" "a < 0"
  shows "0 \<le> - a - 1 \<and> whileE (\<lambda>_. True) (lex_step tbl) (- a - 1, refilled t eof lexbuf') =
    whileE (\<lambda>_. True) (lex_step tbl) (q, refilled t eof lexbuf)"
  using assms(2-)
proof (induction "lex_buffer_len lexbuf - lex_curr_pos lexbuf" arbitrary: q lexbuf rule: less_induct)
  case less
  note tab = wf_lexing_tableD [OF assms(1) less.prems(1,2)]
  note unroll = whileE_True [of "\<lambda>_. True", OF TrueI, where c = "lex_step tbl"]
  obtain b where b: "Short (lex_base tbl) q = Some b" using tab(1) by blast
  show ?case
  proof (cases "b < 0")
    case True
    then have "lex_step tbl (q, lexbuf) = throwE (Lex_action (- b - 1) lexbuf)" by (simp add: lex_step_def b bindE_eval)
    with True less.prems(6,7) show ?thesis by (simp add: unroll bindE_eval throwE_def)
  next
    case False
    then obtain k where k: "Short (lex_backtrk tbl) q = Some k" using tab(2) b by auto
    show ?thesis
    proof (cases "lex_curr_pos lexbuf < lex_buffer_len lexbuf")
      case False
      then have "lex_step tbl (q, lexbuf) = throwE (Lex_action (- q - 1) (mark_backtrk k lexbuf))"
        using \<open>\<not> b < 0\<close> less.prems(4) by (simp add: lex_step_def b k bindE_eval next_char_def mark_backtrk_def)
      with less.prems(6) have a: "a = - q - 1" "lexbuf' = mark_backtrk k lexbuf"
        by (simp_all add: unroll bindE_eval throwE_def)
      have "lex_step tbl (q, refilled t eof (mark_backtrk k lexbuf)) = lex_step tbl (q, refilled t eof lexbuf)"
        using b k \<open>\<not> b < 0\<close> by (intro lex_step_marked) auto
      then show ?thesis using a less.prems(1) by (simp add: unroll)
    next
      case True
      then obtain c where c: "rd (lex_buffer lexbuf) (lex_curr_pos lexbuf) = Some c" using less.prems(3) by (simp add: rd_def wf_buffer_def)
      have "uint c < 256" using uint_lt2p [of c] by simp
      with tab(3) [of "uint c"] b False obtain q' where q': "next_state tbl b q (uint c) = Some q'" "q' < int n" by auto
      define lb where "lb = mark_backtrk k lexbuf\<lparr>lex_curr_pos := lex_curr_pos lexbuf + 1\<rparr>"
      have nc: "next_char q (mark_backtrk k lexbuf) = returnE (uint c, lb)"
        using True c by (simp add: next_char_def mark_backtrk_def returnE_def liftE_def lb_def)
      have lb: "wf_buffer lb" "\<not> lex_eof_reached lb" "- 1 \<le> lex_last_action lb"
        "lex_buffer_len lb - lex_curr_pos lb < lex_buffer_len lexbuf - lex_curr_pos lexbuf"
        using less.prems(3-5) True by (auto simp: lb_def mark_backtrk_def wf_buffer_def)
      have step: "lex_step tbl (q, lexbuf) = (if q' < 0 then throwE (backtrack lb) else returnE (q', lb))"
        using False \<open>uint c < 256\<close> q' by (simp add: lex_step_def b k nc bindE_eval erase_eof_def)
      have "\<not> q' < 0"
      proof
        assume "q' < 0"
        with step have "lex_step tbl (q, lexbuf) = throwE (backtrack lb)" by simp
        with less.prems(6) have "backtrack lb = Lex_action a lexbuf'" by (simp add: unroll bindE_eval throwE_def)
        with lb(3) less.prems(7) show False by (auto simp: backtrack_def Let_def split: if_splits)
      qed
      then have step: "lex_step tbl (q, lexbuf) = returnE (q', lb)" using step by simp
      then have "whileE (\<lambda>_. True) (lex_step tbl) (q', lb) = Some (Inl (Lex_action a lexbuf'))"
        using less.prems(6) by (simp add: unroll bindE_eval)
      from less.hyps [OF lb(4) _ q'(2) lb(1-3) this less.prems(7)] \<open>\<not> q' < 0\<close>
      have IH: "0 \<le> - a - 1" "whileE (\<lambda>_. True) (lex_step tbl) (- a - 1, refilled t eof lexbuf') =
          whileE (\<lambda>_. True) (lex_step tbl) (q', refilled t eof lb)" by auto
      have "lex_step tbl (q, refilled t eof lexbuf) = returnE (q', refilled t eof lb)"
        using lex_step_refilled [OF assms(1) less.prems(1,2,3) True] step by (simp add: returnE_def refilled_exit_def)
      then have "whileE (\<lambda>_. True) (lex_step tbl) (q, refilled t eof lexbuf) = whileE (\<lambda>_. True) (lex_step tbl) (q', refilled t eof lb)"
        by (simp add: unroll bindE_eval)
      with IH show ?thesis by simp
    qed
  qed
qed

text \<open>
  C14. Refilling is transparent. If a run over a buffer whose end is not the end of the input asks for a refill, the
  run that continues from the returned state once text has been put behind the buffer (and the end of the
  input possibly reported) gives what one run over the longer buffer gives.
\<close>

theorem lex_engine_refill:
  assumes "wf_lexing_table tbl n" "wf_buffer lexbuf" "\<not> lex_eof_reached lexbuf" "0 \<le> q" "q < int n"
    and "caml_lex_engine tbl q lexbuf = Some (Inl (Lex_action a lexbuf'))" "a < 0"
  shows "caml_lex_engine tbl a (refilled t eof lexbuf') = caml_lex_engine tbl q (refilled t eof lexbuf)"
proof -
  let ?e = "\<lambda>lexbuf. lexbuf\<lparr>lex_start_pos := lex_curr_pos lexbuf, lex_last_pos := lex_curr_pos lexbuf, lex_last_action := - 1\<rparr>"
  have "0 \<le> - a - 1 \<and> whileE (\<lambda>_. True) (lex_step tbl) (- a - 1, refilled t eof lexbuf') =
      whileE (\<lambda>_. True) (lex_step tbl) (q, refilled t eof (?e lexbuf))"
    using assms by (intro lex_loop_refilled [where n = n]) (simp_all add: caml_lex_engine_def lex_entry_def wf_buffer_def)
  moreover have "refilled t eof (?e lexbuf) = ?e (refilled t eof lexbuf)" by (simp add: refilled_def)
  ultimately show ?thesis using assms(4,7) by (simp add: caml_lex_engine_def lex_entry_def)
qed

section \<open>The memory of positions\<close>

text \<open>Moves that stay inside the code and the memory.\<close>

fun moves_ok :: "nat \<Rightarrow> u8 list \<Rightarrow> bool" where
  "moves_ok m [] = False"
| "moves_ok m [dst] = (dst = 255)"
| "moves_ok m (dst # src # code) = (dst = 255 \<or> unat dst < m \<and> (src = 255 \<or> unat src < m) \<and> moves_ok m code)"

lemma run_moves_ok:
  assumes "moves_ok (length mem) (drop pc code)"
  shows "wp (run_moves code pc v mem) (\<lambda>mem'. length mem' = length mem)"
proof -
  define m where "m = length mem"
  have "wp (whileM (\<lambda>(pc, mem). do { dst \<leftarrow> rd code pc; Some (dst \<noteq> 255) })
       (\<lambda>(pc, mem). do {
          dst \<leftarrow> rd code pc;
          src \<leftarrow> rd code (pc + 1);
          x \<leftarrow> (if src = 255 then Some v else rd mem (unat src));
          mem \<leftarrow> wr mem (unat dst) x;
          Some (pc + 2, mem) }) (pc, mem)) (\<lambda>(pc, mem'). length mem' = m)"
  proof (rule wp_whileM [where I = "\<lambda>(pc, mem). length mem = m \<and> moves_ok m (drop pc code)" and m = "\<lambda>(pc, mem). length code - pc"])
    fix s :: "nat \<times> int list"
    assume I: "case s of (pc, mem) \<Rightarrow> length mem = m \<and> moves_ok m (drop pc code)"
    obtain pc mem where s: "s = (pc, mem)" by (cases s)
    with I have len: "length mem = m" and ok: "moves_ok m (drop pc code)" by auto
    from ok have pc: "pc < length code" by (cases "pc < length code") auto
    then have d: "drop pc code = code ! pc # drop (Suc pc) code" by (rule Cons_nth_drop_Suc [symmetric])
    show "wp ((case s of (pc, mem) \<Rightarrow> do { dst \<leftarrow> rd code pc; Some (dst \<noteq> 255) }))
      (\<lambda>t. if t then wp ((case s of (pc, mem) \<Rightarrow> do {
          dst \<leftarrow> rd code pc;
          src \<leftarrow> rd code (pc + 1);
          x \<leftarrow> (if src = 255 then Some v else rd mem (unat src));
          mem \<leftarrow> wr mem (unat dst) x;
          Some (pc + 2, mem) })) (\<lambda>s'. (case s' of (pc, mem) \<Rightarrow> length mem = m \<and> moves_ok m (drop pc code)) \<and>
            (case s' of (pc, mem) \<Rightarrow> length code - pc) < (case s of (pc, mem) \<Rightarrow> length code - pc))
        else case s of (pc, mem') \<Rightarrow> length mem' = m)"
    proof (cases "code ! pc = 255")
      case True
      then show ?thesis using s pc len by (simp add: wp_simps)
    next
      case False
      with ok d have "drop (Suc pc) code \<noteq> []" by (cases "drop (Suc pc) code") auto
      then have pc1: "Suc pc < length code" by simp
      then have "drop (Suc pc) code = code ! Suc pc # drop (pc + 2) code" using Cons_nth_drop_Suc [OF pc1] by simp
      with ok d False have "unat (code ! pc) < m" "code ! Suc pc = 255 \<or> unat (code ! Suc pc) < m" "moves_ok m (drop (pc + 2) code)" by auto
      then show ?thesis using s pc pc1 len False by (auto simp: wp_simps)
    qed
  qed (use assms in \<open>simp add: m_def\<close>)
  then show ?thesis unfolding run_moves_def m_def by (auto simp: wp_simps split_def elim: wp_mono)
qed

text \<open>The code tables of an automaton with \<open>n\<close> states and \<open>m\<close> memory cells.\<close>

definition wf_code_at :: "lexing_table \<Rightarrow> nat \<Rightarrow> int option \<Rightarrow> bool" where
  "wf_code_at tbl m off = (case off of Some pc \<Rightarrow> moves_ok m (drop (nat pc) (lex_code tbl)) | None \<Rightarrow> False)"

definition moves_at :: "lexing_table \<Rightarrow> int \<Rightarrow> int \<Rightarrow> int option" where
  "moves_at tbl q c = do {
     base_code \<leftarrow> UShort (lex_base_code tbl) q;
     chk \<leftarrow> Short (lex_check_code tbl) (base_code + c);
     if chk = q then UShort (lex_trans_code tbl) (base_code + c) else UShort (lex_default_code tbl) q }"

definition wf_code_state :: "lexing_table \<Rightarrow> nat \<Rightarrow> int \<Rightarrow> bool" where
  "wf_code_state tbl m q \<longleftrightarrow>
     (if base_of tbl q < 0 then wf_code_at tbl m (UShort (lex_base_code tbl) q)
      else (0 \<le> backtrk_of tbl q \<longrightarrow> wf_code_at tbl m (UShort (lex_backtrk_code tbl) q)) \<and>
        list_all (\<lambda>c. moves_at tbl q (int c) = Some 0 \<or> wf_code_at tbl m (moves_at tbl q (int c))) [0..<257])"

definition wf_lex_code :: "lexing_table \<Rightarrow> nat \<Rightarrow> nat \<Rightarrow> bool" where
  "wf_lex_code tbl n m \<longleftrightarrow> list_all (\<lambda>q. wf_code_state tbl m (int q)) [0..<n]"

definition forget :: "lexer_buffer \<Rightarrow> lexer_buffer" where
  "forget lexbuf = lexbuf\<lparr>lex_mem := []\<rparr>"

fun forget_exit :: "lex_exit \<Rightarrow> lex_exit" where
  "forget_exit (Lex_action a lexbuf) = Lex_action a (forget lexbuf)"
| "forget_exit (Empty_token lexbuf) = Empty_token (forget lexbuf)"

lemma tag_buffer_ok:
  assumes "wf_code_at tbl (length (lex_mem lexbuf)) (UShort offs q)"
  obtains mem where "tag_buffer tbl offs q lexbuf = Some (lexbuf\<lparr>lex_mem := mem\<rparr>)" "length mem = length (lex_mem lexbuf)"
proof -
  from assms obtain pc where pc: "UShort offs q = Some pc" "moves_ok (length (lex_mem lexbuf)) (drop (nat pc) (lex_code tbl))"
    by (auto simp: wf_code_at_def split: option.splits)
  from run_moves_ok [OF pc(2), of "- 1"] obtain mem where
    "run_moves (lex_code tbl) (nat pc) (- 1) (lex_mem lexbuf) = Some mem" "length mem = length (lex_mem lexbuf)"
    by (auto simp: wp_def)
  with pc(1) that [of mem] show thesis by (simp add: tag_buffer_def run_tag_def)
qed

lemma perform_moves_ok:
  assumes "moves_at tbl q c = Some 0 \<or> wf_code_at tbl (length (lex_mem lexbuf)) (moves_at tbl q c)"
  obtains mem where "perform_moves tbl q c lexbuf = Some (lexbuf\<lparr>lex_mem := mem\<rparr>)" "length mem = length (lex_mem lexbuf)"
proof -
  have eq: "perform_moves tbl q c lexbuf = do { pc_off \<leftarrow> moves_at tbl q c;
      if 0 < pc_off then do {
       mem \<leftarrow> run_mem (lex_code tbl) (nat pc_off) (lex_mem lexbuf) (lex_curr_pos lexbuf);
       Some (lexbuf\<lparr>lex_mem := mem\<rparr>) } else Some lexbuf }"
    by (simp add: perform_moves_def moves_at_def Option.bind_assoc)
  from assms obtain pc where pc: "moves_at tbl q c = Some pc"
    and ok: "pc = 0 \<or> moves_ok (length (lex_mem lexbuf)) (drop (nat pc) (lex_code tbl))"
    by (auto simp: wf_code_at_def split: option.splits)
  show thesis
  proof (cases "0 < pc")
    case True
    with ok run_moves_ok [of "lex_mem lexbuf" "nat pc" "lex_code tbl"] obtain mem
      where "run_mem (lex_code tbl) (nat pc) (lex_mem lexbuf) (lex_curr_pos lexbuf) = Some mem" "length mem = length (lex_mem lexbuf)"
      by (auto simp: run_mem_def wp_def)
    with True pc that show thesis by (simp add: eq)
  next
    case False
    then have "perform_moves tbl q c lexbuf = Some (lexbuf\<lparr>lex_mem := lex_mem lexbuf\<rparr>)" by (simp add: eq pc)
    with that show thesis by blast
  qed
qed

lemma whileE_simulation:
  fixes m :: "'s \<Rightarrow> nat"
  assumes "I s"
    and "\<And>s. I s \<Longrightarrow> map_option (map_sum f g) (c s) = c' (g s)"
    and "\<And>s s'. I s \<Longrightarrow> c s = Some (Inr s') \<Longrightarrow> I s' \<and> m s' < m s"
  shows "map_option (map_sum f g) (whileE (\<lambda>_. True) c s) = whileE (\<lambda>_. True) c' (g s)"
  using assms(1)
proof (induction "m s" arbitrary: s rule: less_induct)
  case less
  note step = assms(2) [OF less.prems, symmetric]
  show ?case
  proof (cases "c s")
    case None
    then show ?thesis using step by (simp add: whileE_True [of "\<lambda>_. True", OF TrueI] bindE_def)
  next
    case (Some r)
    then show ?thesis using step less.hyps assms(3) [OF less.prems]
      by (cases r) (auto simp: whileE_True [of "\<lambda>_. True" s] whileE_True [of "\<lambda>_. True" "g s"] bindE_eval)
  qed
qed

lemma forget_simps [simp]:
  "lex_buffer (forget lb) = lex_buffer lb" "lex_buffer_len (forget lb) = lex_buffer_len lb"
  "lex_start_pos (forget lb) = lex_start_pos lb" "lex_curr_pos (forget lb) = lex_curr_pos lb"
  "lex_last_pos (forget lb) = lex_last_pos lb" "lex_last_action (forget lb) = lex_last_action lb"
  "lex_eof_reached (forget lb) = lex_eof_reached lb" "forget (lb\<lparr>lex_mem := mem\<rparr>) = forget lb"
  "forget (lb\<lparr>lex_curr_pos := p\<rparr>) = forget lb\<lparr>lex_curr_pos := p\<rparr>"
  by (simp_all add: forget_def)

lemma forget_mark: "forget (mark_backtrk k lb) = mark_backtrk k (forget lb)"
  by (simp add: mark_backtrk_def forget_def)

lemma forget_erase: "forget (erase_eof c lb) = erase_eof c (forget lb)"
  by (simp add: erase_eof_def forget_def)

lemma forget_backtrack: "forget_exit (backtrack lb) = backtrack (forget lb)"
  by (simp add: backtrack_def Let_def)

abbreviation forget_result :: "lex_exit + int \<times> lexer_buffer \<Rightarrow> lex_exit + int \<times> lexer_buffer" where
  "forget_result \<equiv> map_sum forget_exit (map_prod id forget)"

lemma next_char_forget: "next_char q (forget lb) = map_option forget_result (next_char q lb)"
  by (cases "rd (lex_buffer lb) (lex_curr_pos lb)") (auto simp: next_char_def returnE_def throwE_def liftE_def)

definition left :: "lexer_buffer \<Rightarrow> nat" where
  "left lb = lex_buffer_len lb - lex_curr_pos lb + (if lex_eof_reached lb then 1 else 0)"

lemma left_simps [simp]: "left (mark_backtrk k lb) = left lb" "left (lb\<lparr>lex_mem := mem\<rparr>) = left lb"
  by (simp_all add: left_def mark_backtrk_def)

lemma erase_eof_simps [simp]:
  "erase_eof c (lb\<lparr>lex_mem := mem\<rparr>) = (erase_eof c lb)\<lparr>lex_mem := mem\<rparr>" "lex_mem (erase_eof c lb) = lex_mem lb"
  by (simp_all add: erase_eof_def)

lemma next_char_progress:
  assumes "next_char q lb = Some (Inr (c, lb'))"
  shows "left (erase_eof c lb') < left lb" "lex_mem lb' = lex_mem lb" "0 \<le> c" "c \<le> 256"
proof -
  have "uint b < 256" for b :: u8 using uint_lt2p [of b] by simp
  then have byte: "uint b \<le> 256" "uint b \<noteq> 256" for b :: u8 by (simp_all add: less_imp_le less_imp_neq)
  show "left (erase_eof c lb') < left lb" "lex_mem lb' = lex_mem lb" "0 \<le> c" "c \<le> 256"
    using assms byte by (auto simp: next_char_def left_def erase_eof_def returnE_def throwE_def liftE_def
        split: if_splits Option.bind_splits)
qed

lemma wf_lex_codeD:
  assumes "wf_lex_code tbl n m" "0 \<le> q" "q < int n"
  shows "base_of tbl q < 0 \<Longrightarrow> wf_code_at tbl m (UShort (lex_base_code tbl) q)"
    and "0 \<le> base_of tbl q \<Longrightarrow> 0 \<le> backtrk_of tbl q \<Longrightarrow> wf_code_at tbl m (UShort (lex_backtrk_code tbl) q)"
    and "0 \<le> base_of tbl q \<Longrightarrow> 0 \<le> c \<Longrightarrow> c \<le> 256 \<Longrightarrow> moves_at tbl q c = Some 0 \<or> wf_code_at tbl m (moves_at tbl q c)"
proof -
  have "int (nat q) = q" "nat q < n" using assms by auto
  with assms(1) have wf: "wf_code_state tbl m q" by (auto simp: wf_lex_code_def list_all_iff dest!: bspec [of _ _ "nat q"])
  then show "base_of tbl q < 0 \<Longrightarrow> wf_code_at tbl m (UShort (lex_base_code tbl) q)"
    "0 \<le> base_of tbl q \<Longrightarrow> 0 \<le> backtrk_of tbl q \<Longrightarrow> wf_code_at tbl m (UShort (lex_backtrk_code tbl) q)"
    by (auto simp: wf_code_state_def)
  assume "0 \<le> base_of tbl q" "0 \<le> c" "c \<le> 256"
  then have "nat c \<in> set [0..<257]" "\<not> base_of tbl q < 0" by auto
  with wf have "moves_at tbl q (int (nat c)) = Some 0 \<or> wf_code_at tbl m (moves_at tbl q (int (nat c)))"
    unfolding wf_code_state_def list_all_iff by metis
  then show "moves_at tbl q c = Some 0 \<or> wf_code_at tbl m (moves_at tbl q c)" using \<open>0 \<le> c\<close> by simp
qed

text \<open>One step of the two engines on the same state: the engine with memory does the same apart from the memory.\<close>

lemma new_lex_step_sim:
  assumes "wf_lexing_table tbl n" "wf_lex_code tbl n m" "0 \<le> q" "q < int n" "length (lex_mem lb) = m"
  shows "map_option forget_result (new_lex_step tbl (q, lb)) = lex_step tbl (q, forget lb)"
    and "new_lex_step tbl (q, lb) = Some (Inr (q', lb')) \<Longrightarrow>
      0 \<le> q' \<and> q' < int n \<and> length (lex_mem lb') = m \<and> left lb' < left lb"
proof -
  note tab = wf_lexing_tableD [OF assms(1,3,4)] and code = wf_lex_codeD [OF assms(2-4)]
  obtain b where b: "Short (lex_base tbl) q = Some b" using tab(1) by blast
  have "map_option forget_result (new_lex_step tbl (q, lb)) = lex_step tbl (q, forget lb) \<and>
    (\<forall>q' lb'. new_lex_step tbl (q, lb) = Some (Inr (q', lb')) \<longrightarrow>
      0 \<le> q' \<and> q' < int n \<and> length (lex_mem lb') = m \<and> left lb' < left lb)"
  proof (cases "b < 0")
    case True
    with code(1) b assms(5) have "wf_code_at tbl (length (lex_mem lb)) (UShort (lex_base_code tbl) q)" by simp
    from tag_buffer_ok [OF this] obtain mem where
      "tag_buffer tbl (lex_base_code tbl) q lb = Some (lb\<lparr>lex_mem := mem\<rparr>)" by blast
    with True show ?thesis by (simp add: new_lex_step_def lex_step_def b bindE_eval throwE_def)
  next
    case False
    then obtain k where k: "Short (lex_backtrk tbl) q = Some k" using tab(2) b by auto
    have "\<exists>mem. (if 0 \<le> k then tag_buffer tbl (lex_backtrk_code tbl) q lb else Some lb) = Some (lb\<lparr>lex_mem := mem\<rparr>) \<and> length mem = m"
    proof (cases "0 \<le> k")
      case True
      with code(2) b k False assms(5) have "wf_code_at tbl (length (lex_mem lb)) (UShort (lex_backtrk_code tbl) q)" by simp
      from tag_buffer_ok [OF this] obtain mem where
        "tag_buffer tbl (lex_backtrk_code tbl) q lb = Some (lb\<lparr>lex_mem := mem\<rparr>)" "length mem = length (lex_mem lb)" by blast
      with True assms(5) show ?thesis by auto
    next
      case False
      then show ?thesis using assms(5) by (auto intro: exI [of _ "lex_mem lb"])
    qed
    then obtain mem where mem: "(if 0 \<le> k then tag_buffer tbl (lex_backtrk_code tbl) q lb else Some lb) = Some (lb\<lparr>lex_mem := mem\<rparr>)"
      "length mem = m" by blast
    define l1 where "l1 = mark_backtrk k (lb\<lparr>lex_mem := mem\<rparr>)"
    have l1: "mark_backtrk k (forget lb) = forget l1" "left l1 = left lb" "lex_mem l1 = mem"
      by (simp_all add: l1_def forget_mark) (simp add: mark_backtrk_def)
    have new: "new_lex_step tbl (q, lb) = bindE (next_char q l1) (\<lambda>(c, lb). bindE (liftE (next_state tbl b q c)) (\<lambda>state'.
       if state' < 0 then throwE (backtrack lb)
       else bindE (liftE (perform_moves tbl q c lb)) (\<lambda>lb. returnE (state', erase_eof c lb))))"
      using False by (simp add: new_lex_step_def b k mem(1) bindE_eval l1_def)
    have old: "lex_step tbl (q, forget lb) = bindE (map_option forget_result (next_char q l1)) (\<lambda>(c, lb).
       bindE (liftE (next_state tbl b q c)) (\<lambda>state'.
       if state' < 0 then throwE (backtrack lb) else returnE (state', erase_eof c lb)))"
      using False by (simp add: lex_step_def b k bindE_eval l1 next_char_forget)
    show ?thesis
    proof (cases "\<exists>c l2. next_char q l1 = Some (Inr (c, l2))")
      case False
      then consider "next_char q l1 = None" | e where "next_char q l1 = Some (Inl e)"
        by (metis option.exhaust sum.exhaust surj_pair)
      then show ?thesis using new old by cases (auto simp: bindE_def)
    next
      case True
      then obtain c l2 where c: "next_char q l1 = Some (Inr (c, l2))" by blast
      note pr = next_char_progress [OF c]
      from tab(3) [OF _ pr(3,4)] b False obtain q' where q': "next_state tbl b q c = Some q'" "q' < int n" by auto
      have "moves_at tbl q c = Some 0 \<or> wf_code_at tbl (length (lex_mem l2)) (moves_at tbl q c)"
        using code(3) [OF _ pr(3,4)] b False pr(2) l1(3) mem(2) by auto
      from perform_moves_ok [OF this] obtain mem' where mem':
        "perform_moves tbl q c l2 = Some (l2\<lparr>lex_mem := mem'\<rparr>)" "length mem' = length (lex_mem l2)" by blast
      show ?thesis
        using new old c q' mem' pr(1,2) l1(2,3) mem(2)
        by (auto simp: bindE_eval throwE_def returnE_def forget_backtrack forget_erase)
    qed
  qed
  then show "map_option forget_result (new_lex_step tbl (q, lb)) = lex_step tbl (q, forget lb)"
    "new_lex_step tbl (q, lb) = Some (Inr (q', lb')) \<Longrightarrow>
      0 \<le> q' \<and> q' < int n \<and> length (lex_mem lb') = m \<and> left lb' < left lb" by auto
qed

lemma lex_step_sim:
  assumes "wf_lexing_table tbl n" "0 \<le> q" "q < int n"
  shows "map_option forget_result (lex_step tbl (q, lb)) = lex_step tbl (q, forget lb)"
    and "lex_step tbl (q, lb) = Some (Inr (q', lb')) \<Longrightarrow> 0 \<le> q' \<and> q' < int n \<and> left lb' < left lb"
proof -
  note tab = wf_lexing_tableD [OF assms]
  obtain b where b: "Short (lex_base tbl) q = Some b" using tab(1) by blast
  have "map_option forget_result (lex_step tbl (q, lb)) = lex_step tbl (q, forget lb) \<and>
    (\<forall>q' lb'. lex_step tbl (q, lb) = Some (Inr (q', lb')) \<longrightarrow> 0 \<le> q' \<and> q' < int n \<and> left lb' < left lb)"
  proof (cases "b < 0")
    case True
    then show ?thesis by (simp add: lex_step_def b bindE_eval throwE_def)
  next
    case False
    then obtain k where k: "Short (lex_backtrk tbl) q = Some k" using tab(2) b by auto
    define l1 where "l1 = mark_backtrk k lb"
    have l1: "mark_backtrk k (forget lb) = forget l1" "left l1 = left lb" by (simp_all add: l1_def forget_mark)
    have new: "lex_step tbl (q, lb) = bindE (next_char q l1) (\<lambda>(c, lb). bindE (liftE (next_state tbl b q c)) (\<lambda>state'.
       if state' < 0 then throwE (backtrack lb) else returnE (state', erase_eof c lb)))"
      using False by (simp add: lex_step_def b k bindE_eval l1_def)
    have old: "lex_step tbl (q, forget lb) = bindE (map_option forget_result (next_char q l1)) (\<lambda>(c, lb).
       bindE (liftE (next_state tbl b q c)) (\<lambda>state'.
       if state' < 0 then throwE (backtrack lb) else returnE (state', erase_eof c lb)))"
      using False by (simp add: lex_step_def b k bindE_eval l1 next_char_forget)
    show ?thesis
    proof (cases "\<exists>c l2. next_char q l1 = Some (Inr (c, l2))")
      case False
      then consider "next_char q l1 = None" | e where "next_char q l1 = Some (Inl e)"
        by (metis option.exhaust sum.exhaust surj_pair)
      then show ?thesis using new old by cases (auto simp: bindE_def)
    next
      case True
      then obtain c l2 where c: "next_char q l1 = Some (Inr (c, l2))" by blast
      note pr = next_char_progress [OF c]
      from tab(3) [OF _ pr(3,4)] b False obtain q' where q': "next_state tbl b q c = Some q'" "q' < int n" by auto
      show ?thesis using new old c q' pr(1) l1(2)
        by (auto simp: bindE_eval throwE_def returnE_def forget_backtrack forget_erase)
    qed
  qed
  then show "map_option forget_result (lex_step tbl (q, lb)) = lex_step tbl (q, forget lb)"
    "lex_step tbl (q, lb) = Some (Inr (q', lb')) \<Longrightarrow> 0 \<le> q' \<and> q' < int n \<and> left lb' < left lb" by auto
qed

text \<open>
  C15. The engine with a memory of positions matches what the plain engine matches: for tables whose code moves
  stay inside the memory, both engines give the same action or failure and leave the buffer in the same
  state, except for the memory.
\<close>

theorem new_lex_engine_equiv:
  assumes "wf_lexing_table tbl n" "wf_lex_code tbl n (length (lex_mem lexbuf))" "- int n \<le> q" "q < int n"
  shows "map_option forget_result (caml_new_lex_engine tbl q lexbuf) = map_option forget_result (caml_lex_engine tbl q lexbuf)"
proof -
  let ?m = "length (lex_mem lexbuf)"
  obtain p lb where entry: "lex_entry q lexbuf = (p, lb)" "0 \<le> p" "p < int n" "length (lex_mem lb) = ?m"
    using assms(3,4) by (cases "0 \<le> q") (auto simp: lex_entry_def)
  have "map_option forget_result (whileE (\<lambda>_. True) (new_lex_step tbl) (p, lb)) =
      whileE (\<lambda>_. True) (lex_step tbl) (map_prod id forget (p, lb))"
  proof (rule whileE_simulation [where I = "\<lambda>s. 0 \<le> fst s \<and> fst s < int n \<and> length (lex_mem (snd s)) = ?m" and m = "\<lambda>s. left (snd s)"])
    fix s :: "int \<times> lexer_buffer" assume s: "0 \<le> fst s \<and> fst s < int n \<and> length (lex_mem (snd s)) = ?m"
    show "map_option forget_result (new_lex_step tbl s) = lex_step tbl (map_prod id forget s)"
      using new_lex_step_sim(1) [OF assms(1,2), of "fst s" "snd s"] s by (cases s) simp
    fix s' assume "new_lex_step tbl s = Some (Inr s')"
    then show "(0 \<le> fst s' \<and> fst s' < int n \<and> length (lex_mem (snd s')) = ?m) \<and> left (snd s') < left (snd s)"
      using new_lex_step_sim(2) [OF assms(1,2), of "fst s" "snd s" "fst s'" "snd s'"] s by simp
  qed (use entry in simp)
  moreover have "map_option forget_result (whileE (\<lambda>_. True) (lex_step tbl) (p, lb)) =
      whileE (\<lambda>_. True) (lex_step tbl) (map_prod id forget (p, lb))"
  proof (rule whileE_simulation [where I = "\<lambda>s. 0 \<le> fst s \<and> fst s < int n" and m = "\<lambda>s. left (snd s)"])
    fix s :: "int \<times> lexer_buffer" assume s: "0 \<le> fst s \<and> fst s < int n"
    show "map_option forget_result (lex_step tbl s) = lex_step tbl (map_prod id forget s)"
      using lex_step_sim(1) [OF assms(1), of "fst s" "snd s"] s by (cases s) simp
    fix s' assume "lex_step tbl s = Some (Inr s')"
    then show "(0 \<le> fst s' \<and> fst s' < int n) \<and> left (snd s') < left (snd s)"
      using lex_step_sim(2) [OF assms(1), of "fst s" "snd s" "fst s'" "snd s'"] s by simp
  qed (use entry in simp)
  ultimately show ?thesis by (simp add: caml_new_lex_engine_def caml_lex_engine_def entry)
qed

section \<open>A sample automaton\<close>

text \<open>It accepts \<open>a\<close> with action 0 and \<open>ab\<close> with action 1; the transition out of state 1 records the position.\<close>

definition sample_lexer :: lexing_table where
  "sample_lexer = \<lparr>lex_base = shorts [0, 1, - 2], lex_backtrk = shorts [- 1, 0, - 1], lex_default = shorts [- 1, - 1, - 1],
     lex_trans = shorts ((replicate 258 0)[97 := 1, 99 := 2]), lex_check = shorts ((replicate 258 (- 1))[97 := 0, 99 := 1]),
     lex_base_code = shorts [0, 0, 0], lex_backtrk_code = shorts [0, 0, 0], lex_default_code = shorts [0, 1, 0],
     lex_trans_code = shorts (replicate 257 0), lex_check_code = shorts (replicate 257 (- 1)), lex_code = [255, 0, 255, 255]\<rparr>"

definition sample_lexbuf :: "u8 list \<Rightarrow> bool \<Rightarrow> lexer_buffer" where
  "sample_lexbuf bs eof = \<lparr>lex_buffer = bs, lex_buffer_len = length bs, lex_start_pos = 0, lex_curr_pos = 0, lex_last_pos = 0,
     lex_last_action = 0, lex_eof_reached = eof, lex_mem = [- 1]\<rparr>"

lemma sample_lexer_tables:
  assumes "0 \<le> c" "c < 257"
  shows "next_state sample_lexer 0 0 c = Some (if c = 97 then 1 else - 1)"
    and "next_state sample_lexer 1 1 c = Some (if c = 98 then 2 else - 1)"
    and "moves_at sample_lexer 0 c = Some 0" "moves_at sample_lexer 1 c = Some 1"
proof -
  have "nat c = 97 \<longleftrightarrow> c = 97" "nat (1 + c) = 99 \<longleftrightarrow> c = 98" "nat (1 + c) = 97 \<longleftrightarrow> c = 96" "nat c = 99 \<longleftrightarrow> c = 99"
    using assms by linarith+
  with assms show "next_state sample_lexer 0 0 c = Some (if c = 97 then 1 else - 1)"
    "next_state sample_lexer 1 1 c = Some (if c = 98 then 2 else - 1)"
    by (simp_all add: next_state_def sample_lexer_def Short_shorts nth_list_update)
  from assms show "moves_at sample_lexer 0 c = Some 0" "moves_at sample_lexer 1 c = Some 1"
    by (simp_all add: moves_at_def sample_lexer_def Short_shorts UShort_shorts)
qed

lemma sample_lexer_states:
  "Short (lex_base sample_lexer) 0 = Some 0" "Short (lex_base sample_lexer) 1 = Some 1" "Short (lex_base sample_lexer) 2 = Some (- 2)"
  "Short (lex_backtrk sample_lexer) 0 = Some (- 1)" "Short (lex_backtrk sample_lexer) 1 = Some 0"
  "UShort (lex_base_code sample_lexer) 2 = Some 0" "UShort (lex_backtrk_code sample_lexer) 1 = Some 0"
  by (simp_all add: sample_lexer_def Short_shorts UShort_shorts)

lemma sample_lexer_wf: "wf_lexing_table sample_lexer 3" "wf_lex_code sample_lexer 3 (Suc 0)"
proof -
  have "wf_state sample_lexer 3 0" "wf_state sample_lexer 3 1" "wf_state sample_lexer 3 2"
    by (simp_all add: wf_state_def sample_lexer_states list_all_iff sample_lexer_tables)
  then show "wf_lexing_table sample_lexer 3" by (simp add: wf_lexing_table_def upt_rec numeral_2_eq_2)
  have "wf_code_at sample_lexer (Suc 0) (Some 0)" "wf_code_at sample_lexer (Suc 0) (Some 1)"
    by (simp_all add: wf_code_at_def sample_lexer_def)
  then have "wf_code_state sample_lexer (Suc 0) 0" "wf_code_state sample_lexer (Suc 0) 1" "wf_code_state sample_lexer (Suc 0) 2"
    by (simp_all add: wf_code_state_def sample_lexer_states list_all_iff sample_lexer_tables)
  then show "wf_lex_code sample_lexer 3 (Suc 0)" by (simp add: wf_lex_code_def upt_rec numeral_2_eq_2)
qed

theorem lex_engine_longest_match_witness:
  "\<exists>r. caml_lex_engine sample_lexer 0 (sample_lexbuf [97, 97] True) = Some (Inl r) \<and>
    lex_spec sample_lexer 0 (sample_lexbuf [97, 97] True) r"
  by (rule lex_engine_longest_match [of sample_lexer 3]) (simp_all add: sample_lexer_wf sample_lexbuf_def wf_buffer_def)

theorem new_lex_engine_equiv_witness:
  "map_option forget_result (caml_new_lex_engine sample_lexer 0 (sample_lexbuf [97, 98] True)) =
    map_option forget_result (caml_lex_engine sample_lexer 0 (sample_lexbuf [97, 98] True))"
  by (rule new_lex_engine_equiv [of sample_lexer 3]) (simp_all add: sample_lexer_wf sample_lexbuf_def)

theorem lex_engine_refill_witness:
  "caml_lex_engine sample_lexer (- 2) (refilled [98] True
      ((sample_lexbuf [97] False)\<lparr>lex_curr_pos := 1, lex_last_pos := 1, lex_last_action := 0\<rparr>)) =
    caml_lex_engine sample_lexer 0 (refilled [98] True (sample_lexbuf [97] False))"
proof (rule lex_engine_refill [of sample_lexer 3])
  have "lex_step sample_lexer (lex_entry 0 (sample_lexbuf [97] False)) =
      Some (Inr (1, (sample_lexbuf [97] False)\<lparr>lex_curr_pos := 1, lex_last_action := - 1\<rparr>))"
    "lex_step sample_lexer (1, (sample_lexbuf [97] False)\<lparr>lex_curr_pos := 1, lex_last_action := - 1\<rparr>) =
      Some (Inl (Lex_action (- 2) ((sample_lexbuf [97] False)\<lparr>lex_curr_pos := 1, lex_last_pos := 1, lex_last_action := 0\<rparr>)))"
    by (simp_all add: lex_step_def lex_entry_def sample_lexbuf_def sample_lexer_states sample_lexer_tables bindE_eval
        next_char_def mark_backtrk_def erase_eof_def returnE_def throwE_def liftE_def rd_def)
  then show "caml_lex_engine sample_lexer 0 (sample_lexbuf [97] False) =
    Some (Inl (Lex_action (- 2) ((sample_lexbuf [97] False)\<lparr>lex_curr_pos := 1, lex_last_pos := 1, lex_last_action := 0\<rparr>)))"
    by (simp add: caml_lex_engine_def whileE_True [of "\<lambda>_. True", OF TrueI] bindE_eval)
qed (simp_all add: sample_lexer_wf sample_lexbuf_def wf_buffer_def)

end
