(* ===== verification/Spec2Isabelle.thy ===== *)
theory Spec2Isabelle
  imports LR0_Automaton Parser_Tables Interp_Calls Ints Globroots Lexing
begin

text \<open>
  A verification library for the C sources of travlang: the parser generator in \<^verbatim>\<open>src/yacc\<close> and parts of the
  runtime system in \<^verbatim>\<open>src/runtime\<close>.

  \<^bold>\<open>Conventions.\<close> A C function is a HOL function of the parts of memory it reads and returns the parts it
  writes. Results are in the option type: \<^term>\<open>None\<close> is everything C leaves undefined (an access outside an
  array, an unset pointer, a shift that is too wide) and a loop that does not end. So a theorem that states
  \<open>f x = Some y\<close>, or \<open>wp\<close> of a postcondition, shows that \<open>f\<close> ends, that all its accesses are in bounds and that
  the result is right. Errors the program reports itself (too many states, \<open>Failure\<close>, \<open>Division_by_zero\<close>) are
  values of a sum type or explicit outcomes. Theory \<open>Prelude\<close> has array reads and writes, the loop
  combinators (\<open>for_up\<close>, \<open>for_down\<close>, \<open>foldM\<close>, \<open>whileM\<close>, the last by \<^verbatim>\<open>partial_function\<close>, so no fuel is chosen
  anywhere), their weakest-precondition rules and the collection \<open>wp_simps\<close>. Machine integers are words
  (\<open>u8\<close>, \<open>u32\<close>, \<open>u64\<close>) where the width matters, and naturals or integers with explicit range checks elsewhere.

  \<^bold>\<open>The parser generator.\<close> The generator turns a grammar into tables in the order of its \<open>main\<close>:

    \<^item> \<open>Warshall\<close> (\<^verbatim>\<open>warshall.c\<close>): bit rows and the in-place closure of a relation. The result is the
      reflexive-transitive closure of the relation that the matrix stores.
    \<^item> \<open>Grammar\<close> (\<^verbatim>\<open>defs.h\<close>, \<open>set_derives\<close> and \<open>set_nullable\<close> of \<^verbatim>\<open>lr0.c\<close>): the arrays that hold the grammar, their
      well-formedness, rules by nonterminal and the symbols that derive the empty string.
    \<^item> \<open>Closure\<close> (\<^verbatim>\<open>closure.c\<close>): the left-corner tables and the closure of a kernel, proved to be the sorted
      textbook closure; it uses the theorem on \<open>Warshall\<close>.
    \<^item> \<open>LR0\<close> and \<open>LR0_Automaton\<close> (\<^verbatim>\<open>lr0.c\<close>): kernels, the hash table of states, the work list, shifts and
      reductions. The states are the reachable kernels, each once; the generator stops with the error exactly
      when there are more than \<open>MAXSHORT\<close> of them.
    \<^item> \<open>Mkpar\<close> and \<open>Conflicts\<close> (\<^verbatim>\<open>mkpar.c\<close>): actions per state, resolution of conflicts by precedence, unused
      rules and default reductions, with the invariant that at most one action per state and symbol stays.
    \<^item> \<open>Pack\<close> (\<^verbatim>\<open>output.c\<close>): the sparse vectors of actions and gotos and their compression into one table.
      A lookup in the packed table gives exactly the entries of each vector; the search for a place ends because
      the first entry of the vector moves up with every attempt and the table may not exceed its maximum.
    \<^item> \<open>Output\<close> (\<^verbatim>\<open>output.c\<close>): the tables as bodies of OCaml string literals; reading a literal back gives the table.

  \<^bold>\<open>The engines that run generated code.\<close> \<open>Shorts\<close> has the tables of 16-bit numbers that \<^verbatim>\<open>lexing.c\<close> and \<^verbatim>\<open>parsing.c\<close>
  read from OCaml strings. \<open>Lexing\<close> (\<^verbatim>\<open>lexing.c\<close>) has both lexer engines as a loop over one step; the plain engine is
  a longest-match scanner, a refill in the middle of a token does not change the result, and the memory of
  positions does not change what is matched. \<open>Parse_Engine\<close> (\<^verbatim>\<open>parsing.c\<close>) has the parser automaton, one
  function per label of the C code; a call ends within sixteen jumps for any tables and stacks.

  \<^bold>\<open>From the generator to the engine.\<close> \<open>Parser_Tables\<close> composes the two: \<open>make_parser\<close>, \<open>output_actions\<close> with its vectors
  and their packing, the string literals, and the lookups of the engine in the literals read back. Unless the
  maximum table size is exceeded, the engine finds in every state and for every token the live action of the row
  that \<open>make_parser\<close> left, and after a reduction every goto; and from the label \<open>loop\<close> it makes the move it finds.
  The lookahead sets and gotos (\<^verbatim>\<open>lalr.c\<close>) and the symbol values (\<^verbatim>\<open>reader.c\<close>) are arguments of this theorem, with
  what it needs of them as the hypotheses \<open>wf_tables\<close>, \<open>wf_gotos\<close> and \<open>values_ok\<close>.

  \<^bold>\<open>The bytecode machine.\<close> \<open>Machine\<close> has values, blocks, fibers and the registers of \<^verbatim>\<open>interp.c\<close>; \<open>Interp\<close>
  has one function per group of instructions, composed by \<open>exec\<close> and \<open>step\<close> the way the switch of
  \<open>caml_interprete\<close> is; the C primitives are a parameter (\<open>world\<close>). \<open>Interp_Arith\<close> shows that the tagged-integer
  instructions compute modulo \<open>2^63\<close>; \<open>Interp_Calls\<close> that calls, partial application, tail calls, exceptions
  and effects keep the registers and stacks they have to keep.

  \<^bold>\<open>Other parts of the runtime.\<close> \<open>Ints\<close> (\<^verbatim>\<open>ints.c\<close>): literals, formats, division, byte order and hashing of
  boxed integers. \<open>Skiplist\<close> (\<^verbatim>\<open>skiplist.c\<close>): skip lists on an explicit heap of cells, shown to implement a
  finite map through the locale \<open>dictionary\<close>. \<open>Globroots\<close> (\<^verbatim>\<open>globroots.c\<close>): the lists of global roots on top of
  it, with the invariant that a minor collection finds every root that holds a young block.

  \<^bold>\<open>Not modelled.\<close> The memory manager and the domains (\<^verbatim>\<open>major_gc.c\<close>, \<^verbatim>\<open>minor_gc.c\<close>, \<^verbatim>\<open>shared_heap.c\<close>,
  \<^verbatim>\<open>domain.c\<close>, \<^verbatim>\<open>memory.c\<close> and what serves them) run on several threads under the C memory model, on raw memory and
  headers; none of the data models used here says anything about them. Wrappers around the operating system
  (\<^verbatim>\<open>io.c\<close>, \<^verbatim>\<open>sys.c\<close>, \<^verbatim>\<open>unix.c\<close>, \<^verbatim>\<open>win32.c\<close>, \<^verbatim>\<open>otherlibs/unix\<close>, \<^verbatim>\<open>otherlibs/systhreads\<close>) have no content apart from
  the calls they make. Marshalling, structural comparison and hashing (\<^verbatim>\<open>extern.c\<close>, \<^verbatim>\<open>intern.c\<close>, \<^verbatim>\<open>compare.c\<close>,
  \<^verbatim>\<open>hash.c\<close>) walk over raw heap blocks by address. The reader of grammar files and its symbol table (\<^verbatim>\<open>reader.c\<close>,
  \<^verbatim>\<open>symtab.c\<close>) and the LALR lookahead sets (\<^verbatim>\<open>lalr.c\<close>) are inputs of the models: the grammar arrays, the tables of
  lookaheads and gotos and the symbol values are arguments, with their well-formedness as hypotheses. Digests,
  random numbers, the Str library, strings and arrays are left out. The native-code runtime depends on assembly code. Printing, diagnostics and tests are
  not part of any property.
\<close>

end
